(* ===== verification/Reliquary_Prelude.thy ===== *)
theory Reliquary_Prelude
  imports Complex_Main "HOL-Library.AList" "HOL-Library.Char_ord" "HOL-Library.List_Lexorder"
    "HOL-Library.Multiset"
begin

text \<open>
  What the component theories share: the values a Python program passes around, errors as
  values, dictionaries as association lists in insertion order, and the lemmas on them.

  Conventions of the whole development.
  \<^item> Python integers are \<^typ>\<open>int\<close>.
  \<^item> Python floats are \<^typ>\<open>rat\<close>: arithmetic is exact, so rounding, infinities and NaN are not
    modelled; where the code rejects a non-finite number, the model has no such number to reject.
  \<^item> A string is a list of \<^typ>\<open>char\<close>; its order is the code point order Python and SQLite use.
  \<^item> A \<^verbatim>\<open>dict\<close> is an association list with distinct keys: \<open>AList.update\<close> replaces a value in place
    or appends a new key at the end, which is the insertion order Python keeps.
  \<^item> An operation that may raise returns \<open>py_error + 'a\<close>; a branch that raises is an \<open>Inl\<close>.
\<close>

section \<open>Errors and results\<close>

datatype py_error =
    ValueError string
  | TypeError string
  | KeyError
  | IndexError string
  | LookupError string
  | PermissionError string
  | RuntimeError string
  | OverflowError
  | ZeroDivisionError
  | IntegrityError
  | SlotExhausted

type_synonym 'a res = "py_error + 'a"

definition bind_res :: "'a res \<Rightarrow> ('a \<Rightarrow> 'b res) \<Rightarrow> 'b res" where
  "bind_res r f = (case r of Inl e \<Rightarrow> Inl e | Inr x \<Rightarrow> f x)"

lemma bind_res_simps [simp]:
  "bind_res (Inl e) f = Inl e" "bind_res (Inr x) f = f x"
  by (simp_all add: bind_res_def)

lemma bind_res_Inr_iff: "bind_res r f = Inr y \<longleftrightarrow> (\<exists>x. r = Inr x \<and> f x = Inr y)"
  by (cases r) auto

lemma bind_res_Inl_iff: "bind_res r f = Inl e \<longleftrightarrow> r = Inl e \<or> (\<exists>x. r = Inr x \<and> f x = Inl e)"
  by (cases r) auto

text \<open>A loop that stops at the first error.\<close>

fun fold_res :: "('a \<Rightarrow> 's \<Rightarrow> 's res) \<Rightarrow> 'a list \<Rightarrow> 's \<Rightarrow> 's res" where
  "fold_res f [] s = Inr s"
| "fold_res f (x # xs) s = bind_res (f x s) (fold_res f xs)"

lemma fold_res_append: "fold_res f (xs @ ys) s = bind_res (fold_res f xs s) (fold_res f ys)"
proof (induction xs arbitrary: s)
  case (Cons x xs)
  then show ?case by (cases "f x s") auto
qed simp

lemma fold_res_invariant:
  assumes "\<And>x s t. x \<in> set xs \<Longrightarrow> P s \<Longrightarrow> f x s = Inr t \<Longrightarrow> P t"
    and "P s" and "fold_res f xs s = Inr t"
  shows "P t"
  using assms
proof (induction xs arbitrary: s)
  case (Cons x xs)
  from Cons.prems(3) obtain u where u: "f x s = Inr u" "fold_res f xs u = Inr t"
    by (auto simp: bind_res_Inr_iff)
  with Cons.prems(1,2) have "P u" by auto
  with u(2) Cons.prems(1) show ?case by (intro Cons.IH [of u]) auto
qed simp

section \<open>Values of no static type\<close>

text \<open>What \<^verbatim>\<open>object\<close> or a decoded JSON document may be; a dictionary's keys are values too.\<close>

datatype pyval =
    PNone
  | PBool bool
  | PInt int
  | PFloat rat
  | PStr string
  | PList "pyval list"
  | PDict "(pyval \<times> pyval) list"

text \<open>Python's truth value of an object (\<^verbatim>\<open>if entry.get(...)\<close>).\<close>

fun truthy :: "pyval \<Rightarrow> bool" where
  "truthy PNone = False"
| "truthy (PBool b) = b"
| "truthy (PInt i) = (i \<noteq> 0)"
| "truthy (PFloat r) = (r \<noteq> 0)"
| "truthy (PStr s) = (s \<noteq> [])"
| "truthy (PList xs) = (xs \<noteq> [])"
| "truthy (PDict d) = (d \<noteq> [])"

section \<open>Dictionaries in insertion order\<close>

type_synonym ('k, 'v) dict = "('k \<times> 'v) list"

abbreviation dget :: "('k, 'v) dict \<Rightarrow> 'k \<Rightarrow> 'v option" where
  "dget d k \<equiv> map_of d k"

abbreviation dset :: "'k \<Rightarrow> 'v \<Rightarrow> ('k, 'v) dict \<Rightarrow> ('k, 'v) dict" where
  "dset \<equiv> AList.update"

abbreviation dpop :: "'k \<Rightarrow> ('k, 'v) dict \<Rightarrow> ('k, 'v) dict" where
  "dpop \<equiv> AList.delete"

abbreviation dkeys :: "('k, 'v) dict \<Rightarrow> 'k list" where
  "dkeys d \<equiv> map fst d"

abbreviation dict_ok :: "('k, 'v) dict \<Rightarrow> bool" where
  "dict_ok d \<equiv> distinct (map fst d)"

text \<open>\<^verbatim>\<open>d.get(k, default)\<close>.\<close>

definition dget_or :: "('k, 'v) dict \<Rightarrow> 'k \<Rightarrow> 'v \<Rightarrow> 'v" where
  "dget_or d k v = (case map_of d k of None \<Rightarrow> v | Some w \<Rightarrow> w)"

lemma dget_or_Nil [simp]: "dget_or [] k v = v"
  by (simp add: dget_or_def)

lemma dget_or_dset [simp]: "dget_or (dset k v d) k' w = (if k = k' then v else dget_or d k' w)"
  by (simp add: dget_or_def update_conv')

lemma dget_or_dpop [simp]: "dget_or (dpop k d) k' w = (if k = k' then w else dget_or d k' w)"
  by (simp add: dget_or_def delete_conv')

lemma dget_or_Cons: "dget_or ((k, v) # d) k' w = (if k' = k then v else dget_or d k' w)"
  by (simp add: dget_or_def)

lemma dget_or_Some: "dget d k = Some v \<Longrightarrow> dget_or d k w = v"
  by (simp add: dget_or_def)

lemma dget_or_notin: "k \<notin> set (dkeys d) \<Longrightarrow> dget_or d k w = w"
  by (simp add: dget_or_def map_of_eq_None_iff [THEN iffD2] split: option.splits)

lemma dget_or_in: "k \<in> set (dkeys d) \<Longrightarrow> (k, dget_or d k w) \<in> set d"
  by (auto simp: dget_or_def map_of_eq_None_iff dest: map_of_SomeD split: option.splits)

lemma dget_or_mem: "dict_ok d \<Longrightarrow> (k, v) \<in> set d \<Longrightarrow> dget_or d k w = v"
  by (simp add: dget_or_def)

lemma dict_ok_dset [simp]: "dict_ok d \<Longrightarrow> dict_ok (dset k v d)"
  by (rule distinct_update)

lemma dict_ok_dpop [simp]: "dict_ok d \<Longrightarrow> dict_ok (dpop k d)"
  by (rule distinct_delete)

text \<open>\<^verbatim>\<open>k in d\<close>, kept folded so that proofs reason about key sets.\<close>

definition has_key :: "('k, 'v) dict \<Rightarrow> 'k \<Rightarrow> bool" where
  "has_key d k \<longleftrightarrow> k \<in> set (dkeys d)"

lemma has_key_same_keys: "dkeys d = dkeys d' \<Longrightarrow> has_key d k \<longleftrightarrow> has_key d' k"
  by (simp add: has_key_def flip: set_map)

lemma dkeys_dset_has_key: "has_key d k \<Longrightarrow> dkeys (dset k v d) = dkeys d"
  by (simp add: has_key_def update_keys)

lemma has_key_dset [simp]: "has_key (dset k v d) k' \<longleftrightarrow> k' = k \<or> has_key d k'"
  by (auto simp: has_key_def update_keys)

lemma has_key_dget: "has_key d k \<longleftrightarrow> dget d k \<noteq> None"
  by (simp add: has_key_def map_of_eq_None_iff)

lemma has_key_Nil [simp]: "\<not> has_key [] k"
  by (simp add: has_key_def)

lemma has_key_Cons [simp]: "has_key ((k, v) # d) k' \<longleftrightarrow> k' = k \<or> has_key d k'"
  by (auto simp: has_key_def)

lemma dkeys_dset_in: "k \<in> set (dkeys d) \<Longrightarrow> dkeys (dset k v d) = dkeys d"
  by (simp add: update_keys)

lemma set_dkeys_dset [simp]: "set (dkeys (dset k v d)) = insert k (set (dkeys d))"
  by (auto simp: update_keys)

lemma set_dset: "dict_ok d \<Longrightarrow> set (dset k v d) = insert (k, v) {p \<in> set d. fst p \<noteq> k}"
  by (induction d) (auto simp: image_iff)

lemma set_dpop: "set (dpop k d) = {p \<in> set d. fst p \<noteq> k}"
  by (induction d) auto

lemma dict_eq_map: "dict_ok d \<Longrightarrow> map (\<lambda>k. (k, dget_or d k w)) (dkeys d) = d"
proof (induction d)
  case (Cons p d)
  have "map (\<lambda>k. (k, dget_or (p # d) k w)) (dkeys d) = map (\<lambda>k. (k, dget_or d k w)) (dkeys d)"
    using Cons.prems by (cases p) (auto simp: dget_or_Cons)
  with Cons show ?case by (cases p) (auto simp: dget_or_Cons)
qed simp

lemma map_of_map_vals: "dget (map (\<lambda>(k, v). (k, f v)) d) k = map_option f (dget d k)"
  by (induction d) auto

text \<open>The sum of a dictionary's values, and how an update moves it.\<close>

definition dsum :: "('k, 'v::comm_monoid_add) dict \<Rightarrow> 'v" where
  "dsum d = sum_list (map snd d)"

lemma dsum_simps [simp]: "dsum [] = 0" "dsum (p # d) = snd p + dsum d"
  by (simp_all add: dsum_def)

lemma dsum_dset:
  fixes d :: "('k, 'v::ab_group_add) dict"
  shows "dict_ok d \<Longrightarrow> dsum (dset k v d) = dsum d - dget_or d k 0 + v"
proof (induction d)
  case (Cons p d)
  have "k \<notin> set (dkeys d)" if "fst p = k" using Cons.prems that by auto
  with Cons show ?case
    by (cases p) (auto simp: dget_or_Cons algebra_simps dest: dget_or_notin)
qed simp

corollary dsum_dset_add:
  fixes d :: "('k, 'v::ab_group_add) dict"
  assumes "dict_ok d"
  shows "dsum (dset k (dget_or d k 0 + v) d) = dsum d + v"
  using assms by (simp add: dsum_dset)

section \<open>The contract of a dictionary\<close>

text \<open>
  The laws the components rely on when they keep state in a dictionary: what a lookup returns
  after a store and after a removal. The association lists above satisfy them.
\<close>

locale store =
  fixes get :: "'d \<Rightarrow> 'k \<Rightarrow> 'v option"
    and put :: "'k \<Rightarrow> 'v \<Rightarrow> 'd \<Rightarrow> 'd"
    and drop_key :: "'k \<Rightarrow> 'd \<Rightarrow> 'd"
    and ok :: "'d \<Rightarrow> bool"
  assumes get_put: "get (put k v d) k' = (if k' = k then Some v else get d k')"
    and get_drop: "get (drop_key k d) k' = (if k' = k then None else get d k')"
    and ok_put: "ok d \<Longrightarrow> ok (put k v d)"
    and ok_drop: "ok d \<Longrightarrow> ok (drop_key k d)"
begin

lemma get_foldr_put:
  "get (foldr (\<lambda>(k, v). put k v) kvs d) k = (case map_of kvs k of None \<Rightarrow> get d k | Some v \<Rightarrow> Some v)"
  by (induction kvs) (auto simp: get_put)

lemma ok_foldr_put: "ok d \<Longrightarrow> ok (foldr (\<lambda>(k, v). put k v) kvs d)"
  by (induction kvs) (auto intro: ok_put)

lemma put_overwrites: "get (put k v (put k w d)) = get (put k v d)"
  by (rule ext) (simp add: get_put)

end

interpretation al: store "map_of" "AList.update" "AList.delete" "\<lambda>d. distinct (map fst d)"
  by unfold_locales (auto simp: update_conv' delete_conv' distinct_update distinct_delete)

section \<open>Reachable states\<close>

text \<open>
  The frame every state machine of the development uses: a start predicate and a step relation.
  An invariant that holds at the start and is kept by every step holds in every reachable state.
\<close>

inductive reach :: "('s \<Rightarrow> bool) \<Rightarrow> ('s \<Rightarrow> 's \<Rightarrow> bool) \<Rightarrow> 's \<Rightarrow> bool" for init step where
  reach_init: "init s \<Longrightarrow> reach init step s"
| reach_step: "reach init step s \<Longrightarrow> step s t \<Longrightarrow> reach init step t"

locale step_invariant =
  fixes init :: "'s \<Rightarrow> bool" and step :: "'s \<Rightarrow> 's \<Rightarrow> bool" and inv :: "'s \<Rightarrow> bool"
  assumes inv_init: "init s \<Longrightarrow> inv s"
    and inv_step: "inv s \<Longrightarrow> step s t \<Longrightarrow> inv t"
begin

lemma inv_reach: "reach init step s \<Longrightarrow> inv s"
  by (induction rule: reach.induct) (auto intro: inv_init inv_step)

lemma inv_steps: "step\<^sup>*\<^sup>* s t \<Longrightarrow> inv s \<Longrightarrow> inv t"
  by (induction rule: rtranclp_induct) (auto intro: inv_step)

end

section \<open>Decimal numerals\<close>

text \<open>
  The decimal text of a non-negative integer (\<^verbatim>\<open>str(n)\<close>, a JSON object key) and its reading
  (\<^verbatim>\<open>int(s)\<close> on a string of ASCII digits).
\<close>

definition digit_char :: "nat \<Rightarrow> char" where
  "digit_char n = char_of (n + 48)"

definition is_digit_char :: "char \<Rightarrow> bool" where
  "is_digit_char c = ((48::nat) \<le> of_char c \<and> of_char c \<le> (57::nat))"

definition char_digit :: "char \<Rightarrow> nat" where
  "char_digit c = of_char c - 48"

fun decimal :: "nat \<Rightarrow> string" where
  "decimal n = (if n < 10 then [digit_char n] else decimal (n div 10) @ [digit_char (n mod 10)])"

declare decimal.simps [simp del]

definition read_decimal :: "string \<Rightarrow> nat" where
  "read_decimal s = foldl (\<lambda>a c. 10 * a + char_digit c) 0 s"

lemma of_char_digit_char: "n < 10 \<Longrightarrow> of_char (digit_char n) = n + 48"
  by (simp add: digit_char_def of_char_of)

lemma char_digit_digit_char [simp]: "n < 10 \<Longrightarrow> char_digit (digit_char n) = n"
  by (simp add: char_digit_def of_char_digit_char)

lemma is_digit_digit_char [simp]: "n < 10 \<Longrightarrow> is_digit_char (digit_char n)"
  by (simp add: is_digit_char_def of_char_digit_char)

lemma read_decimal_decimal [simp]: "read_decimal (decimal n) = n"
proof (induction n rule: decimal.induct)
  case (1 n)
  show ?case
  proof (cases "n < 10")
    case True
    then show ?thesis by (simp add: decimal.simps [of n] read_decimal_def)
  next
    case False
    then have "read_decimal (decimal n) = 10 * read_decimal (decimal (n div 10)) + n mod 10"
      by (simp add: decimal.simps [of n] read_decimal_def)
    with "1.IH" [OF False] show ?thesis by simp
  qed
qed

lemma decimal_digits: "list_all is_digit_char (decimal n)"
proof (induction n rule: decimal.induct)
  case (1 n)
  then show ?case by (cases "n < 10") (simp_all add: decimal.simps [of n])
qed

lemma decimal_nonempty: "decimal n \<noteq> []"
  by (simp add: decimal.simps [of n])

lemma decimal_inj [simp]: "decimal m = decimal n \<longleftrightarrow> m = n"
  using read_decimal_decimal by metis

lemma hd_decimal: "0 < n \<Longrightarrow> hd (decimal n) \<noteq> digit_char 0"
proof (induction n rule: decimal.induct)
  case (1 n)
  show ?case
  proof (cases "n < 10")
    case True
    then have "of_char (digit_char n) \<noteq> (of_char (digit_char 0) :: nat)"
      using "1.prems" by (simp add: of_char_digit_char)
    with True show ?thesis by (auto simp: decimal.simps [of n])
  next
    case False
    then have "0 < n div 10" by simp
    with "1.IH" [OF False this] False show ?thesis
      by (simp add: decimal.simps [of n] decimal_nonempty)
  qed
qed

section \<open>Lists\<close>

text \<open>\<^verbatim>\<open>min(xs, key=f)\<close>: the first element of least key; \<open>None\<close> where Python raises on an empty list.\<close>

fun min_key :: "('a \<Rightarrow> 'k::linorder) \<Rightarrow> 'a list \<Rightarrow> 'a option" where
  "min_key f [] = None"
| "min_key f (x # xs) = (case min_key f xs of None \<Rightarrow> Some x | Some y \<Rightarrow> Some (if f y < f x then y else x))"

lemma min_key_None_iff [simp]: "min_key f xs = None \<longleftrightarrow> xs = []"
  by (cases xs) (auto split: option.splits)

lemma min_key_mem: "min_key f xs = Some x \<Longrightarrow> x \<in> set xs"
  by (induction xs arbitrary: x) (auto split: option.splits if_splits)

lemma min_key_le: "min_key f xs = Some x \<Longrightarrow> y \<in> set xs \<Longrightarrow> f x \<le> f y"
proof (induction xs arbitrary: x)
  case (Cons z xs)
  show ?case
  proof (cases "min_key f xs")
    case None
    with Cons.prems show ?thesis by auto
  next
    case (Some w)
    with Cons have "y \<in> set xs \<Longrightarrow> f w \<le> f y" by auto
    with Cons.prems Some show ?thesis by (auto split: if_splits)
  qed
qed simp

lemma min_key_perm:
  assumes "mset xs = mset ys" and "inj_on f (set xs)"
  shows "min_key f xs = min_key f ys"
proof (cases "min_key f xs")
  case None
  with assms show ?thesis by auto
next
  case (Some x)
  then have "ys \<noteq> []" using assms by auto
  then obtain y where y: "min_key f ys = Some y" by (cases "min_key f ys") auto
  have same: "set xs = set ys" using assms(1) by (rule mset_eq_setD)
  have "f x = f y"
    using min_key_le [OF Some, of y] min_key_le [OF y, of x] min_key_mem [OF Some] min_key_mem [OF y] same
    by (simp add: order_antisym)
  then have "x = y"
    using assms(2) min_key_mem [OF Some] min_key_mem [OF y] same by (auto dest: inj_onD)
  with Some y show ?thesis by simp
qed

lemma sum_list_map_add: "sum_list (map (\<lambda>x. f x + (g x :: 'a::comm_monoid_add)) xs) = sum_list (map f xs) + sum_list (map g xs)"
  by (induction xs) (auto simp: algebra_simps)

lemma sum_list_const_rat: "sum_list (map (\<lambda>_. c) xs) = of_nat (length xs) * (c::rat)"
  by (induction xs) (auto simp: algebra_simps)

lemma sum_list_nonneg_rat: "(\<And>x. x \<in> set xs \<Longrightarrow> 0 \<le> (x::rat)) \<Longrightarrow> 0 \<le> sum_list xs"
  by (rule sum_list_nonneg)

lemma sum_list_dict:
  fixes f :: "'v \<Rightarrow> 'n::comm_monoid_add"
  assumes "dict_ok d" and "set (dkeys d) \<subseteq> S" and "finite S" and "f v = 0"
  shows "sum_list (map (\<lambda>(k, x). f x) d) = (\<Sum>k \<in> S. f (dget_or d k v))"
proof -
  have "sum_list (map (\<lambda>(k, x). f x) d) = sum_list (map (\<lambda>k. f (dget_or d k v)) (dkeys d))"
    unfolding map_map comp_def
    by (intro arg_cong [where f = sum_list] map_cong refl) (auto simp: dget_or_mem [OF assms(1)])
  also have "\<dots> = (\<Sum>k \<in> set (dkeys d). f (dget_or d k v))" by (rule sum_list_distinct_conv_sum_set [OF assms(1)])
  also have "\<dots> = (\<Sum>k \<in> S. f (dget_or d k v))"
    using assms(2-4) by (intro sum.mono_neutral_left) (auto simp: dget_or_notin)
  finally show ?thesis .
qed

lemma dset_fresh: "k \<notin> set (dkeys d) \<Longrightarrow> dset k v d = d @ [(k, v)]"
  by (induction d) auto

lemma dget_filter:
  assumes "dict_ok d"
  shows "dget (filter (\<lambda>(k, v). P k v) d) k =
    (case dget d k of Some v \<Rightarrow> if P k v then Some v else None | None \<Rightarrow> None)"
  using assms
proof (induction d)
  case (Cons a d)
  then have "dget d (fst a) = None" by (simp add: map_of_eq_None_iff)
  with Cons show ?case by (cases a) auto
qed simp

end
