(* ===== verification/Python_Values.thy ===== *)
theory Python_Values
  imports Reliquary_Prelude
begin

text \<open>
  What the sources use of Python's strings, bytes and integers: the text of an integer and its reading,
  UTF-8 encoding, big-endian bytes, trimming, lower case and splitting.
\<close>

section \<open>Text of integers\<close>

text \<open>\<^verbatim>\<open>str(i)\<close>.\<close>

definition int_str :: "int \<Rightarrow> string" where
  "int_str i = (if i < 0 then CHR ''-'' # decimal (nat (- i)) else decimal (nat i))"

text \<open>\<^verbatim>\<open>str.strip\<close> and \<^verbatim>\<open>str.lower\<close> on the characters a string of the model has.\<close>

definition space_char :: "char \<Rightarrow> bool" where
  "space_char c \<longleftrightarrow>
     (let n = of_char c :: nat in (9 \<le> n \<and> n \<le> 13) \<or> (28 \<le> n \<and> n \<le> 32) \<or> n = 133 \<or> n = 160)"

definition strip :: "string \<Rightarrow> string" where
  "strip s = rev (dropWhile space_char (rev (dropWhile space_char s)))"

definition lower_char :: "char \<Rightarrow> char" where
  "lower_char c =
     (let n = of_char c :: nat
      in if (65 \<le> n \<and> n \<le> 90) \<or> (192 \<le> n \<and> n \<le> 222 \<and> n \<noteq> 215) then char_of (n + 32) else c)"

text \<open>
  \<^verbatim>\<open>int(v)\<close>: \<open>None\<close> where it raises \<^verbatim>\<open>TypeError\<close> or \<^verbatim>\<open>ValueError\<close>. A string may carry spaces around
  it, a sign, and single underscores between digits.
\<close>

fun digits_us :: "string \<Rightarrow> bool" where
  "digits_us [] = False"
| "digits_us [c] = is_digit_char c"
| "digits_us (c # d # s) = (is_digit_char c \<and> (if d = CHR ''_'' then digits_us s else digits_us (d # s)))"

definition py_int_str :: "string \<Rightarrow> int option" where
  "py_int_str s =
     (let t = strip s;
          neg = (t \<noteq> [] \<and> hd t = CHR ''-'');
          body = (if t \<noteq> [] \<and> (hd t = CHR ''-'' \<or> hd t = CHR ''+'') then tl t else t)
      in if digits_us body
         then Some ((if neg then - 1 else 1) * int (read_decimal (filter (\<lambda>c. c \<noteq> CHR ''_'') body)))
         else None)"

definition py_int :: "pyval \<Rightarrow> int option" where
  "py_int v =
     (case v of
        PBool b \<Rightarrow> Some (if b then 1 else 0)
      | PInt i \<Rightarrow> Some i
      | PFloat r \<Rightarrow> Some (if r < 0 then - \<lfloor>- r\<rfloor> else \<lfloor>r\<rfloor>)
      | PStr s \<Rightarrow> py_int_str s
      | _ \<Rightarrow> None)"

text \<open>The same with the exception it raises.\<close>

definition py_int_res :: "pyval \<Rightarrow> int res" where
  "py_int_res v =
     (case py_int v of
        Some i \<Rightarrow> Inr i
      | None \<Rightarrow> (case v of
                   PStr s \<Rightarrow> Inl (ValueError ''invalid literal for int() with base 10'')
                 | _ \<Rightarrow> Inl (TypeError ''int() argument must be a string, a bytes-like object or a real number'')))"

lemma py_int_res_PInt [simp]: "py_int_res (PInt i) = Inr i"
  by (simp add: py_int_res_def py_int_def)

text \<open>\<^verbatim>\<open>int(x)\<close> of a float: towards zero.\<close>

definition py_trunc :: "rat \<Rightarrow> int" where
  "py_trunc r = (if r < 0 then - \<lfloor>- r\<rfloor> else \<lfloor>r\<rfloor>)"

text \<open>
  \<^verbatim>\<open>float(v)\<close>: an optional sign, digits with an optional point and an optional exponent. The texts of the
  infinities and of NaN, which no rational stands for, are refused like any other text.
\<close>

definition digits_value :: "string \<Rightarrow> nat" where
  "digits_value s = read_decimal (filter (\<lambda>c. c \<noteq> CHR ''_'') s)"

definition signed :: "string \<Rightarrow> rat \<times> string" where
  "signed s =
     (if s \<noteq> [] \<and> hd s = CHR ''-'' then (- 1, tl s) else if s \<noteq> [] \<and> hd s = CHR ''+'' then (1, tl s) else (1, s))"

definition mantissa :: "string \<Rightarrow> rat option" where
  "mantissa s =
     (let whole = takeWhile (\<lambda>c. c \<noteq> CHR ''.'') s; frac = tl (dropWhile (\<lambda>c. c \<noteq> CHR ''.'') s)
      in if (whole = [] \<or> digits_us whole) \<and> (frac = [] \<or> digits_us frac) \<and> (whole \<noteq> [] \<or> frac \<noteq> [])
         then Some (of_nat (digits_value whole)
                    + of_nat (digits_value frac) / 10 ^ length (filter (\<lambda>c. c \<noteq> CHR ''_'') frac))
         else None)"

definition exponent :: "string \<Rightarrow> rat option" where
  "exponent s =
     (if s = [] then Some 1
      else let (sgn, digits) = signed (tl s)
           in if digits_us digits
              then Some (if sgn < 0 then 1 / 10 ^ digits_value digits else 10 ^ digits_value digits)
              else None)"

definition py_float_str :: "string \<Rightarrow> rat option" where
  "py_float_str s =
     (let (sgn, body) = signed (map lower_char (strip s))
      in case (mantissa (takeWhile (\<lambda>c. c \<noteq> CHR ''e'') body), exponent (dropWhile (\<lambda>c. c \<noteq> CHR ''e'') body)) of
           (Some m, Some e) \<Rightarrow> Some (sgn * m * e)
         | _ \<Rightarrow> None)"

definition py_float :: "pyval \<Rightarrow> rat res" where
  "py_float v =
     (case v of
        PBool b \<Rightarrow> Inr (if b then 1 else 0)
      | PInt i \<Rightarrow> Inr (of_int i)
      | PFloat r \<Rightarrow> Inr r
      | PStr s \<Rightarrow> (case py_float_str s of
                    Some r \<Rightarrow> Inr r
                  | None \<Rightarrow> Inl (ValueError ''could not convert string to float''))
      | _ \<Rightarrow> Inl (TypeError ''float() argument must be a string or a real number''))"

lemma py_float_simps [simp]: "py_float (PFloat r) = Inr r" "py_float (PInt i) = Inr (of_int i)"
  by (simp_all add: py_float_def)

text \<open>\<^verbatim>\<open>d.get(name)\<close> of a dictionary with string keys.\<close>

definition pget :: "(pyval \<times> pyval) list \<Rightarrow> string \<Rightarrow> pyval" where
  "pget d name = (case dget d (PStr name) of None \<Rightarrow> PNone | Some v \<Rightarrow> v)"

section \<open>Bytes\<close>

type_synonym bytes = "nat list"

text \<open>\<^verbatim>\<open>str.encode()\<close> (UTF-8) and \<^verbatim>\<open>int.to_bytes(8, "big", signed=False)\<close>, which raises out of range.\<close>

definition utf8_char :: "char \<Rightarrow> bytes" where
  "utf8_char c = (let n = of_char c in if n < 128 then [n] else [192 + n div 64, 128 + n mod 64])"

definition encode :: "string \<Rightarrow> bytes" where
  "encode s = concat (map utf8_char s)"

fun be_bytes :: "nat \<Rightarrow> nat \<Rightarrow> bytes" where
  "be_bytes 0 n = []"
| "be_bytes (Suc k) n = be_bytes k (n div 256) @ [n mod 256]"

definition u64_ok :: "int \<Rightarrow> bool" where
  "u64_ok i \<longleftrightarrow> 0 \<le> i \<and> i < 2 ^ 64"

definition u64_bytes :: "int \<Rightarrow> bytes" where
  "u64_bytes i = be_bytes 8 (nat i)"

text \<open>\<^verbatim>\<open>int.from_bytes(b, "big")\<close>.\<close>

definition from_bytes :: "bytes \<Rightarrow> nat" where
  "from_bytes bs = foldl (\<lambda>a b. 256 * a + b) 0 bs"

lemma length_be_bytes [simp]: "length (be_bytes k n) = k"
  by (induction k arbitrary: n) auto

lemma from_bytes_snoc: "from_bytes (bs @ [b]) = 256 * from_bytes bs + b"
  by (simp add: from_bytes_def)

lemma from_be_bytes: "from_bytes (be_bytes k n) = n mod 256 ^ k"
proof (induction k arbitrary: n)
  case (Suc k)
  have "n mod 256 ^ Suc k = 256 * (n div 256 mod 256 ^ k) + n mod 256"
    by (simp add: mod_mult2_eq algebra_simps)
  with Suc show ?case by (simp add: from_bytes_snoc)
qed (simp add: from_bytes_def)

text \<open>\<^verbatim>\<open>s.split(c, n)\<close>: at most \<open>n\<close> cuts, the rest kept whole.\<close>

fun split_max :: "char \<Rightarrow> nat \<Rightarrow> string \<Rightarrow> string list" where
  "split_max c 0 s = [s]"
| "split_max c (Suc n) s =
     (case dropWhile (\<lambda>x. x \<noteq> c) s of
        [] \<Rightarrow> [s]
      | _ # rest \<Rightarrow> takeWhile (\<lambda>x. x \<noteq> c) s # split_max c n rest)"

lemma split_max_none: "c \<notin> set s \<Longrightarrow> split_max c n s = [s]"
proof -
  assume "c \<notin> set s"
  then have drop: "dropWhile (\<lambda>x. x \<noteq> c) s = []" by auto
  show ?thesis by (cases n) (simp_all add: drop del: dropWhile_eq_Nil_conv)
qed

lemma split_max_sep: "c \<notin> set s \<Longrightarrow> split_max c (Suc n) (s @ c # t) = s # split_max c n t"
proof -
  assume "c \<notin> set s"
  then have "dropWhile (\<lambda>x. x \<noteq> c) (s @ c # t) = c # t" "takeWhile (\<lambda>x. x \<noteq> c) (s @ c # t) = s"
    by (induction s) auto
  then show ?thesis by simp
qed

lemma split_max_nonempty: "split_max c n s \<noteq> []"
  by (cases n) (auto split: list.splits)

lemma int_str_no_at: "c = CHR ''@'' \<Longrightarrow> c \<notin> set (int_str i)"
proof -
  have "CHR ''@'' \<notin> set (decimal n)" for n
    using decimal_digits [of n] by (auto simp: list_all_iff is_digit_char_def)
  then show "c = CHR ''@'' \<Longrightarrow> c \<notin> set (int_str i)" by (simp add: int_str_def)
qed

text \<open>Reading the text of an integer gives the integer back.\<close>

lemma digits_us_all: "s \<noteq> [] \<Longrightarrow> list_all is_digit_char s \<Longrightarrow> digits_us s"
  by (induction s rule: digits_us.induct) (auto simp: is_digit_char_def)

lemma strip_id:
  assumes "s \<noteq> []" and "\<not> space_char (hd s)" and "\<not> space_char (last s)"
  shows "strip s = s"
proof -
  have "dropWhile space_char s = s" using assms(1,2) by (cases s) auto
  moreover have "dropWhile space_char (rev s) = rev s"
    using assms(1,3) by (cases s rule: rev_cases) auto
  ultimately show ?thesis by (simp add: strip_def)
qed

lemma digit_not_space: "is_digit_char c \<Longrightarrow> \<not> space_char c"
  by (auto simp: is_digit_char_def space_char_def Let_def)

lemma decimal_chars:
  "c \<in> set (decimal n) \<Longrightarrow> is_digit_char c \<and> c \<noteq> CHR ''_'' \<and> c \<noteq> CHR ''-'' \<and> c \<noteq> CHR ''+'' \<and> \<not> space_char c"
proof -
  assume "c \<in> set (decimal n)"
  then have "is_digit_char c" using decimal_digits by (auto simp: list_all_iff)
  then show ?thesis using digit_not_space by (auto simp: is_digit_char_def)
qed

lemma py_int_int_str [simp]: "py_int_str (int_str i) = Some i"
proof -
  have d: "decimal n \<noteq> []" "hd (decimal n) \<in> set (decimal n)" "last (decimal n) \<in> set (decimal n)" for n
    using decimal_nonempty by auto
  have keep: "filter (\<lambda>c. c \<noteq> CHR ''_'') (decimal n) = decimal n" for n
    using decimal_chars by (auto simp: filter_id_conv)
  have us: "digits_us (decimal n)" for n using digits_us_all d(1) decimal_digits by blast
  have ends: "\<not> space_char (hd (decimal n))" "\<not> space_char (last (decimal n))" "\<not> space_char CHR ''-''" for n
    using decimal_chars [OF d(2)] decimal_chars [OF d(3)] by (auto simp: space_char_def)
  have "strip (int_str i) = int_str i"
    using d(1) ends by (intro strip_id) (auto simp: int_str_def)
  then show ?thesis
    using decimal_chars [OF d(2) [of "nat i"]] d(1) by (auto simp: py_int_str_def Let_def int_str_def keep us)
qed

lemma int_str_inj [simp]: "int_str i = int_str j \<longleftrightarrow> i = j"
  by (metis option.inject py_int_int_str)

end
