(* ===== verification/Cooldown.thy ===== *)
theory Cooldown
  imports Python_Values
begin

text \<open>
  The prompt cooldown of \<^verbatim>\<open>reliquary/validator/cooldown.py\<close>: the last rewarded window of each
  prompt (\<^verbatim>\<open>CooldownMap\<close>) and of each content digest (\<^verbatim>\<open>ContentCooldownMap\<close>), the eligibility
  predicate, the JSON snapshot, and the rebuild from archived windows. The locale
  \<open>cooldown_clock\<close> is the contract both classes satisfy; the batch selection relies on it.
\<close>

section \<open>Parsing of durable state\<close>

definition nonnegative_int :: "pyval \<Rightarrow> string \<Rightarrow> int res" where
  "nonnegative_int v field =
     (case v of
        PInt i \<Rightarrow> if i < 0 then Inl (ValueError (field @ '' must be a non-negative integer'')) else Inr i
      | _ \<Rightarrow> Inl (ValueError (field @ '' must be a non-negative integer'')))"

text \<open>The regular expressions \<^verbatim>\<open>(0|[1-9][0-9]*)\<close> and \<^verbatim>\<open>[0-9a-f]{64}\<close>, matched in full.\<close>

definition prompt_index_re :: "string \<Rightarrow> bool" where
  "prompt_index_re s \<longleftrightarrow>
     s = ''0'' \<or> (s \<noteq> [] \<and> hd s \<noteq> CHR ''0'' \<and> list_all is_digit_char s)"

definition hex_char :: "char \<Rightarrow> bool" where
  "hex_char c \<longleftrightarrow> is_digit_char c \<or> ((97::nat) \<le> of_char c \<and> of_char c \<le> (102::nat))"

definition sha256_hex_re :: "string \<Rightarrow> bool" where
  "sha256_hex_re s \<longleftrightarrow> length s = 64 \<and> list_all hex_char s"

definition prompt_index :: "pyval \<Rightarrow> int res" where
  "prompt_index v =
     (case v of
        PInt i \<Rightarrow> nonnegative_int (PInt i) ''prompt index''
      | PStr s \<Rightarrow>
          if prompt_index_re s then Inr (int (read_decimal s))
          else Inl (ValueError ''prompt index key must be canonical decimal'')
      | _ \<Rightarrow> Inl (ValueError ''prompt index key must be canonical decimal''))"

definition parse_prompt_item :: "pyval \<times> pyval \<Rightarrow> (int, int) dict \<Rightarrow> (int, int) dict res" where
  "parse_prompt_item item restored =
     bind_res (prompt_index (fst item)) (\<lambda>idx.
       if idx \<in> set (dkeys restored)
       then Inl (ValueError ''cooldown snapshot contains duplicate prompt keys'')
       else bind_res (nonnegative_int (snd item) ''selected window'') (\<lambda>w. Inr (dset idx w restored)))"

definition parse_prompt_cooldown_state :: "pyval \<Rightarrow> (int, int) dict res" where
  "parse_prompt_cooldown_state state =
     (case state of
        PDict items \<Rightarrow> fold_res parse_prompt_item items []
      | _ \<Rightarrow> Inl (ValueError ''cooldown snapshot state must be an object''))"

definition parse_content_item :: "pyval \<times> pyval \<Rightarrow> (string, int) dict \<Rightarrow> (string, int) dict res" where
  "parse_content_item item restored =
     (case fst item of
        PStr digest \<Rightarrow>
          if sha256_hex_re digest
          then bind_res (nonnegative_int (snd item) ''selected window'') (\<lambda>w. Inr (dset digest w restored))
          else Inl (ValueError ''content digest must be 64 lowercase hex characters'')
      | _ \<Rightarrow> Inl (ValueError ''content digest must be 64 lowercase hex characters''))"

definition parse_content_cooldown_state :: "pyval \<Rightarrow> (string, int) dict res" where
  "parse_content_cooldown_state state =
     (case state of
        PDict items \<Rightarrow> fold_res parse_content_item items []
      | _ \<Rightarrow> Inl (ValueError ''content cooldown snapshot state must be an object''))"

section \<open>CooldownMap\<close>

record cooldown_map =
  cm_windows :: int
  cm_last_batched :: "(int, int) dict"

definition CooldownMap :: "int \<Rightarrow> cooldown_map res" where
  "CooldownMap cooldown_windows =
     (if cooldown_windows < 0 then Inl (ValueError ''cooldown_windows must be non-negative'')
      else Inr \<lparr>cm_windows = cooldown_windows, cm_last_batched = []\<rparr>)"

definition record_batched :: "cooldown_map \<Rightarrow> int \<Rightarrow> int \<Rightarrow> cooldown_map res" where
  "record_batched m prompt_idx window =
     (if prompt_idx < 0 then Inl (ValueError ''prompt_idx must be non-negative'')
      else if window < 0 then Inl (ValueError ''window must be non-negative'')
      else Inr (m\<lparr>cm_last_batched := dset prompt_idx window (cm_last_batched m)\<rparr>))"

definition is_in_cooldown :: "cooldown_map \<Rightarrow> int \<Rightarrow> int \<Rightarrow> bool" where
  "is_in_cooldown m prompt_idx current_window =
     (if cm_windows m = 0 then False
      else case dget (cm_last_batched m) prompt_idx of
             None \<Rightarrow> False
           | Some last_w \<Rightarrow> current_window - last_w < cm_windows m)"

definition current_cooldown_set :: "cooldown_map \<Rightarrow> int \<Rightarrow> int set" where
  "current_cooldown_set m current_window =
     (if cm_windows m = 0 then {}
      else set (map fst (filter (\<lambda>(idx, last_w). current_window - last_w < cm_windows m) (cm_last_batched m))))"

definition cooldown_len :: "cooldown_map \<Rightarrow> nat" where
  "cooldown_len m = length (cm_last_batched m)"

definition with_cooldown_windows :: "cooldown_map \<Rightarrow> pyval \<Rightarrow> cooldown_map res" where
  "with_cooldown_windows m cooldown_windows =
     bind_res (nonnegative_int cooldown_windows ''cooldown_windows'') (\<lambda>w.
     bind_res (CooldownMap w) (\<lambda>changed. Inr (changed\<lparr>cm_last_batched := cm_last_batched m\<rparr>)))"

definition export_state :: "cooldown_map \<Rightarrow> int option \<Rightarrow> (int, int) dict" where
  "export_state m through_window =
     (case through_window of
        None \<Rightarrow> cm_last_batched m
      | Some t \<Rightarrow> filter (\<lambda>(idx, w). w \<le> t) (cm_last_batched m))"

definition import_state :: "cooldown_map \<Rightarrow> pyval \<Rightarrow> cooldown_map res" where
  "import_state m last_batched =
     bind_res (parse_prompt_cooldown_state last_batched)
       (\<lambda>restored. Inr (m\<lparr>cm_last_batched := restored\<rparr>))"

text \<open>
  The saved file is the JSON document it holds: \<^verbatim>\<open>json.dump\<close> writes an integer key as its decimal
  text, so \<^verbatim>\<open>json.load\<close> gives string keys back. \<open>None\<close> stands for a file that does not exist.
\<close>

definition save :: "cooldown_map \<Rightarrow> pyval" where
  "save m =
     PDict [(PStr ''cooldown_windows'', PInt (cm_windows m)),
            (PStr ''last_batched'',
             PDict (map (\<lambda>(idx, w). (PStr (int_str idx), PInt w)) (export_state m None)))]"

definition load :: "cooldown_map \<Rightarrow> pyval option \<Rightarrow> cooldown_map res" where
  "load m file =
     (case file of
        None \<Rightarrow> Inr m
      | Some (PDict data) \<Rightarrow>
          (case dget data (PStr ''last_batched'') of
             None \<Rightarrow> Inl KeyError
           | Some v \<Rightarrow> import_state m v)
      | Some _ \<Rightarrow> Inl (TypeError ''document is not an object''))"

subsection \<open>Rebuild from archived windows\<close>

text \<open>
  An archived window and its entries; a field is what \<^verbatim>\<open>.get\<close> returns, \<open>PNone\<close> where it is missing.
\<close>

record arch_entry =
  ae_prompt_idx :: pyval
  ae_rewarded :: pyval

record arch_window =
  aw_window_start :: pyval
  aw_batch :: "arch_entry list"
  aw_runners_up :: "arch_entry list"

definition rewarded_entries :: "arch_window \<Rightarrow> arch_entry list" where
  "rewarded_entries rec = aw_batch rec @ filter (\<lambda>e. truthy (ae_rewarded e)) (aw_runners_up rec)"

definition keep_latest :: "int \<Rightarrow> int \<Rightarrow> (int, int) dict \<Rightarrow> (int, int) dict" where
  "keep_latest idx w d = (if dget_or d idx (- 1) < w then dset idx w d else d)"

definition history_entry :: "int \<Rightarrow> arch_entry \<Rightarrow> (int, int) dict \<Rightarrow> (int, int) dict res" where
  "history_entry w entry updates =
     bind_res (nonnegative_int (ae_prompt_idx entry) ''archive prompt index'')
       (\<lambda>idx. Inr (keep_latest idx w updates))"

definition history_window :: "int \<Rightarrow> arch_window \<Rightarrow> (int, int) dict \<Rightarrow> (int, int) dict res" where
  "history_window horizon rec updates =
     bind_res (nonnegative_int (aw_window_start rec) ''archive window'') (\<lambda>w.
       if w \<le> horizon then Inr updates
       else fold_res (history_entry w) (rewarded_entries rec) updates)"

definition apply_history :: "cooldown_map \<Rightarrow> arch_window list \<Rightarrow> int \<Rightarrow> cooldown_map res" where
  "apply_history m archived_windows current_window =
     bind_res (fold_res (history_window (current_window - cm_windows m)) archived_windows [])
       (\<lambda>updates. Inr (m\<lparr>cm_last_batched :=
          fold (\<lambda>(idx, w). keep_latest idx w) updates (cm_last_batched m)\<rparr>))"

text \<open>
  The rebuild clears the map before it reads the archives, so an error leaves the cleared map:
  the state is returned beside the error.
\<close>

definition rebuild_from_history ::
  "cooldown_map \<Rightarrow> arch_window list \<Rightarrow> int \<Rightarrow> cooldown_map \<times> py_error option" where
  "rebuild_from_history m archived_windows current_window =
     (let cleared = m\<lparr>cm_last_batched := []\<rparr>
      in case apply_history cleared archived_windows current_window of
           Inl e \<Rightarrow> (cleared, Some e)
         | Inr m' \<Rightarrow> (m', None))"

section \<open>ContentCooldownMap\<close>

record content_cooldown_map =
  ccm_windows :: int
  ccm_last_selected :: "(string, int) dict"

definition ContentCooldownMap :: "int \<Rightarrow> content_cooldown_map res" where
  "ContentCooldownMap cooldown_windows =
     (if cooldown_windows < 0 then Inl (ValueError ''cooldown_windows must be non-negative'')
      else Inr \<lparr>ccm_windows = cooldown_windows, ccm_last_selected = []\<rparr>)"

definition digest_of :: "string \<Rightarrow> string res" where
  "digest_of value =
     (let digest = map lower_char (strip value)
      in if sha256_hex_re digest then Inr digest
         else Inl (ValueError ''content digest must be 64 lowercase hex characters''))"

definition record_selected :: "content_cooldown_map \<Rightarrow> string \<Rightarrow> int \<Rightarrow> content_cooldown_map res" where
  "record_selected m digest window =
     (if window < 0 then Inl (ValueError ''window must be non-negative'')
      else bind_res (digest_of digest)
             (\<lambda>d. Inr (m\<lparr>ccm_last_selected := dset d window (ccm_last_selected m)\<rparr>)))"

definition content_is_in_cooldown :: "content_cooldown_map \<Rightarrow> string \<Rightarrow> int \<Rightarrow> bool res" where
  "content_is_in_cooldown m digest current_window =
     (if ccm_windows m = 0 then Inr False
      else bind_res (digest_of digest) (\<lambda>d.
             Inr (case dget (ccm_last_selected m) d of
                    None \<Rightarrow> False
                  | Some last_w \<Rightarrow> current_window - last_w < ccm_windows m)))"

definition content_cooldown_set :: "content_cooldown_map \<Rightarrow> int \<Rightarrow> string set" where
  "content_cooldown_set m current_window =
     (if ccm_windows m = 0 then {}
      else set (map fst (filter (\<lambda>(d, last_w). current_window - last_w < ccm_windows m) (ccm_last_selected m))))"

definition content_export_state :: "content_cooldown_map \<Rightarrow> int option \<Rightarrow> (string, int) dict" where
  "content_export_state m through_window =
     (case through_window of
        None \<Rightarrow> ccm_last_selected m
      | Some t \<Rightarrow> filter (\<lambda>(d, w). w \<le> t) (ccm_last_selected m))"

definition content_import_state :: "content_cooldown_map \<Rightarrow> pyval \<Rightarrow> content_cooldown_map res" where
  "content_import_state m last_selected =
     bind_res (parse_content_cooldown_state last_selected)
       (\<lambda>restored. Inr (m\<lparr>ccm_last_selected := restored\<rparr>))"

definition content_with_cooldown_windows :: "content_cooldown_map \<Rightarrow> pyval \<Rightarrow> content_cooldown_map res" where
  "content_with_cooldown_windows m cooldown_windows =
     bind_res (nonnegative_int cooldown_windows ''cooldown_windows'') (\<lambda>w.
     bind_res (ContentCooldownMap w) (\<lambda>changed. Inr (changed\<lparr>ccm_last_selected := ccm_last_selected m\<rparr>)))"

section \<open>Invariant\<close>

definition cooldown_ok :: "cooldown_map \<Rightarrow> bool" where
  "cooldown_ok m \<longleftrightarrow>
     0 \<le> cm_windows m \<and> dict_ok (cm_last_batched m)
     \<and> list_all (\<lambda>(idx, w). 0 \<le> idx \<and> 0 \<le> w) (cm_last_batched m)"

lemma nonnegative_int_Inr [simp]: "nonnegative_int v f = Inr i \<longleftrightarrow> v = PInt i \<and> 0 \<le> i"
  by (auto simp: nonnegative_int_def split: pyval.splits)

lemma list_all_dset:
  "list_all (\<lambda>(k, v). P k v) d \<Longrightarrow> P k v \<Longrightarrow> list_all (\<lambda>(k, v). P k v) (dset k v d)"
  by (induction d) auto

lemma keep_latest_ok:
  assumes "dict_ok d" and "list_all (\<lambda>(idx, w). 0 \<le> idx \<and> 0 \<le> w) d" and "0 \<le> idx" and "0 \<le> w"
  shows "dict_ok (keep_latest idx w d) \<and> list_all (\<lambda>(idx, w). 0 \<le> idx \<and> 0 \<le> w) (keep_latest idx w d)"
  using assms list_all_dset [of "\<lambda>idx w. 0 \<le> idx \<and> 0 \<le> w" d idx w]
  by (simp add: keep_latest_def)

lemma prompt_index_nonneg: "prompt_index v = Inr i \<Longrightarrow> 0 \<le> i"
  by (auto simp: prompt_index_def split: pyval.splits if_splits)

lemma parse_prompt_ok:
  assumes "parse_prompt_cooldown_state v = Inr d"
  shows "dict_ok d \<and> list_all (\<lambda>(idx, w). 0 \<le> idx \<and> 0 \<le> w) d"
proof -
  from assms obtain items where "fold_res parse_prompt_item items [] = Inr d"
    by (auto simp: parse_prompt_cooldown_state_def split: pyval.splits)
  then show ?thesis
    by (rule fold_res_invariant [rotated 2])
      (auto simp: parse_prompt_item_def bind_res_Inr_iff split: if_splits
        intro: list_all_dset [of "\<lambda>idx w. 0 \<le> idx \<and> 0 \<le> w"] dest: prompt_index_nonneg)
qed

lemma history_entry_Inr:
  "history_entry w e upd = Inr upd' \<longleftrightarrow>
     (\<exists>idx. ae_prompt_idx e = PInt idx \<and> 0 \<le> idx \<and> upd' = keep_latest idx w upd)"
  by (auto simp: history_entry_def bind_res_Inr_iff)

lemma history_window_Inr:
  "history_window h rec upd = Inr upd' \<longleftrightarrow>
     (\<exists>w. aw_window_start rec = PInt w \<and> 0 \<le> w
        \<and> (if w \<le> h then Inr upd else fold_res (history_entry w) (rewarded_entries rec) upd) = Inr upd')"
  by (auto simp: history_window_def bind_res_Inr_iff)

lemma history_window_keys_ok:
  assumes "fold_res (history_window h) archs upd = Inr upd'"
    and "dict_ok upd \<and> list_all (\<lambda>(idx, w). 0 \<le> idx \<and> 0 \<le> w) upd"
  shows "dict_ok upd' \<and> list_all (\<lambda>(idx, w). 0 \<le> idx \<and> 0 \<le> w) upd'"
  using assms(1)
proof (rule fold_res_invariant [rotated 2])
  fix rec s t
  assume s: "dict_ok s \<and> list_all (\<lambda>(idx, w). 0 \<le> idx \<and> 0 \<le> w) s"
    and "history_window h rec s = Inr t"
  then consider "t = s" | w where "0 \<le> w" "fold_res (history_entry w) (rewarded_entries rec) s = Inr t"
    by (auto simp: history_window_Inr split: if_splits)
  then show "dict_ok t \<and> list_all (\<lambda>(idx, w). 0 \<le> idx \<and> 0 \<le> w) t"
  proof cases
    case (2 w)
    from 2(2) s show ?thesis
      by (elim fold_res_invariant [rotated 2])
        (use 2(1) in \<open>auto simp: history_entry_Inr keep_latest_ok\<close>)
  qed (use s in simp)
qed (use assms(2) in simp)

lemma fold_keep_latest_ok:
  assumes "dict_ok d \<and> list_all (\<lambda>(idx, w). 0 \<le> idx \<and> 0 \<le> w) d"
    and "list_all (\<lambda>(idx, w). 0 \<le> idx \<and> 0 \<le> w) upd"
  shows "dict_ok (fold (\<lambda>(idx, w). keep_latest idx w) upd d)
         \<and> list_all (\<lambda>(idx, w). 0 \<le> idx \<and> 0 \<le> w) (fold (\<lambda>(idx, w). keep_latest idx w) upd d)"
  using assms
proof (induction upd arbitrary: d)
  case (Cons p upd)
  then show ?case using keep_latest_ok [of d "fst p" "snd p"] by (cases p) auto
qed simp

lemma apply_history_ok: "cooldown_ok m \<Longrightarrow> apply_history m archs cur = Inr m' \<Longrightarrow> cooldown_ok m'"
  using history_window_keys_ok [of "cur - cm_windows m" archs "[]"] fold_keep_latest_ok [of "cm_last_batched m"]
  by (auto simp: apply_history_def cooldown_ok_def bind_res_Inr_iff)

lemma record_batched_ok: "cooldown_ok m \<Longrightarrow> record_batched m p w = Inr m' \<Longrightarrow> cooldown_ok m'"
  using list_all_dset [of "\<lambda>idx w. 0 \<le> idx \<and> 0 \<le> w" "cm_last_batched m" p w]
  by (auto simp: record_batched_def cooldown_ok_def split: if_splits)

lemma with_cooldown_windows_ok:
  "cooldown_ok m \<Longrightarrow> with_cooldown_windows m v = Inr m' \<Longrightarrow> cooldown_ok m'"
  by (auto simp: with_cooldown_windows_def CooldownMap_def cooldown_ok_def bind_res_Inr_iff split: if_splits)

lemma import_state_ok: "cooldown_ok m \<Longrightarrow> import_state m v = Inr m' \<Longrightarrow> cooldown_ok m'"
  using parse_prompt_ok by (auto simp: import_state_def cooldown_ok_def bind_res_Inr_iff)

lemma rebuild_ok: "cooldown_ok m \<Longrightarrow> cooldown_ok (fst (rebuild_from_history m archs cur))"
proof -
  assume m: "cooldown_ok m"
  then have c: "cooldown_ok (m\<lparr>cm_last_batched := []\<rparr>)" by (simp add: cooldown_ok_def)
  show ?thesis
    using c by (auto simp: rebuild_from_history_def Let_def split: sum.splits intro: apply_history_ok)
qed

section \<open>The contract of a cooldown\<close>

text \<open>
  Both classes keep, under a normalised key, the window a use was last recorded at, and answer
  \<open>cooling\<close> on the half-open interval from that window. \<open>key\<close> is the normalisation, \<open>None\<close> where the
  class rejects the key.
\<close>

locale cooldown_clock =
  fixes windows :: "'m \<Rightarrow> int"
    and key :: "'k \<Rightarrow> 'q option"
    and last_use :: "'m \<Rightarrow> 'q \<Rightarrow> int option"
    and record_use :: "'m \<Rightarrow> 'k \<Rightarrow> int \<Rightarrow> 'm res"
    and cooling :: "'m \<Rightarrow> 'k \<Rightarrow> int \<Rightarrow> bool res"
  assumes record_use_Inr: "record_use m k w = Inr m' \<Longrightarrow>
      \<exists>q. key k = Some q \<and> 0 \<le> w \<and> windows m' = windows m \<and> last_use m' = (last_use m)(q \<mapsto> w)"
    and record_use_total: "key k = Some q \<Longrightarrow> 0 \<le> w \<Longrightarrow> \<exists>m'. record_use m k w = Inr m'"
    and cooling_iff: "key k = Some q \<Longrightarrow>
      cooling m k c =
        Inr (windows m \<noteq> 0 \<and> (case last_use m q of None \<Rightarrow> False | Some l \<Rightarrow> c - l < windows m))"
begin

lemma half_open:
  assumes "record_use m k w = Inr m'"
  shows "cooling m' k c = Inr (windows m \<noteq> 0 \<and> c < w + windows m)"
proof -
  from record_use_Inr [OF assms] obtain q where
    q: "key k = Some q" "windows m' = windows m" "last_use m' = (last_use m)(q \<mapsto> w)" by blast
  then show ?thesis by (auto simp: cooling_iff [OF q(1)])
qed

lemma other_key:
  assumes "record_use m k w = Inr m'" and "key k' = Some q'" and "key k \<noteq> key k'"
  shows "cooling m' k' c = cooling m k' c"
proof -
  from record_use_Inr [OF assms(1)] obtain q where
    "key k = Some q" "windows m' = windows m" "last_use m' = (last_use m)(q \<mapsto> w)" by blast
  then show ?thesis using assms(2,3) by (simp add: cooling_iff [OF assms(2)] split: option.splits)
qed

lemma stays_eligible:
  assumes "key k = Some q" and "cooling m k c = Inr False" and "c \<le> c'"
  shows "cooling m k c' = Inr False"
  using assms by (auto simp: cooling_iff [OF assms(1)] split: option.splits)

lemma used_then_cooling:
  assumes "record_use m k w = Inr m'" and "0 < windows m"
  shows "cooling m' k w = Inr True \<and> cooling m' k (w + windows m) = Inr False"
  using half_open [OF assms(1)] assms(2) by simp

end

interpretation prompt_clock: cooldown_clock
  cm_windows "\<lambda>p. if p < 0 then None else Some p" "\<lambda>m. map_of (cm_last_batched m)" record_batched
  "\<lambda>m p c. Inr (is_in_cooldown m p c)"
proof unfold_locales
  fix m k w m'
  assume "record_batched m k w = Inr m'"
  then show "\<exists>q. (if k < 0 then None else Some k) = Some q \<and> 0 \<le> w \<and> cm_windows m' = cm_windows m
      \<and> map_of (cm_last_batched m') = (map_of (cm_last_batched m))(q \<mapsto> w)"
    by (auto simp: record_batched_def update_conv' split: if_splits)
qed (auto simp: record_batched_def is_in_cooldown_def split: if_splits option.splits)

definition digest_key :: "string \<Rightarrow> string option" where
  "digest_key s = (case digest_of s of Inl _ \<Rightarrow> None | Inr d \<Rightarrow> Some d)"

interpretation content_clock: cooldown_clock
  ccm_windows digest_key "\<lambda>m. map_of (ccm_last_selected m)" record_selected content_is_in_cooldown
proof unfold_locales
  fix m k w m'
  assume "record_selected m k w = Inr m'"
  then show "\<exists>q. digest_key k = Some q \<and> 0 \<le> w \<and> ccm_windows m' = ccm_windows m
      \<and> map_of (ccm_last_selected m') = (map_of (ccm_last_selected m))(q \<mapsto> w)"
    by (auto simp: record_selected_def digest_key_def update_conv' bind_res_Inr_iff split: if_splits)
qed (auto simp: record_selected_def content_is_in_cooldown_def digest_key_def
      split: if_splits option.splits sum.splits)

lemma digest_of_idem: "digest_of s = Inr d \<Longrightarrow> sha256_hex_re d"
  by (auto simp: digest_of_def Let_def split: if_splits)

lemma cooldown_set_iff:
  assumes "cooldown_ok m"
  shows "idx \<in> current_cooldown_set m c \<longleftrightarrow> is_in_cooldown m idx c"
proof -
  have "dict_ok (cm_last_batched m)" using assms by (simp add: cooldown_ok_def)
  then show ?thesis
    by (auto simp: current_cooldown_set_def is_in_cooldown_def image_iff map_of_eq_None_iff
        split: option.splits dest: map_of_SomeD eq_key_imp_eq_value)
qed

section \<open>Rebuild against live recording\<close>

text \<open>
  What the archives say: prompt \<open>idx\<close> was rewarded in a window later than \<open>t\<close>.
\<close>

definition used_after :: "int \<Rightarrow> arch_window list \<Rightarrow> int \<Rightarrow> bool" where
  "used_after t archs idx \<longleftrightarrow>
     (\<exists>rec \<in> set archs. \<exists>w > t. aw_window_start rec = PInt w
        \<and> PInt idx \<in> ae_prompt_idx ` set (rewarded_entries rec))"

text \<open>The recording the validator did while the windows ran.\<close>

definition live_window :: "arch_window \<Rightarrow> cooldown_map \<Rightarrow> cooldown_map res" where
  "live_window rec m =
     bind_res (nonnegative_int (aw_window_start rec) ''archive window'') (\<lambda>w.
       fold_res (\<lambda>e m. bind_res (nonnegative_int (ae_prompt_idx e) ''archive prompt index'')
                   (\<lambda>idx. record_batched m idx w)) (rewarded_entries rec) m)"

definition window_no :: "arch_window \<Rightarrow> int" where
  "window_no rec = (case aw_window_start rec of PInt w \<Rightarrow> w | _ \<Rightarrow> 0)"

lemma keep_latest_after:
  "- 1 \<le> t \<Longrightarrow> t < dget_or (keep_latest idx w d) i (- 1) \<longleftrightarrow>
     t < dget_or d i (- 1) \<or> (i = idx \<and> t < w)"
  by (auto simp: keep_latest_def)

lemma history_entries_after:
  assumes "fold_res (history_entry w) es upd = Inr upd'" and "- 1 \<le> t"
  shows "t < dget_or upd' i (- 1) \<longleftrightarrow>
     t < dget_or upd i (- 1) \<or> (t < w \<and> PInt i \<in> ae_prompt_idx ` set es)"
  using assms
proof (induction es arbitrary: upd)
  case (Cons e es)
  then obtain idx where "ae_prompt_idx e = PInt idx"
      "fold_res (history_entry w) es (keep_latest idx w upd) = Inr upd'"
    by (auto simp: history_entry_Inr bind_res_Inr_iff)
  with Cons show ?case by (auto simp: keep_latest_after)
qed simp

lemma used_after_Cons:
  "used_after t (rec # archs) i \<longleftrightarrow>
     (\<exists>w > t. aw_window_start rec = PInt w \<and> PInt i \<in> ae_prompt_idx ` set (rewarded_entries rec))
     \<or> used_after t archs i"
  by (auto simp: used_after_def)

lemma history_windows_after:
  assumes "fold_res (history_window h) archs upd = Inr upd'" and "- 1 \<le> t" and "h \<le> t"
  shows "t < dget_or upd' i (- 1) \<longleftrightarrow> t < dget_or upd i (- 1) \<or> used_after t archs i"
  using assms
proof (induction archs arbitrary: upd)
  case Nil
  then show ?case by (simp add: used_after_def)
next
  case (Cons rec archs)
  from Cons.prems(1) obtain w u where w: "aw_window_start rec = PInt w" "0 \<le> w"
    and u: "(if w \<le> h then Inr upd else fold_res (history_entry w) (rewarded_entries rec) upd) = Inr u"
    and rest: "fold_res (history_window h) archs u = Inr upd'"
    by (auto simp: history_window_Inr bind_res_Inr_iff)
  have "t < dget_or u i (- 1) \<longleftrightarrow>
      t < dget_or upd i (- 1) \<or> (t < w \<and> PInt i \<in> ae_prompt_idx ` set (rewarded_entries rec))"
    using u Cons.prems(2,3) history_entries_after [of w "rewarded_entries rec" upd u t i]
    by (auto split: if_splits)
  with Cons.IH [OF rest Cons.prems(2,3)] w show ?case by (auto simp: used_after_Cons)
qed

lemma fold_keep_latest_after:
  assumes "- 1 \<le> t" and "dict_ok upd"
  shows "t < dget_or (fold (\<lambda>(idx, w). keep_latest idx w) upd d) i (- 1) \<longleftrightarrow>
     t < dget_or d i (- 1) \<or> t < dget_or upd i (- 1)"
  using assms
proof (induction upd arbitrary: d)
  case (Cons p upd)
  obtain idx w where p: "p = (idx, w)" by (cases p)
  have "t < dget_or (p # upd) i (- 1) \<longleftrightarrow> (i = idx \<and> t < w) \<or> t < dget_or upd i (- 1)"
    using Cons.prems p by (auto simp: dget_or_Cons dget_or_notin)
  with Cons p show ?case by (auto simp: keep_latest_after)
qed simp

lemma in_cooldown_threshold:
  assumes "cooldown_ok m"
  shows "is_in_cooldown m i c \<longleftrightarrow>
     cm_windows m \<noteq> 0 \<and> max (c - cm_windows m) (- 1) < dget_or (cm_last_batched m) i (- 1)"
proof (cases "dget (cm_last_batched m) i")
  case (Some l)
  then have "0 \<le> l" using assms by (auto simp: cooldown_ok_def list_all_iff dest: map_of_SomeD)
  with Some show ?thesis by (auto simp: is_in_cooldown_def dget_or_def)
qed (simp add: is_in_cooldown_def dget_or_def)

lemma rebuild_in_cooldown:
  assumes ok: "cooldown_ok m" and r: "rebuild_from_history m archs c = (m', None)"
  shows "is_in_cooldown m' i c \<longleftrightarrow> cm_windows m \<noteq> 0 \<and> used_after (max (c - cm_windows m) (- 1)) archs i"
proof -
  let ?t = "max (c - cm_windows m) (- 1)"
  from r obtain upd where upd: "fold_res (history_window (c - cm_windows m)) archs [] = Inr upd"
    and m': "m' = m\<lparr>cm_last_batched := fold (\<lambda>(idx, w). keep_latest idx w) upd []\<rparr>"
    by (auto simp: rebuild_from_history_def apply_history_def bind_res_def Let_def split: sum.splits)
  have "dict_ok upd" using history_window_keys_ok [OF upd] by simp
  then have "?t < dget_or (cm_last_batched m') i (- 1) \<longleftrightarrow> used_after ?t archs i"
    using history_windows_after [OF upd, of ?t i] fold_keep_latest_after [of ?t upd "[]" i] m' by auto
  moreover have "cooldown_ok m'" using rebuild_ok [OF ok, of archs c] r by simp
  ultimately show ?thesis using m' in_cooldown_threshold [of m' i c] by simp
qed

lemma live_window_Inr:
  "live_window rec m = Inr m' \<longleftrightarrow>
     (\<exists>w. aw_window_start rec = PInt w \<and> 0 \<le> w
        \<and> fold_res (\<lambda>e m. bind_res (nonnegative_int (ae_prompt_idx e) ''archive prompt index'')
             (\<lambda>idx. record_batched m idx w)) (rewarded_entries rec) m = Inr m')"
  by (auto simp: live_window_def bind_res_Inr_iff)

lemma live_windows_nonneg:
  "fold_res live_window archs m = Inr m' \<Longrightarrow> rec \<in> set archs \<Longrightarrow> 0 \<le> window_no rec"
  by (induction archs arbitrary: m) (auto simp: live_window_Inr bind_res_Inr_iff window_no_def)

lemma live_entries_after:
  assumes "fold_res (\<lambda>e m. bind_res (nonnegative_int (ae_prompt_idx e) f)
              (\<lambda>idx. record_batched m idx w)) es m = Inr m'"
    and "- 1 \<le> t" and "\<forall>i. dget_or (cm_last_batched m) i (- 1) \<le> w"
  shows "(t < dget_or (cm_last_batched m') i (- 1) \<longleftrightarrow>
     t < dget_or (cm_last_batched m) i (- 1) \<or> (t < w \<and> PInt i \<in> ae_prompt_idx ` set es))
     \<and> (\<forall>i. dget_or (cm_last_batched m') i (- 1) \<le> w) \<and> cm_windows m' = cm_windows m"
  using assms
proof (induction es arbitrary: m)
  case (Cons e es)
  from Cons.prems(1) obtain idx u where e: "ae_prompt_idx e = PInt idx" "0 \<le> idx"
      "record_batched m idx w = Inr u"
    and rest: "fold_res (\<lambda>e m. bind_res (nonnegative_int (ae_prompt_idx e) f)
              (\<lambda>idx. record_batched m idx w)) es u = Inr m'"
    by (auto simp: bind_res_Inr_iff)
  have u: "cm_last_batched u = dset idx w (cm_last_batched m)" "cm_windows u = cm_windows m"
    using e by (auto simp: record_batched_def split: if_splits)
  have "\<forall>i. dget_or (cm_last_batched u) i (- 1) \<le> w" using u Cons.prems(3) by auto
  note IH = Cons.IH [OF rest Cons.prems(2) this]
  have "dget_or (cm_last_batched m) idx (- 1) \<le> w" using Cons.prems(3) by blast
  with IH u e show ?case by auto
qed simp

lemma live_windows_after:
  assumes "fold_res live_window archs m = Inr m'"
    and "sorted (map window_no archs)"
    and "- 1 \<le> t" and "\<forall>rec \<in> set archs. \<forall>i. dget_or (cm_last_batched m) i (- 1) \<le> window_no rec"
  shows "(t < dget_or (cm_last_batched m') i (- 1) \<longleftrightarrow>
     t < dget_or (cm_last_batched m) i (- 1) \<or> used_after t archs i) \<and> cm_windows m' = cm_windows m"
  using assms
proof (induction archs arbitrary: m)
  case Nil
  then show ?case by (simp add: used_after_def)
next
  case (Cons rec archs)
  from Cons.prems(1) obtain u where u: "live_window rec m = Inr u"
    and rest: "fold_res live_window archs u = Inr m'"
    by (auto simp: bind_res_Inr_iff)
  from u obtain w where w: "aw_window_start rec = PInt w" "0 \<le> w"
    and f: "fold_res (\<lambda>e m. bind_res (nonnegative_int (ae_prompt_idx e) ''archive prompt index'')
              (\<lambda>idx. record_batched m idx w)) (rewarded_entries rec) m = Inr u"
    by (auto simp: live_window_Inr)
  have wn: "window_no rec = w" using w by (simp add: window_no_def)
  have le: "\<forall>i. dget_or (cm_last_batched m) i (- 1) \<le> w" using Cons.prems(4) wn by auto
  note step = live_entries_after [OF f Cons.prems(3) le, of i]
  have "\<forall>rec \<in> set archs. \<forall>i. dget_or (cm_last_batched u) i (- 1) \<le> window_no rec"
  proof (intro ballI allI)
    fix rec' j
    assume "rec' \<in> set archs"
    then have "w \<le> window_no rec'" using Cons.prems(2) wn by auto
    with step show "dget_or (cm_last_batched u) j (- 1) \<le> window_no rec'" by (meson order_trans)
  qed
  from Cons.IH [OF rest _ Cons.prems(3) this] Cons.prems(2) step w
  show ?case by (auto simp: used_after_Cons)
qed

lemma live_ok: "fold_res live_window archs m = Inr m' \<Longrightarrow> cooldown_ok m \<Longrightarrow> cooldown_ok m'"
proof (erule fold_res_invariant [rotated 2])
  fix rec s t
  assume s: "cooldown_ok s" and "live_window rec s = Inr t"
  then obtain w where "fold_res (\<lambda>e m. bind_res (nonnegative_int (ae_prompt_idx e) ''archive prompt index'')
      (\<lambda>idx. record_batched m idx w)) (rewarded_entries rec) s = Inr t"
    by (auto simp: live_window_def bind_res_Inr_iff)
  then show "cooldown_ok t"
    by (rule fold_res_invariant [rotated 2]) (auto simp: s bind_res_Inr_iff intro: record_batched_ok)
qed

lemma live_then_history:
  assumes "fold_res live_window archs m = Inr m'"
  shows "\<exists>upd'. fold_res (history_window h) archs upd = Inr upd'"
  using assms
proof (induction archs arbitrary: m upd)
  case (Cons rec archs)
  have entries: "\<exists>u. fold_res (history_entry w) es upd = Inr u"
    if "fold_res (\<lambda>e m. bind_res (nonnegative_int (ae_prompt_idx e) ''archive prompt index'')
          (\<lambda>idx. record_batched m idx w)) es m = Inr t" for es w m t upd
    using that
  proof (induction es arbitrary: m upd)
    case (Cons e es)
    then obtain idx where "ae_prompt_idx e = PInt idx" "0 \<le> idx" by (auto simp: bind_res_Inr_iff)
    then have "history_entry w e upd = Inr (keep_latest idx w upd)" by (simp add: history_entry_Inr)
    then show ?case using Cons by (auto simp: bind_res_Inr_iff)
  qed simp
  from Cons.prems obtain w t where "aw_window_start rec = PInt w" "0 \<le> w"
    and t: "fold_res (\<lambda>e m. bind_res (nonnegative_int (ae_prompt_idx e) ''archive prompt index'')
          (\<lambda>idx. record_batched m idx w)) (rewarded_entries rec) m = Inr t"
    and rest: "fold_res live_window archs t = Inr m'"
    by (auto simp: live_window_Inr bind_res_Inr_iff)
  moreover obtain u where "fold_res (history_entry w) (rewarded_entries rec) upd = Inr u"
    using entries [OF t] by blast
  ultimately have "\<exists>v. history_window h rec upd = Inr v"
    by (auto simp: history_window_Inr)
  then show ?case using Cons.IH [OF rest] by (auto simp: bind_res_Inr_iff)
qed simp

section \<open>Snapshot round trip\<close>

lemma digit_char_0: "digit_char 0 = CHR ''0''"
  by (simp add: digit_char_def char_of_def bit_0)

lemma prompt_index_re_decimal: "prompt_index_re (decimal n)"
proof (cases "n = 0")
  case True
  then show ?thesis by (simp add: prompt_index_re_def decimal.simps [of 0] digit_char_0)
next
  case False
  then show ?thesis
    using hd_decimal [of n] decimal_digits [of n] by (simp add: prompt_index_re_def decimal_nonempty digit_char_0)
qed

lemma prompt_index_int_str: "0 \<le> i \<Longrightarrow> prompt_index (PStr (int_str i)) = Inr i"
  by (simp add: prompt_index_def int_str_def prompt_index_re_decimal)

lemma parse_saved_items:
  assumes "dict_ok (acc @ d)" and "list_all (\<lambda>(idx, w). 0 \<le> idx \<and> 0 \<le> w) d"
  shows "fold_res parse_prompt_item (map (\<lambda>(idx, w). (PStr (int_str idx), PInt w)) d) acc = Inr (acc @ d)"
  using assms
proof (induction d arbitrary: acc)
  case (Cons p d)
  obtain idx w where p: "p = (idx, w)" by (cases p)
  have fresh: "idx \<notin> set (dkeys acc)" using Cons.prems(1) p by auto
  have "parse_prompt_item (PStr (int_str idx), PInt w) acc = Inr (acc @ [(idx, w)])"
    using Cons.prems(2) p fresh
    by (simp add: parse_prompt_item_def prompt_index_int_str nonnegative_int_def dset_fresh)
  with Cons.IH [of "acc @ [(idx, w)]"] Cons.prems p show ?case by simp
qed simp

section \<open>Properties\<close>

text \<open>
  C30. Rebuilding the cooldown from archived windows answers like the recording that ran live: if
  the archived windows, in ascending order, are recordable one by one, the rebuild succeeds and
  every prompt is in cooldown at the current window exactly when the live map says so.
\<close>

theorem rebuild_agrees_with_live:
  assumes "cooldown_ok m"
    and "fold_res live_window archs (m\<lparr>cm_last_batched := []\<rparr>) = Inr live"
    and "sorted (map window_no archs)"
  shows "\<exists>m'. rebuild_from_history m archs c = (m', None)
           \<and> (\<forall>i. is_in_cooldown m' i c = is_in_cooldown live i c)"
proof -
  let ?e = "m\<lparr>cm_last_batched := []\<rparr>"
  let ?t = "max (c - cm_windows m) (- 1)"
  obtain upd where "fold_res (history_window (c - cm_windows m)) archs [] = Inr upd"
    using live_then_history [OF assms(2)] by blast
  then obtain m' where m': "rebuild_from_history m archs c = (m', None)"
    by (simp add: rebuild_from_history_def apply_history_def)
  have e: "cooldown_ok ?e" using assms(1) by (simp add: cooldown_ok_def)
  have nonneg: "\<forall>rec \<in> set archs. \<forall>i. dget_or (cm_last_batched ?e) i (- 1) \<le> window_no rec"
    using live_windows_nonneg [OF assms(2)] by fastforce
  have "is_in_cooldown m' i c = is_in_cooldown live i c" for i
    using rebuild_in_cooldown [OF assms(1) m', of i] live_windows_after [OF assms(2,3) _ nonneg, of ?t i]
      in_cooldown_threshold [OF live_ok [OF assms(2) e], of i c] by auto
  with m' show ?thesis by blast
qed

definition example_archive :: "arch_window list" where
  "example_archive =
     [\<lparr>aw_window_start = PInt 5, aw_batch = [\<lparr>ae_prompt_idx = PInt 7, ae_rewarded = PNone\<rparr>], aw_runners_up = []\<rparr>,
      \<lparr>aw_window_start = PInt 10, aw_batch = [\<lparr>ae_prompt_idx = PInt 8, ae_rewarded = PNone\<rparr>],
       aw_runners_up = [\<lparr>ae_prompt_idx = PInt 9, ae_rewarded = PBool True\<rparr>,
                        \<lparr>ae_prompt_idx = PInt 3, ae_rewarded = PBool False\<rparr>]\<rparr>]"

theorem rebuild_agrees_with_live_witness:
  "\<exists>m'. rebuild_from_history \<lparr>cm_windows = 3, cm_last_batched = [(1, 2)]\<rparr> example_archive 12 = (m', None)
     \<and> (\<forall>i. is_in_cooldown m' i 12
              = is_in_cooldown \<lparr>cm_windows = 3, cm_last_batched = [(7, 5), (8, 10), (9, 10)]\<rparr> i 12)"
  by (rule rebuild_agrees_with_live)
    (simp_all add: cooldown_ok_def example_archive_def live_window_def nonnegative_int_def
      rewarded_entries_def record_batched_def window_no_def)

text \<open>
  C31. The snapshot round trip: loading the document a map saved gives the saved windows back,
  key by key and in the same order, whatever the loading map held.
\<close>

theorem save_load_roundtrip:
  assumes "cooldown_ok m"
  shows "load m0 (Some (save m)) = Inr (m0\<lparr>cm_last_batched := cm_last_batched m\<rparr>)"
  using assms parse_saved_items [of "[]" "cm_last_batched m"]
  by (simp add: load_def save_def export_state_def import_state_def parse_prompt_cooldown_state_def
      cooldown_ok_def)

theorem save_load_roundtrip_witness:
  "load \<lparr>cm_windows = 5, cm_last_batched = []\<rparr> (Some (save \<lparr>cm_windows = 3, cm_last_batched = [(12, 40), (0, 7)]\<rparr>))
     = Inr \<lparr>cm_windows = 5, cm_last_batched = [(12, 40), (0, 7)]\<rparr>"
  using save_load_roundtrip [of "\<lparr>cm_windows = 3, cm_last_batched = [(12, 40), (0, 7)]\<rparr>"
      "\<lparr>cm_windows = 5, cm_last_batched = []\<rparr>"]
  by (simp add: cooldown_ok_def)

text \<open>
  A content use cools its digest on the half-open interval from the recorded window, under
  every spelling that normalises to the same digest, and leaves every other digest's answer alone.
\<close>

theorem content_cooldown_half_open:
  assumes "record_selected m digest w = Inr m'" and "digest_of other = Inr d"
  shows "content_is_in_cooldown m' other c =
    (if digest_of other = digest_of digest then Inr (ccm_windows m \<noteq> 0 \<and> c < w + ccm_windows m)
     else content_is_in_cooldown m other c)"
proof (cases "digest_of other = digest_of digest")
  case True
  then have "content_is_in_cooldown m' other c = content_is_in_cooldown m' digest c"
    by (simp add: content_is_in_cooldown_def)
  with True show ?thesis using content_clock.half_open [OF assms(1), of c] by simp
next
  case False
  have o: "digest_key other = Some d" using assms(2) by (simp add: digest_key_def)
  have "digest_key digest \<noteq> digest_key other"
    using False assms by (auto simp: digest_key_def record_selected_def split: sum.splits if_splits)
  then show ?thesis using False content_clock.other_key [OF assms(1) o] by simp
qed

definition example_digest :: "char \<Rightarrow> string" where
  "example_digest c = replicate 64 c"

lemma digest_of_example:
  assumes "\<not> space_char c" and "hex_char (lower_char c)"
  shows "digest_of (example_digest c) = Inr (example_digest (lower_char c))"
proof -
  have "dropWhile space_char (replicate n c) = replicate n c" for n
    using assms(1) by (cases n) simp_all
  then have "digest_of (replicate n c) = Inr (replicate n (lower_char c))" if "n = 64" for n
    using assms(2) that by (simp add: digest_of_def strip_def sha256_hex_re_def list_all_iff)
  then show ?thesis by (simp add: example_digest_def)
qed

lemma upper_a:
  "\<not> space_char CHR ''A''" "lower_char CHR ''A'' = CHR ''a''" "hex_char CHR ''a''"
  "\<not> space_char CHR ''a''" "lower_char CHR ''a'' = CHR ''a''"
  by (simp_all add: space_char_def lower_char_def hex_char_def is_digit_char_def char_of_def bit_0)

theorem content_cooldown_half_open_witness:
  "content_is_in_cooldown \<lparr>ccm_windows = 4, ccm_last_selected = [(example_digest CHR ''a'', 10)]\<rparr>
      (example_digest CHR ''A'') 13 = Inr True
   \<and> content_is_in_cooldown \<lparr>ccm_windows = 4, ccm_last_selected = [(example_digest CHR ''a'', 10)]\<rparr>
      (example_digest CHR ''A'') 14 = Inr False"
proof -
  have A: "digest_of (example_digest CHR ''A'') = Inr (example_digest CHR ''a'')"
    and a: "digest_of (example_digest CHR ''a'') = Inr (example_digest CHR ''a'')"
    using digest_of_example [of "CHR ''A''"] digest_of_example [of "CHR ''a''"] upper_a by simp_all
  have r: "record_selected \<lparr>ccm_windows = 4, ccm_last_selected = []\<rparr> (example_digest CHR ''a'') 10
      = Inr \<lparr>ccm_windows = 4, ccm_last_selected = [(example_digest CHR ''a'', 10)]\<rparr>"
    by (simp add: record_selected_def a)
  show ?thesis
    using content_cooldown_half_open [OF r A, of 13] content_cooldown_half_open [OF r A, of 14]
    by (simp add: A a)
qed

text \<open>
  C32. Every operation of the prompt cooldown keeps its invariant (a non-negative horizon, distinct
  non-negative prompts with non-negative windows), the rebuild even when an archive is corrupt, and
  the reported cooldown set is the set of prompts the predicate holds for.
\<close>

theorem cooldown_invariant:
  assumes "cooldown_ok m"
  shows "(\<forall>p w m'. record_batched m p w = Inr m' \<longrightarrow> cooldown_ok m')
    \<and> (\<forall>v m'. with_cooldown_windows m v = Inr m' \<longrightarrow> cooldown_ok m')
    \<and> (\<forall>v m'. import_state m v = Inr m' \<longrightarrow> cooldown_ok m')
    \<and> (\<forall>archs c m'. apply_history m archs c = Inr m' \<longrightarrow> cooldown_ok m')
    \<and> (\<forall>archs c. cooldown_ok (fst (rebuild_from_history m archs c)))
    \<and> (\<forall>c. current_cooldown_set m c = {idx. is_in_cooldown m idx c})"
  by (intro conjI allI impI)
    (auto intro: record_batched_ok [OF assms] with_cooldown_windows_ok [OF assms] import_state_ok [OF assms]
      apply_history_ok [OF assms] rebuild_ok [OF assms] simp: cooldown_set_iff [OF assms])

theorem cooldown_invariant_witness:
  "cooldown_ok (fst (rebuild_from_history \<lparr>cm_windows = 3, cm_last_batched = [(1, 2)]\<rparr>
       [\<lparr>aw_window_start = PStr ''5'', aw_batch = [], aw_runners_up = []\<rparr>] 4))
   \<and> current_cooldown_set \<lparr>cm_windows = 3, cm_last_batched = [(1, 2)]\<rparr> 4
       = {idx. is_in_cooldown \<lparr>cm_windows = 3, cm_last_batched = [(1, 2)]\<rparr> idx 4}"
proof -
  have "cooldown_ok \<lparr>cm_windows = 3, cm_last_batched = [(1, 2)]\<rparr>" by (simp add: cooldown_ok_def)
  from cooldown_invariant [OF this] show ?thesis by blast
qed

end
