(* ===== verification/Fill_Window.thy ===== *)
theory Fill_Window
  imports Reliquary_Prelude
begin

text \<open>
  The accounting of one fill-closed window, \<^verbatim>\<open>reliquary/validator/fill_window.py\<close>: per environment a
  monotone admission budget, the proofs in flight, and the pick ordinal that closes the window. The
  state machine \<open>fs_step\<close> has one rule per mutation; \<open>reserve\<close> is taken under \<open>may_admit\<close>, as its only
  caller does (\<^verbatim>\<open>GrpoWindowBatcher\<close>, under the shared lock).
\<close>

section \<open>State and operations\<close>

record fill_state =
  fs_budgets :: "(string, int) dict"
  fs_admitted :: "(string, int) dict"
  fs_proven :: "(string, int) dict"
  fs_in_flight :: "(string, int) dict"
  fs_picks_target :: int
  fs_picks :: "(string, int) dict"
  fs_revision :: int

definition zeros :: "(string, int) dict \<Rightarrow> (string, int) dict" where
  "zeros budgets = map (\<lambda>(name, _). (name, 0)) budgets"

definition FillState :: "(string, int) dict \<Rightarrow> int \<Rightarrow> fill_state res" where
  "FillState budgets picks_target =
     (if budgets = [] then Inl (ValueError ''fill state requires at least one environment'')
      else if list_ex (\<lambda>(_, budget). budget \<le> 0) budgets then Inl (ValueError ''fill budgets must be positive'')
      else if picks_target \<le> 0 then Inl (ValueError ''picks_target must be positive'')
      else Inr \<lparr>fs_budgets = budgets, fs_admitted = zeros budgets, fs_proven = zeros budgets,
                fs_in_flight = zeros budgets, fs_picks_target = picks_target, fs_picks = zeros budgets,
                fs_revision = 0\<rparr>)"

definition known :: "fill_state \<Rightarrow> string \<Rightarrow> string res" where
  "known s environment =
     (if environment \<in> set (dkeys (fs_budgets s)) then Inr environment
      else Inl (ValueError ''unknown environment''))"

text \<open>\<^verbatim>\<open>d[name] += n\<close>; every dictionary of the state has the budgets' keys (\<open>fs_inv\<close> below).\<close>

definition dincr :: "string \<Rightarrow> int \<Rightarrow> (string, int) dict \<Rightarrow> (string, int) dict" where
  "dincr name n d = dset name (dget_or d name 0 + n) d"

definition may_admit :: "fill_state \<Rightarrow> string \<Rightarrow> bool res" where
  "may_admit s environment =
     bind_res (known s environment) (\<lambda>name.
       Inr (dget_or (fs_admitted s) name 0 < dget_or (fs_budgets s) name 0))"

definition reserve :: "fill_state \<Rightarrow> string \<Rightarrow> fill_state res" where
  "reserve s environment =
     bind_res (known s environment) (\<lambda>name.
       Inr (s\<lparr>fs_in_flight := dincr name 1 (fs_in_flight s),
              fs_admitted := dincr name 1 (fs_admitted s),
              fs_revision := fs_revision s + 1\<rparr>))"

definition release_slot :: "fill_state \<Rightarrow> string \<Rightarrow> fill_state res" where
  "release_slot s environment =
     bind_res (known s environment) (\<lambda>name.
       if dget_or (fs_in_flight s) name 0 \<le> 0 then Inl (ValueError ''no reservation to release'')
       else Inr (s\<lparr>fs_in_flight := dincr name (- 1) (fs_in_flight s),
                   fs_revision := fs_revision s + 1\<rparr>))"

definition record_proven :: "fill_state \<Rightarrow> string \<Rightarrow> fill_state res" where
  "record_proven s environment =
     bind_res (known s environment) (\<lambda>name.
       Inr (s\<lparr>fs_in_flight := (if 0 < dget_or (fs_in_flight s) name 0
                               then dincr name (- 1) (fs_in_flight s) else fs_in_flight s),
              fs_proven := dincr name 1 (fs_proven s),
              fs_revision := fs_revision s + 1\<rparr>))"

definition record_pick :: "fill_state \<Rightarrow> string \<Rightarrow> fill_state res" where
  "record_pick s environment =
     bind_res (known s environment) (\<lambda>name.
       if dget_or (fs_picks s) name 0 \<ge> fs_picks_target s
       then Inl (ValueError ''pick past picks_target'')
       else let prospective = dincr name 1 (fs_picks s);
                vals = set (map snd prospective)
            in if Max vals - Min vals > 1
               then Inl (ValueError ''pick ordinals diverged past one in-flight event'')
               else Inr (s\<lparr>fs_picks := dset name (dget_or prospective name 0) (fs_picks s),
                           fs_revision := fs_revision s + 1\<rparr>))"

definition picks_taken :: "fill_state \<Rightarrow> string \<Rightarrow> int res" where
  "picks_taken s environment = bind_res (known s environment) (\<lambda>name. Inr (dget_or (fs_picks s) name 0))"

definition is_closed :: "fill_state \<Rightarrow> bool" where
  "is_closed s \<longleftrightarrow> fs_picks_target s \<le> Min (set (map snd (fs_picks s)))"

record fill_snapshot =
  snap_budgets :: "(string, int) dict"
  snap_admitted :: "(string, int) dict"
  snap_proven :: "(string, int) dict"
  snap_in_flight :: "(string, int) dict"
  snap_picks_by_environment :: "(string, int) dict"
  snap_picks_emitted :: int
  snap_picks_target :: int
  snap_closed :: bool

definition fill_snapshot_of :: "fill_state \<Rightarrow> fill_snapshot" where
  "fill_snapshot_of s =
     \<lparr>snap_budgets = fs_budgets s, snap_admitted = fs_admitted s, snap_proven = fs_proven s,
      snap_in_flight = fs_in_flight s, snap_picks_by_environment = fs_picks s,
      snap_picks_emitted = Min (set (map snd (fs_picks s))), snap_picks_target = fs_picks_target s,
      snap_closed = is_closed s\<rparr>"

section \<open>The state machine\<close>

inductive fs_step :: "fill_state \<Rightarrow> fill_state \<Rightarrow> bool" where
  reserved: "may_admit s e = Inr True \<Longrightarrow> reserve s e = Inr t \<Longrightarrow> fs_step s t"
| released: "release_slot s e = Inr t \<Longrightarrow> fs_step s t"
| proven: "record_proven s e = Inr t \<Longrightarrow> fs_step s t"
| picked: "record_pick s e = Inr t \<Longrightarrow> fs_step s t"

definition fs_init :: "fill_state \<Rightarrow> bool" where
  "fs_init s \<longleftrightarrow> (\<exists>budgets target. dict_ok budgets \<and> FillState budgets target = Inr s)"

abbreviation fs_reachable :: "fill_state \<Rightarrow> bool" where
  "fs_reachable \<equiv> reach fs_init fs_step"

section \<open>Invariant\<close>

definition fs_envs :: "fill_state \<Rightarrow> string set" where
  "fs_envs s = set (dkeys (fs_budgets s))"

definition fs_aligned :: "fill_state \<Rightarrow> bool" where
  "fs_aligned s \<longleftrightarrow>
     fs_budgets s \<noteq> [] \<and> dict_ok (fs_budgets s)
     \<and> dkeys (fs_admitted s) = dkeys (fs_budgets s) \<and> dkeys (fs_proven s) = dkeys (fs_budgets s)
     \<and> dkeys (fs_in_flight s) = dkeys (fs_budgets s) \<and> dkeys (fs_picks s) = dkeys (fs_budgets s)"

definition env_counts_ok :: "fill_state \<Rightarrow> string \<Rightarrow> bool" where
  "env_counts_ok s e \<longleftrightarrow>
     0 \<le> dget_or (fs_in_flight s) e 0
     \<and> dget_or (fs_in_flight s) e 0 \<le> dget_or (fs_admitted s) e 0
     \<and> dget_or (fs_admitted s) e 0 \<le> dget_or (fs_budgets s) e 0
     \<and> 0 \<le> dget_or (fs_proven s) e 0
     \<and> 0 \<le> dget_or (fs_picks s) e 0 \<and> dget_or (fs_picks s) e 0 \<le> fs_picks_target s"

definition picks_spread_ok :: "fill_state \<Rightarrow> bool" where
  "picks_spread_ok s \<longleftrightarrow>
     (\<forall>e \<in> fs_envs s. \<forall>f \<in> fs_envs s. dget_or (fs_picks s) e 0 \<le> dget_or (fs_picks s) f 0 + 1)"

definition fs_inv :: "fill_state \<Rightarrow> bool" where
  "fs_inv s \<longleftrightarrow>
     fs_aligned s \<and> 0 < fs_picks_target s \<and> 0 \<le> fs_revision s
     \<and> (\<forall>e \<in> fs_envs s. env_counts_ok s e) \<and> picks_spread_ok s"

lemma dkeys_zeros [simp]: "dkeys (zeros b) = dkeys b"
  by (induction b) (auto simp: zeros_def)

lemma dget_or_zeros [simp]: "dget_or (zeros b) e 0 = 0"
  by (induction b) (auto simp: zeros_def dget_or_Cons)

lemma dkeys_dincr:
  "dkeys d = dkeys (fs_budgets s) \<Longrightarrow> e \<in> fs_envs s \<Longrightarrow> dkeys (dincr e n d) = dkeys (fs_budgets s)"
  by (metis dincr_def dkeys_dset_in fs_envs_def)

lemma dget_or_dincr [simp]:
  "dget_or (dincr name n d) e 0 = (if e = name then dget_or d name 0 + n else dget_or d e 0)"
  by (simp add: dincr_def)

lemma known_Inr [simp]: "known s e = Inr n \<longleftrightarrow> n = e \<and> e \<in> fs_envs s"
  by (auto simp: known_def fs_envs_def)

lemma fs_envs_upd [simp]:
  "fs_envs (s\<lparr>fs_in_flight := a\<rparr>) = fs_envs s" "fs_envs (s\<lparr>fs_admitted := a\<rparr>) = fs_envs s"
  "fs_envs (s\<lparr>fs_proven := a\<rparr>) = fs_envs s" "fs_envs (s\<lparr>fs_picks := a\<rparr>) = fs_envs s"
  "fs_envs (s\<lparr>fs_revision := r\<rparr>) = fs_envs s"
  by (simp_all add: fs_envs_def)

lemma vals_dict: "dict_ok d \<Longrightarrow> set (map snd d) = (\<lambda>e. dget_or d e 0) ` set (dkeys d)"
  by (force simp: image_iff dget_or_mem)

lemma spread_le_1:
  assumes "finite A" and "A \<noteq> {}"
  shows "Max A - Min A \<le> (1::int) \<longleftrightarrow> (\<forall>a \<in> A. \<forall>b \<in> A. a \<le> b + 1)"
proof
  assume "Max A - Min A \<le> 1"
  moreover have "a \<le> Max A" "Min A \<le> b" if "a \<in> A" "b \<in> A" for a b using assms that by auto
  ultimately show "\<forall>a \<in> A. \<forall>b \<in> A. a \<le> b + 1" by force
next
  assume "\<forall>a \<in> A. \<forall>b \<in> A. a \<le> b + 1"
  then have "Max A \<le> Min A + 1" using Max_in [OF assms] Min_in [OF assms] by blast
  then show "Max A - Min A \<le> 1" by simp
qed

lemma aligned_dict_ok: "fs_aligned s \<Longrightarrow> dict_ok (fs_picks s)"
  by (simp add: fs_aligned_def)

lemma aligned_vals:
  "fs_aligned s \<Longrightarrow> set (map snd (fs_picks s)) = (\<lambda>e. dget_or (fs_picks s) e 0) ` fs_envs s"
  using vals_dict [OF aligned_dict_ok] by (simp add: fs_aligned_def fs_envs_def)

lemma fs_envs_finite: "finite (fs_envs s)"
  by (simp add: fs_envs_def)

lemma fs_envs_nonempty: "fs_aligned s \<Longrightarrow> fs_envs s \<noteq> {}"
  by (simp add: fs_aligned_def fs_envs_def)

lemma pick_aligned:
  assumes "fs_aligned s" and "e \<in> fs_envs s"
  shows "fs_aligned (s\<lparr>fs_picks := dincr e 1 (fs_picks s), fs_revision := r\<rparr>)"
  using assms by (auto simp: fs_aligned_def dkeys_dincr)

lemma record_pick_Inr:
  assumes "fs_aligned s"
  shows "record_pick s e = Inr t \<longleftrightarrow>
     e \<in> fs_envs s \<and> dget_or (fs_picks s) e 0 < fs_picks_target s
     \<and> t = s\<lparr>fs_picks := dincr e 1 (fs_picks s), fs_revision := fs_revision s + 1\<rparr> \<and> picks_spread_ok t"
proof (cases "e \<in> fs_envs s")
  case False
  then show ?thesis by (auto simp: record_pick_def bind_res_Inr_iff)
next
  case True
  let ?t = "s\<lparr>fs_picks := dincr e 1 (fs_picks s), fs_revision := fs_revision s + 1\<rparr>"
  have v: "set (map snd (dincr e 1 (fs_picks s))) = (\<lambda>f. dget_or (fs_picks ?t) f 0) ` fs_envs s"
    using aligned_vals [OF pick_aligned [OF assms True]] by simp
  have ne: "(\<lambda>f. dget_or (fs_picks ?t) f 0) ` fs_envs s \<noteq> {}" using True by blast
  have spread: "(Max (set (map snd (dincr e 1 (fs_picks s)))) - Min (set (map snd (dincr e 1 (fs_picks s)))) \<le> 1)
      = picks_spread_ok ?t"
    unfolding v spread_le_1 [OF finite_imageI [OF fs_envs_finite] ne] picks_spread_ok_def by auto
  show ?thesis
    using True spread
    by (auto simp: record_pick_def bind_res_Inr_iff Let_def not_less simp flip: dincr_def split: if_splits)
qed

subsection \<open>Every mutation keeps it\<close>

lemma fs_inv_FillState:
  assumes "dict_ok budgets" and "FillState budgets target = Inr s"
  shows "fs_inv s"
proof -
  have s: "s = \<lparr>fs_budgets = budgets, fs_admitted = zeros budgets, fs_proven = zeros budgets,
      fs_in_flight = zeros budgets, fs_picks_target = target, fs_picks = zeros budgets, fs_revision = 0\<rparr>"
    and pos: "\<And>e b. (e, b) \<in> set budgets \<Longrightarrow> 0 < b" and "budgets \<noteq> []" "0 < target"
    using assms(2) by (auto simp: FillState_def list_ex_iff not_le split: if_splits)
  moreover have "0 \<le> dget_or budgets e 0" if "e \<in> set (dkeys budgets)" for e
    using pos [OF dget_or_in [OF that]] by (rule less_imp_le)
  ultimately show ?thesis
    using assms(1) by (auto simp: fs_inv_def fs_aligned_def env_counts_ok_def picks_spread_ok_def fs_envs_def)
qed

lemma fs_inv_reserve:
  assumes "fs_inv s" and "may_admit s e = Inr True" and "reserve s e = Inr t"
  shows "fs_inv t"
proof -
  have e: "e \<in> fs_envs s" "dget_or (fs_admitted s) e 0 < dget_or (fs_budgets s) e 0"
    and t: "t = s\<lparr>fs_in_flight := dincr e 1 (fs_in_flight s), fs_admitted := dincr e 1 (fs_admitted s),
        fs_revision := fs_revision s + 1\<rparr>"
    using assms(2,3) by (auto simp: may_admit_def reserve_def bind_res_Inr_iff)
  have "fs_aligned t" using assms(1) e t by (simp add: fs_inv_def fs_aligned_def dkeys_dincr)
  moreover have "env_counts_ok t f" if "f \<in> fs_envs s" for f
    using assms(1) e t that by (auto simp: fs_inv_def env_counts_ok_def)
  ultimately show ?thesis using assms(1) t by (simp add: fs_inv_def picks_spread_ok_def)
qed

lemma fs_inv_release:
  assumes "fs_inv s" and "release_slot s e = Inr t"
  shows "fs_inv t"
proof -
  have e: "e \<in> fs_envs s" "0 < dget_or (fs_in_flight s) e 0"
    and t: "t = s\<lparr>fs_in_flight := dincr e (- 1) (fs_in_flight s), fs_revision := fs_revision s + 1\<rparr>"
    using assms(2) by (auto simp: release_slot_def bind_res_Inr_iff split: if_splits)
  have "fs_aligned t" using assms(1) e t by (simp add: fs_inv_def fs_aligned_def dkeys_dincr)
  moreover have "env_counts_ok t f" if "f \<in> fs_envs s" for f
    using assms(1) e t that by (auto simp: fs_inv_def env_counts_ok_def)
  ultimately show ?thesis using assms(1) t by (simp add: fs_inv_def picks_spread_ok_def)
qed

lemma fs_inv_proven:
  assumes "fs_inv s" and "record_proven s e = Inr t"
  shows "fs_inv t"
proof -
  have e: "e \<in> fs_envs s"
    and t: "t = s\<lparr>fs_in_flight := (if 0 < dget_or (fs_in_flight s) e 0
        then dincr e (- 1) (fs_in_flight s) else fs_in_flight s),
        fs_proven := dincr e 1 (fs_proven s), fs_revision := fs_revision s + 1\<rparr>"
    using assms(2) by (auto simp: record_proven_def bind_res_Inr_iff)
  have "fs_aligned t" using assms(1) e t by (auto simp: fs_inv_def fs_aligned_def dkeys_dincr)
  moreover have "env_counts_ok t f" if "f \<in> fs_envs s" for f
    using assms(1) e t that by (auto simp: fs_inv_def env_counts_ok_def)
  ultimately show ?thesis using assms(1) t by (simp add: fs_inv_def picks_spread_ok_def)
qed

lemma fs_inv_pick:
  assumes "fs_inv s" and "record_pick s e = Inr t"
  shows "fs_inv t"
proof -
  have al: "fs_aligned s" using assms(1) by (simp add: fs_inv_def)
  have e: "e \<in> fs_envs s" "dget_or (fs_picks s) e 0 < fs_picks_target s" and sp: "picks_spread_ok t"
    and t: "t = s\<lparr>fs_picks := dincr e 1 (fs_picks s), fs_revision := fs_revision s + 1\<rparr>"
    using assms(2) record_pick_Inr [OF al] by auto
  have "fs_aligned t" using pick_aligned [OF al e(1)] t by simp
  moreover have "env_counts_ok t f" if "f \<in> fs_envs s" for f
    using assms(1) e t that by (auto simp: fs_inv_def env_counts_ok_def)
  ultimately show ?thesis using assms(1) t sp by (simp add: fs_inv_def)
qed

interpretation fill: step_invariant fs_init fs_step fs_inv
proof unfold_locales
  show "fs_inv s" if "fs_init s" for s
    using that fs_inv_FillState by (auto simp: fs_init_def)
  show "fs_inv t" if "fs_inv s" "fs_step s t" for s t
    using that(2,1) by (cases rule: fs_step.cases)
      (auto intro: fs_inv_reserve fs_inv_release fs_inv_proven fs_inv_pick)
qed


section \<open>Closing\<close>

lemma closed_iff:
  assumes "fs_inv s"
  shows "is_closed s \<longleftrightarrow> (\<forall>e \<in> fs_envs s. dget_or (fs_picks s) e 0 = fs_picks_target s)"
proof -
  have al: "fs_aligned s" using assms by (simp add: fs_inv_def)
  have "is_closed s \<longleftrightarrow> (\<forall>e \<in> fs_envs s. fs_picks_target s \<le> dget_or (fs_picks s) e 0)"
    unfolding is_closed_def aligned_vals [OF al]
    using fs_envs_finite fs_envs_nonempty [OF al] by (simp add: Min_ge_iff)
  moreover have "dget_or (fs_picks s) e 0 \<le> fs_picks_target s" if "e \<in> fs_envs s" for e
    using assms that by (simp add: fs_inv_def env_counts_ok_def)
  ultimately show ?thesis by force
qed

lemma pick_progress:
  assumes "fs_inv s" and "\<not> is_closed s"
  shows "\<exists>e t. record_pick s e = Inr t"
proof -
  have al: "fs_aligned s" using assms(1) by (simp add: fs_inv_def)
  let ?p = "\<lambda>e. dget_or (fs_picks s) e 0"
  obtain e where e: "e \<in> fs_envs s" and least: "\<And>f. f \<in> fs_envs s \<Longrightarrow> ?p e \<le> ?p f"
    using ex_min_if_finite [of "?p ` fs_envs s"] fs_envs_finite fs_envs_nonempty [OF al]
    by (fastforce simp: not_less)
  have "?p e < fs_picks_target s"
    using assms closed_iff [OF assms(1)] e least by (force simp: fs_inv_def env_counts_ok_def)
  moreover have "picks_spread_ok (s\<lparr>fs_picks := dincr e 1 (fs_picks s), fs_revision := fs_revision s + 1\<rparr>)"
    using assms(1) least by (force simp: fs_inv_def picks_spread_ok_def)
  ultimately have "record_pick s e =
      Inr (s\<lparr>fs_picks := dincr e 1 (fs_picks s), fs_revision := fs_revision s + 1\<rparr>)"
    using record_pick_Inr [OF al] e by blast
  then show ?thesis by blast
qed

lemma picks_sum:
  assumes "fold_res (\<lambda>e s. record_pick s e) es s = Inr t" and "fs_inv s"
  shows "fs_inv t \<and> fs_budgets t = fs_budgets s \<and> fs_picks_target t = fs_picks_target s
    \<and> dsum (fs_picks t) = dsum (fs_picks s) + int (length es)"
  using assms
proof (induction es arbitrary: s)
  case (Cons e es)
  then obtain u where u: "record_pick s e = Inr u" and rest: "fold_res (\<lambda>e s. record_pick s e) es u = Inr t"
    by (auto simp: bind_res_Inr_iff)
  have al: "fs_aligned s" using Cons.prems(2) by (simp add: fs_inv_def)
  have "u = s\<lparr>fs_picks := dincr e 1 (fs_picks s), fs_revision := fs_revision s + 1\<rparr>"
    using u record_pick_Inr [OF al] by blast
  moreover have "dsum (dincr e 1 (fs_picks s)) = dsum (fs_picks s) + 1"
    using dsum_dset_add [OF aligned_dict_ok [OF al]] by (simp add: dincr_def)
  ultimately show ?case using Cons.IH [OF rest fs_inv_pick [OF Cons.prems(2) u]] by simp
qed simp

lemma sum_all_full:
  fixes n :: int
  assumes "\<forall>v \<in> set vs. v \<le> n"
  shows "sum_list vs \<le> int (length vs) * n \<and> (sum_list vs = int (length vs) * n \<longleftrightarrow> (\<forall>v \<in> set vs. v = n))"
  using assms
proof (induction vs)
  case (Cons v vs)
  then have "sum_list vs \<le> int (length vs) * n" "v \<le> n" by auto
  then have "v + sum_list vs = n + int (length vs) * n \<longleftrightarrow> v = n \<and> sum_list vs = int (length vs) * n"
    by linarith
  with Cons show ?case by (auto simp: algebra_simps)
qed simp

section \<open>Properties\<close>

text \<open>
  C10. In every reachable state of a fill window no environment has admitted more than its budget,
  its proofs in flight never exceed what it admitted, its pick ordinal never passes the target, and
  two environments' ordinals never differ by more than the one event in flight.
\<close>

theorem fill_window_invariant:
  assumes "fs_reachable s" and "e \<in> fs_envs s" and "f \<in> fs_envs s"
  shows "dget_or (fs_admitted s) e 0 \<le> dget_or (fs_budgets s) e 0
    \<and> 0 \<le> dget_or (fs_in_flight s) e 0 \<and> dget_or (fs_in_flight s) e 0 \<le> dget_or (fs_admitted s) e 0
    \<and> 0 \<le> dget_or (fs_picks s) e 0 \<and> dget_or (fs_picks s) e 0 \<le> fs_picks_target s
    \<and> \<bar>dget_or (fs_picks s) e 0 - dget_or (fs_picks s) f 0\<bar> \<le> 1"
  using fill.inv_reach [OF assms(1)] assms(2,3)
  by (force simp: fs_inv_def env_counts_ok_def picks_spread_ok_def abs_le_iff)

definition example_fill :: fill_state where
  "example_fill =
     \<lparr>fs_budgets = [(''math'', 2), (''code'', 3)], fs_admitted = [(''math'', 0), (''code'', 0)],
      fs_proven = [(''math'', 0), (''code'', 0)], fs_in_flight = [(''math'', 0), (''code'', 0)],
      fs_picks_target = 1, fs_picks = [(''math'', 0), (''code'', 0)], fs_revision = 0\<rparr>"

lemma example_fill_init: "FillState [(''math'', 2), (''code'', 3)] 1 = Inr example_fill"
  by (simp add: FillState_def example_fill_def zeros_def)

lemma example_fill_reachable: "fs_reachable example_fill"
  by (rule reach_init) (auto simp: fs_init_def intro!: exI example_fill_init)

definition example_fill_picked :: fill_state where
  "example_fill_picked = example_fill\<lparr>fs_picks := [(''math'', 1), (''code'', 0)], fs_revision := 1\<rparr>"

lemma example_pick: "record_pick example_fill ''math'' = Inr example_fill_picked"
  by (simp add: record_pick_def example_fill_def example_fill_picked_def known_def dincr_def dget_or_def)

theorem fill_window_invariant_witness:
  "\<bar>dget_or (fs_picks example_fill_picked) ''math'' 0 - dget_or (fs_picks example_fill_picked) ''code'' 0\<bar> \<le> 1"
proof -
  have "fs_reachable example_fill_picked"
    by (rule reach_step [OF example_fill_reachable fs_step.picked [OF example_pick]])
  from fill_window_invariant [OF this, of "''math''" "''code''"] show ?thesis
    by (simp add: fs_envs_def example_fill_picked_def example_fill_def)
qed

text \<open>
  C38. A reachable window is closed exactly when every environment has taken its full number of
  picks, so a half-emitted event never closes it; and while it is open some environment's next pick
  is accepted, so the picks can always be driven to the close.
\<close>

theorem fill_window_closes:
  assumes "fs_reachable s"
  shows "(is_closed s \<longleftrightarrow> (\<forall>e \<in> fs_envs s. dget_or (fs_picks s) e 0 = fs_picks_target s))
    \<and> (\<not> is_closed s \<longrightarrow> (\<exists>e t. record_pick s e = Inr t))"
  using closed_iff [OF fill.inv_reach [OF assms]] pick_progress [OF fill.inv_reach [OF assms]] by blast

theorem fill_window_closes_witness:
  "\<not> is_closed example_fill \<and> (\<exists>e t. record_pick example_fill e = Inr t)"
proof -
  have "\<not> (\<forall>e \<in> fs_envs example_fill. dget_or (fs_picks example_fill) e 0 = fs_picks_target example_fill)"
    by (simp add: fs_envs_def example_fill_def dget_or_Cons)
  with fill_window_closes [OF example_fill_reachable] show ?thesis by blast
qed

text \<open>
  A fresh window is closed after exactly (environments times target) accepted picks, in whatever
  order the environments took them.
\<close>

theorem fill_window_pick_count:
  assumes "dict_ok budgets" and "FillState budgets target = Inr s"
    and "fold_res (\<lambda>e s. record_pick s e) es s = Inr t"
  shows "is_closed t \<longleftrightarrow> int (length es) = int (length budgets) * target"
proof -
  have s: "fs_inv s" using assms fs_inv_FillState by blast
  have fresh: "dsum (fs_picks s) = 0" "fs_budgets s = budgets" "fs_picks_target s = target"
    using assms(2) by (auto simp: FillState_def zeros_def dsum_def comp_def case_prod_unfold split: if_splits)
  note run = picks_sum [OF assms(3) s]
  have t: "fs_inv t" "fs_aligned t" using run by (auto simp: fs_inv_def)
  let ?vs = "map snd (fs_picks t)"
  have len: "length ?vs = length budgets"
    using t(2) run fresh by (metis fs_aligned_def length_map)
  have vs: "set ?vs = (\<lambda>e. dget_or (fs_picks t) e 0) ` fs_envs t" by (rule aligned_vals [OF t(2)])
  have "\<forall>v \<in> set ?vs. v \<le> target"
    using t(1) run fresh unfolding vs by (auto simp: fs_inv_def env_counts_ok_def)
  from sum_all_full [OF this]
  have "int (length es) = int (length budgets) * target \<longleftrightarrow> (\<forall>v \<in> set ?vs. v = target)"
    using run fresh len by (simp add: dsum_def)
  then show ?thesis using closed_iff [OF t(1)] run fresh unfolding vs by auto
qed

theorem fill_window_pick_count_witness:
  "\<exists>t. fold_res (\<lambda>e s. record_pick s e) [''math'', ''code''] example_fill = Inr t \<and> is_closed t"
proof -
  obtain t where t: "fold_res (\<lambda>e s. record_pick s e) [''math'', ''code''] example_fill = Inr t"
    by (simp add: record_pick_def example_fill_def known_def dincr_def dget_or_def)
  from fill_window_pick_count [OF _ example_fill_init t] t show ?thesis by auto
qed

end
