(* ===== verification/Training_Accumulator.thy ===== *)
theory Training_Accumulator
  imports Reliquary_Prelude
begin

text \<open>
  \<^verbatim>\<open>BalancedTrainingAccumulator\<close> of \<^verbatim>\<open>reliquary/validator/training_accumulator.py\<close>: one batch per
  environment, collected over several windows under one checkpoint, each capped at its target. A
  group is an opaque value of type \<open>'g\<close>.
\<close>

section \<open>State and operations\<close>

record 'g accumulator =
  ta_targets :: "(string, int) dict"
  ta_groups :: "(string, 'g list) dict"
  ta_source_windows :: "(string, int list) dict"
  ta_checkpoint_revision :: "string option"

record accumulator_snapshot =
  ts_checkpoint_revision :: "string option"
  ts_targets :: "(string, int) dict"
  ts_counts :: "(string, int) dict"
  ts_source_windows :: "(string, int list) dict"
  ts_ready :: bool

record add_window_report =
  aw_checkpoint_reset :: "accumulator_snapshot option"
  aw_counts_before :: "(string, int) dict"
  aw_added :: "(string, int) dict"
  aw_not_accumulated :: "(string, int) dict"
  aw_snapshot :: accumulator_snapshot

definition BalancedTrainingAccumulator :: "(string, int) dict \<Rightarrow> 'g accumulator res" where
  "BalancedTrainingAccumulator targets =
     (if targets = [] then Inl (ValueError ''training accumulator requires at least one environment'')
      else if list_ex (\<lambda>(_, target). target < 0) targets
      then Inl (ValueError ''training accumulator targets must be non-negative'')
      else Inr \<lparr>ta_targets = targets, ta_groups = map (\<lambda>(name, _). (name, [])) targets,
                ta_source_windows = map (\<lambda>(name, _). (name, [])) targets,
                ta_checkpoint_revision = None\<rparr>)"

definition ready :: "'g accumulator \<Rightarrow> bool" where
  "ready a \<longleftrightarrow> list_all (\<lambda>(name, target). target \<le> int (length (dget_or (ta_groups a) name []))) (ta_targets a)"

definition has_groups_for_all_targets :: "'g accumulator \<Rightarrow> bool" where
  "has_groups_for_all_targets a \<longleftrightarrow>
     list_all (\<lambda>(name, target). target = 0 \<or> dget_or (ta_groups a) name [] \<noteq> []) (ta_targets a)"

definition accumulator_snapshot_of :: "'g accumulator \<Rightarrow> accumulator_snapshot" where
  "accumulator_snapshot_of a =
     \<lparr>ts_checkpoint_revision = ta_checkpoint_revision a, ts_targets = ta_targets a,
      ts_counts = map (\<lambda>(name, _). (name, int (length (dget_or (ta_groups a) name [])))) (ta_targets a),
      ts_source_windows = map (\<lambda>(name, _). (name, dget_or (ta_source_windows a) name [])) (ta_targets a),
      ts_ready = ready a\<rparr>"

definition reset :: "'g accumulator \<Rightarrow> 'g accumulator \<times> accumulator_snapshot" where
  "reset a =
     (a\<lparr>ta_groups := map (\<lambda>(name, _). (name, [])) (ta_groups a),
        ta_source_windows := map (\<lambda>(name, _). (name, [])) (ta_source_windows a),
        ta_checkpoint_revision := None\<rparr>, accumulator_snapshot_of a)"

text \<open>One turn of the loop over the targets.\<close>

definition add_env ::
  "(string, 'g list) dict \<Rightarrow> int \<Rightarrow> string \<times> int
   \<Rightarrow> 'g accumulator \<times> (string, int) dict \<times> (string, int) dict
   \<Rightarrow> 'g accumulator \<times> (string, int) dict \<times> (string, int) dict" where
  "add_env batches window_n t st =
     (let (name, target) = t; (a, added, not_accumulated) = st;
          incoming = dget_or batches name [];
          held = dget_or (ta_groups a) name [];
          capacity = max 0 (target - int (length held));
          accepted = take (nat capacity) incoming;
          windows = dget_or (ta_source_windows a) name [];
          a' = (if accepted = [] then a
                else a\<lparr>ta_groups := dset name (held @ accepted) (ta_groups a),
                       ta_source_windows :=
                         (if windows = [] \<or> last windows \<noteq> window_n
                          then dset name (windows @ [window_n]) (ta_source_windows a)
                          else ta_source_windows a)\<rparr>)
      in (a', dset name (int (length accepted)) added,
          dset name (int (length incoming) - int (length accepted)) not_accumulated))"

definition stale_revision :: "'g accumulator \<Rightarrow> string \<Rightarrow> bool" where
  "stale_revision a rv \<longleftrightarrow> ta_checkpoint_revision a \<noteq> None \<and> ta_checkpoint_revision a \<noteq> Some rv"

definition add_window ::
  "'g accumulator \<Rightarrow> (string, 'g list) dict \<Rightarrow> int \<Rightarrow> string \<Rightarrow> ('g accumulator \<times> add_window_report) res" where
  "add_window a batches window_n checkpoint_revision =
     (if \<not> set (dkeys batches) \<subseteq> set (dkeys (ta_targets a))
      then Inl (ValueError ''unknown training environments'')
      else
        let stale = stale_revision a checkpoint_revision;
            reset_snapshot = (if stale then Some (snd (reset a)) else None);
            a1 = (if stale then fst (reset a) else a)\<lparr>ta_checkpoint_revision := Some checkpoint_revision\<rparr>;
            counts_before = map (\<lambda>(name, _). (name, int (length (dget_or (ta_groups a1) name [])))) (ta_targets a1);
            (a2, added, not_accumulated) = fold (add_env batches window_n) (ta_targets a1) (a1, [], [])
        in Inr (a2, \<lparr>aw_checkpoint_reset = reset_snapshot, aw_counts_before = counts_before,
                     aw_added = added, aw_not_accumulated = not_accumulated,
                     aw_snapshot = accumulator_snapshot_of a2\<rparr>))"

definition env_order_ok :: "'g accumulator \<Rightarrow> string list \<Rightarrow> bool" where
  "env_order_ok a env_order \<longleftrightarrow>
     set env_order = set (dkeys (ta_targets a)) \<and> length env_order = length (ta_targets a)"

definition batches_in_order :: "'g accumulator \<Rightarrow> string list \<Rightarrow> 'g list list" where
  "batches_in_order a env_order =
     map (\<lambda>name. take (nat (dget_or (ta_targets a) name 0)) (dget_or (ta_groups a) name [])) env_order"

definition held_groups :: "'g accumulator \<Rightarrow> string list \<Rightarrow> 'g list list res" where
  "held_groups a env_order =
     (if \<not> env_order_ok a env_order
      then Inl (ValueError ''training environment order does not match accumulator'')
      else Inr (batches_in_order a env_order))"

definition training_batches :: "'g accumulator \<Rightarrow> string list \<Rightarrow> bool \<Rightarrow> 'g list list res" where
  "training_batches a env_order allow_partial =
     (if \<not> ready a \<and> \<not> (allow_partial \<and> has_groups_for_all_targets a)
      then Inl (RuntimeError ''balanced training accumulator is not ready'')
      else if \<not> env_order_ok a env_order
      then Inl (ValueError ''training environment order does not match accumulator'')
      else Inr (batches_in_order a env_order))"

section \<open>Invariant\<close>

definition ta_inv :: "'g accumulator \<Rightarrow> bool" where
  "ta_inv a \<longleftrightarrow>
     ta_targets a \<noteq> [] \<and> dict_ok (ta_targets a) \<and> list_all (\<lambda>(_, t). 0 \<le> t) (ta_targets a)
     \<and> dkeys (ta_groups a) = dkeys (ta_targets a) \<and> dkeys (ta_source_windows a) = dkeys (ta_targets a)
     \<and> (\<forall>e. int (length (dget_or (ta_groups a) e [])) \<le> max 0 (dget_or (ta_targets a) e 0))"

lemma dkeys_map_const [simp]: "map (fst \<circ> (\<lambda>(name, _). (name, x))) d = dkeys d"
  by (induction d) auto

lemma dget_or_map_const: "dget_or (map (\<lambda>(name, _). (name, [])) d) e [] = []"
  by (induction d) (auto simp: dget_or_Cons)

lemma ta_inv_init: "dict_ok targets \<Longrightarrow> BalancedTrainingAccumulator targets = Inr a \<Longrightarrow> ta_inv a"
  by (force simp: BalancedTrainingAccumulator_def ta_inv_def dget_or_map_const list_ex_iff list_all_iff
      split: if_splits)

lemma ta_inv_reset: "ta_inv a \<Longrightarrow> ta_inv (fst (reset a))"
  by (auto simp: ta_inv_def reset_def dget_or_map_const)

lemma ta_inv_revision: "ta_inv a \<Longrightarrow> ta_inv (a\<lparr>ta_checkpoint_revision := r\<rparr>)"
  by (simp add: ta_inv_def)

text \<open>What a turn adds: the prefix of the incoming groups that still fits.\<close>

definition accepted_of :: "(string, 'g list) dict \<Rightarrow> int \<Rightarrow> 'g list \<Rightarrow> string \<Rightarrow> 'g list" where
  "accepted_of batches target held name = take (nat (target - int (length held))) (dget_or batches name [])"

lemma accepted_len:
  "int (length (held @ accepted_of batches target held name)) \<le> max (int (length held)) target"
  by (simp add: accepted_of_def)

lemma add_env_result:
  assumes "add_env batches w (name, target) (a, ad, na) = (a', ad', na')"
    and "has_key (ta_groups a) name" and "has_key (ta_source_windows a) name"
  shows "dget_or (ta_groups a') e [] =
      (if e = name then dget_or (ta_groups a) name [] @ accepted_of batches target (dget_or (ta_groups a) name []) name
       else dget_or (ta_groups a) e [])
    \<and> dkeys (ta_groups a') = dkeys (ta_groups a) \<and> dkeys (ta_source_windows a') = dkeys (ta_source_windows a)
    \<and> ta_targets a' = ta_targets a \<and> ta_checkpoint_revision a' = ta_checkpoint_revision a
    \<and> ad' = dset name (int (length (accepted_of batches target (dget_or (ta_groups a) name []) name))) ad
    \<and> na' = dset name (int (length (dget_or batches name []))
             - int (length (accepted_of batches target (dget_or (ta_groups a) name []) name))) na"
proof -
  have acc: "take (nat (max 0 (target - int (length (dget_or (ta_groups a) name []))))) (dget_or batches name [])
      = accepted_of batches target (dget_or (ta_groups a) name []) name"
    by (simp add: accepted_of_def max_def)
  show ?thesis
    using assms unfolding add_env_def Let_def case_prod_conv acc
    by (auto simp: dkeys_dset_has_key)
qed

text \<open>The whole loop: each target's environment gets its accepted prefix, and nothing else moves.\<close>

lemma add_envs_result:
  assumes "fold (add_env batches w) ts (a, ad, na) = (a', ad', na')"
    and "dict_ok ts" and "\<And>k. has_key ts k \<Longrightarrow> has_key (ta_groups a) k"
    and "\<And>k. has_key ts k \<Longrightarrow> has_key (ta_source_windows a) k"
  shows "dget_or (ta_groups a') e [] =
      (case dget ts e of
         Some target \<Rightarrow> dget_or (ta_groups a) e [] @ accepted_of batches target (dget_or (ta_groups a) e []) e
       | None \<Rightarrow> dget_or (ta_groups a) e [])
    \<and> dkeys (ta_groups a') = dkeys (ta_groups a) \<and> dkeys (ta_source_windows a') = dkeys (ta_source_windows a)
    \<and> ta_targets a' = ta_targets a \<and> ta_checkpoint_revision a' = ta_checkpoint_revision a
    \<and> dget_or ad' e 0 =
      (case dget ts e of
         Some target \<Rightarrow> int (length (accepted_of batches target (dget_or (ta_groups a) e []) e))
       | None \<Rightarrow> dget_or ad e 0)
    \<and> dget_or na' e 0 =
      (case dget ts e of
         Some target \<Rightarrow> int (length (dget_or batches e []))
            - int (length (accepted_of batches target (dget_or (ta_groups a) e []) e))
       | None \<Rightarrow> dget_or na e 0)"
  using assms
proof (induction ts arbitrary: a ad na)
  case (Cons t ts)
  obtain name target where t: "t = (name, target)" by (cases t)
  obtain b bd bn where b: "add_env batches w t (a, ad, na) = (b, bd, bn)" by (metis prod_cases3)
  have in_keys: "has_key (ta_groups a) name" "has_key (ta_source_windows a) name"
    using Cons.prems(3,4) t by auto
  note step = add_env_result [OF b [unfolded t] in_keys]
  have rest: "fold (add_env batches w) ts (b, bd, bn) = (a', ad', na')" using Cons.prems(1) b by simp
  have fresh: "\<not> has_key ts name" "dict_ok ts" using Cons.prems(2) t by (auto simp: has_key_def)
  have "has_key (ta_groups b) k" "has_key (ta_source_windows b) k" if "has_key ts k" for k
    using Cons.prems(3,4) step t that by (metis has_key_same_keys has_key_Cons)+
  note IH = Cons.IH [OF rest fresh(2) this]
  have none: "dget ts name = None" using fresh(1) by (simp add: has_key_dget)
  show ?case
  proof (cases "e = name")
    case True
    with IH step none t show ?thesis by simp
  next
    case False
    with IH step t show ?thesis by (simp split: option.splits)
  qed
qed simp


definition held_after_reset :: "'g accumulator \<Rightarrow> string \<Rightarrow> string \<Rightarrow> 'g list" where
  "held_after_reset a rv e = (if stale_revision a rv then [] else dget_or (ta_groups a) e [])"

lemma add_window_result:
  assumes inv: "ta_inv a" and add: "add_window a batches w rv = Inr (a', rep)"
  shows "ta_inv a' \<and> ta_targets a' = ta_targets a \<and> ta_checkpoint_revision a' = Some rv
    \<and> (\<forall>e. dget_or (ta_groups a') e [] =
         (if has_key (ta_targets a) e
          then held_after_reset a rv e @
               accepted_of batches (dget_or (ta_targets a) e 0) (held_after_reset a rv e) e
          else []))
    \<and> (\<forall>e. has_key (ta_targets a) e \<longrightarrow>
         dget_or (aw_added rep) e 0 + dget_or (aw_not_accumulated rep) e 0 = int (length (dget_or batches e [])))"
proof -
  let ?a1 = "(if stale_revision a rv then fst (reset a) else a)\<lparr>ta_checkpoint_revision := Some rv\<rparr>"
  have inv1: "ta_inv ?a1" using inv ta_inv_reset ta_inv_revision by (simp add: ta_inv_revision ta_inv_reset)
  have targets1: "ta_targets ?a1 = ta_targets a" by (simp add: reset_def)
  obtain ad na where f: "fold (add_env batches w) (ta_targets ?a1) (?a1, [], []) = (a', ad, na)"
    and rep: "aw_added rep = ad" "aw_not_accumulated rep = na"
  proof -
    obtain x ad na where f: "fold (add_env batches w) (ta_targets ?a1) (?a1, [], []) = (x, ad, na)"
      by (metis prod_cases3)
    moreover have "x = a'" "aw_added rep = ad" "aw_not_accumulated rep = na"
      using add unfolding add_window_def Let_def f by (auto split: if_splits)
    ultimately show thesis using that by blast
  qed
  have keys1: "dkeys (ta_groups ?a1) = dkeys (ta_targets a)" "dkeys (ta_source_windows ?a1) = dkeys (ta_targets a)"
    using inv1 targets1 unfolding ta_inv_def by metis+
  have ok1: "dict_ok (ta_targets ?a1)" using inv1 by (simp add: ta_inv_def)
  have has: "has_key (ta_groups ?a1) k" "has_key (ta_source_windows ?a1) k" if "has_key (ta_targets ?a1) k" for k
    using that keys1 targets1 by (metis has_key_same_keys)+
  note r = add_envs_result [OF f ok1 has]
  have held: "dget_or (ta_groups ?a1) e [] = held_after_reset a rv e" for e
    by (simp add: held_after_reset_def reset_def dget_or_map_const)
  have absent: "dget_or (ta_groups ?a1) e [] = []" if "\<not> has_key (ta_targets a) e" for e
    using that keys1(1) by (metis dget_or_notin has_key_def)
  have groups: "dget_or (ta_groups a') e [] =
      (if has_key (ta_targets a) e
       then held_after_reset a rv e @
            accepted_of batches (dget_or (ta_targets a) e 0) (held_after_reset a rv e) e
       else [])" for e
    using r [of e, THEN conjunct1, unfolded held targets1] absent [of e, unfolded held]
    by (cases "dget (ta_targets a) e") (simp_all add: has_key_dget dget_or_Some)
  have capped: "int (length (dget_or (ta_groups a') e [])) \<le> max 0 (dget_or (ta_targets a) e 0)" for e
  proof (cases "has_key (ta_targets a) e")
    case True
    have "int (length (held_after_reset a rv e)) \<le> max 0 (dget_or (ta_targets a) e 0)"
      using inv by (simp add: ta_inv_def held_after_reset_def)
    with groups [of e] True accepted_len [of "held_after_reset a rv e" batches "dget_or (ta_targets a) e 0" e]
    show ?thesis by simp
  qed (use groups [of e] in simp)
  have "ta_targets a' = ta_targets a" "ta_checkpoint_revision a' = Some rv"
    "dkeys (ta_groups a') = dkeys (ta_targets a)" "dkeys (ta_source_windows a') = dkeys (ta_targets a)"
    using r targets1 keys1 by (simp_all del: map_map)
  moreover from this have "ta_inv a'" using inv capped by (simp add: ta_inv_def)
  moreover have "dget_or ad e 0 + dget_or na e 0 = int (length (dget_or batches e []))"
    if "has_key (ta_targets a) e" for e
    using r [of e, THEN conjunct2] that
    by (cases "dget (ta_targets a) e") (simp_all add: targets1 has_key_dget)
  ultimately show ?thesis using groups rep by simp
qed

section \<open>Properties\<close>

text \<open>
  C40. One clean window is added as far as each environment still needs: groups of another checkpoint
  are dropped first, then the batch keeps the longest prefix of the incoming groups that fits the
  target, and the report accounts for every incoming group as added or not accumulated.
\<close>

theorem accumulator_add_window:
  assumes "ta_inv a" and "add_window a batches w rv = Inr (a', rep)" and "has_key (ta_targets a) e"
  shows "dget_or (ta_groups a') e [] =
      (let held = (if ta_checkpoint_revision a \<in> {None, Some rv} then dget_or (ta_groups a) e [] else [])
       in held @ take (nat (dget_or (ta_targets a) e 0 - int (length held))) (dget_or batches e []))
    \<and> int (length (dget_or (ta_groups a') e [])) \<le> dget_or (ta_targets a) e 0
    \<and> dget_or (aw_added rep) e 0 + dget_or (aw_not_accumulated rep) e 0 = int (length (dget_or batches e []))
    \<and> ta_checkpoint_revision a' = Some rv \<and> ta_inv a'"
proof -
  have r: "ta_inv a'" "ta_targets a' = ta_targets a" "ta_checkpoint_revision a' = Some rv"
      "dget_or (aw_added rep) e 0 + dget_or (aw_not_accumulated rep) e 0 = int (length (dget_or batches e []))"
    and groups: "dget_or (ta_groups a') e [] = held_after_reset a rv e @
              accepted_of batches (dget_or (ta_targets a) e 0) (held_after_reset a rv e) e"
    using add_window_result [OF assms(1,2)] assms(3) by metis+
  have pos: "0 \<le> dget_or (ta_targets a) e 0"
    using assms(1) dget_or_in [of e "ta_targets a" 0] assms(3)
    by (auto simp: ta_inv_def list_all_iff has_key_def)
  have "int (length (dget_or (ta_groups a') e [])) \<le> dget_or (ta_targets a) e 0"
    using r(1,2) pos unfolding ta_inv_def by (metis max.absorb2)
  then show ?thesis
    using r groups by (auto simp: held_after_reset_def stale_revision_def accepted_of_def Let_def)
qed

definition example_acc :: "string accumulator" where
  "example_acc = \<lparr>ta_targets = [(''math'', 2), (''code'', 1)], ta_groups = [(''math'', [''g1'']), (''code'', [])],
     ta_source_windows = [(''math'', [4]), (''code'', [])], ta_checkpoint_revision = Some ''r1''\<rparr>"

definition example_acc_next :: "string accumulator" where
  "example_acc_next = \<lparr>ta_targets = [(''math'', 2), (''code'', 1)],
     ta_groups = [(''math'', [''g1'', ''g2'']), (''code'', [''h1''])],
     ta_source_windows = [(''math'', [4, 5]), (''code'', [5])], ta_checkpoint_revision = Some ''r1''\<rparr>"

lemma example_acc_inv: "ta_inv example_acc" "ta_inv example_acc_next"
  by (auto simp: ta_inv_def example_acc_def example_acc_next_def dget_or_Cons)

lemma example_add:
  "\<exists>rep. add_window example_acc [(''code'', [''h1'', ''h2'']), (''math'', [''g2'', ''g3''])] 5 ''r1''
     = Inr (example_acc_next, rep)"
  by (simp add: add_window_def stale_revision_def example_acc_def example_acc_next_def add_env_def dget_or_Cons Let_def)

theorem accumulator_add_window_witness:
  "\<exists>rep. add_window example_acc [(''code'', [''h1'', ''h2'']), (''math'', [''g2'', ''g3''])] 5 ''r1''
      = Inr (example_acc_next, rep)
    \<and> dget_or (aw_added rep) ''math'' 0 + dget_or (aw_not_accumulated rep) ''math'' 0 = 2"
proof -
  obtain rep where rep: "add_window example_acc [(''code'', [''h1'', ''h2'']), (''math'', [''g2'', ''g3''])] 5 ''r1''
      = Inr (example_acc_next, rep)"
    using example_add by blast
  have "has_key (ta_targets example_acc) ''math''" by (simp add: example_acc_def)
  from accumulator_add_window [OF example_acc_inv(1) rep this] rep show ?thesis
    by (simp add: dget_or_Cons)
qed

text \<open>
  When the accumulator is ready, the training batches it hands out have exactly the configured
  sizes, in the requested environment order; a partial hand-out is never empty where a target is set.
\<close>

theorem training_batches_sizes:
  assumes "ta_inv a" and "training_batches a env_order allow_partial = Inr batches"
  shows "(ready a \<longrightarrow> map (\<lambda>b. int (length b)) batches = map (\<lambda>e. dget_or (ta_targets a) e 0) env_order)
    \<and> length batches = length env_order
    \<and> (\<forall>i < length env_order. batches ! i = [] \<longrightarrow> dget_or (ta_targets a) (env_order ! i) 0 = 0)"
proof -
  have order: "set env_order = set (dkeys (ta_targets a))" and b: "batches = batches_in_order a env_order"
    and fill: "ready a \<or> has_groups_for_all_targets a"
    using assms(2) by (auto simp: training_batches_def env_order_ok_def split: if_splits)
  have target: "(e, dget_or (ta_targets a) e 0) \<in> set (ta_targets a)" if "e \<in> set env_order" for e
    using order that by (simp only: dget_or_in)
  have nonneg: "0 \<le> dget_or (ta_targets a) e 0" if "e \<in> set env_order" for e
    using assms(1) target [OF that] by (auto simp: ta_inv_def list_all_iff)
  have full: "dget_or (ta_targets a) e 0 \<le> int (length (dget_or (ta_groups a) e []))"
    if "ready a" "e \<in> set env_order" for e
    using that(1) target [OF that(2)] by (auto simp: ready_def list_all_iff)
  have "int (length (take (nat (dget_or (ta_targets a) e 0)) (dget_or (ta_groups a) e [])))
      = dget_or (ta_targets a) e 0" if "ready a" "e \<in> set env_order" for e
    using full [OF that] nonneg [OF that(2)] by simp
  then have sizes: "ready a \<longrightarrow> map (\<lambda>b. int (length b)) batches = map (\<lambda>e. dget_or (ta_targets a) e 0) env_order"
    by (simp add: b batches_in_order_def)
  have "dget_or (ta_targets a) e 0 = 0"
    if e: "e \<in> set env_order" and "take (nat (dget_or (ta_targets a) e 0)) (dget_or (ta_groups a) e []) = []" for e
  proof (cases "ready a")
    case True
    with full [OF True e] nonneg [OF e] that(2) show ?thesis by auto
  next
    case False
    with fill target [OF e] nonneg [OF e] that(2) show ?thesis
      by (fastforce simp: has_groups_for_all_targets_def list_all_iff)
  qed
  then show ?thesis using sizes by (simp add: b batches_in_order_def)
qed

theorem training_batches_sizes_witness:
  "training_batches example_acc_next [''code'', ''math''] False = Inr [[''h1''], [''g1'', ''g2'']]
   \<and> map (\<lambda>b. int (length b)) [[''h1''], [''g1'', ''g2'']]
       = map (\<lambda>e. dget_or (ta_targets example_acc_next) e 0) [''code'', ''math'']"
proof -
  have t: "training_batches example_acc_next [''code'', ''math''] False = Inr [[''h1''], [''g1'', ''g2'']]"
    and "ready example_acc_next"
    by (auto simp: training_batches_def ready_def env_order_ok_def batches_in_order_def example_acc_next_def
        dget_or_Cons)
  with training_batches_sizes [OF example_acc_inv(2) t] show ?thesis by blast
qed

text \<open>
  C39. Over any run of windows the accumulated batch is checkpoint consistent: if every group a
  window delivers was generated under that window's revision, every group held afterwards was
  generated under the accumulator's current revision.
\<close>

theorem accumulator_checkpoint_consistent:
  assumes "ta_inv a"
    and "\<forall>e. \<forall>g \<in> set (dget_or (ta_groups a) e []). Some (revision_of g) = ta_checkpoint_revision a"
    and "\<forall>(batches, w, rv) \<in> set run. \<forall>e. \<forall>g \<in> set (dget_or batches e []). revision_of g = rv"
    and "fold_res (\<lambda>(batches, w, rv) a. bind_res (add_window a batches w rv) (\<lambda>r. Inr (fst r))) run a = Inr a'"
  shows "ta_inv a' \<and> (\<forall>e. \<forall>g \<in> set (dget_or (ta_groups a') e []). Some (revision_of g) = ta_checkpoint_revision a')"
  using assms(4)
proof (rule fold_res_invariant [rotated 2])
  fix x s t
  assume x: "x \<in> set run"
    and s: "ta_inv s \<and> (\<forall>e. \<forall>g \<in> set (dget_or (ta_groups s) e []). Some (revision_of g) = ta_checkpoint_revision s)"
    and "(case x of (batches, w, rv) \<Rightarrow> \<lambda>a. bind_res (add_window a batches w rv) (\<lambda>r. Inr (fst r))) s = Inr t"
  then obtain batches w rv rep where run: "x = (batches, w, rv)" "add_window s batches w rv = Inr (t, rep)"
    by (cases x rule: prod_cases3) (auto simp: bind_res_Inr_iff)
  have incoming: "revision_of g = rv" if "g \<in> set (dget_or batches e [])" for e g
    using assms(3) x run(1) that by auto
  have inv: "ta_inv s" using s by blast
  have t: "ta_inv t" "ta_checkpoint_revision t = Some rv"
    and groups: "\<And>e. dget_or (ta_groups t) e [] =
        (if has_key (ta_targets s) e
         then held_after_reset s rv e @
              accepted_of batches (dget_or (ta_targets s) e 0) (held_after_reset s rv e) e
         else [])"
    using add_window_result [OF inv run(2)] by blast+
  have "revision_of g = rv" if g: "g \<in> set (dget_or (ta_groups t) e [])" for e g
  proof -
    have "g \<in> set (held_after_reset s rv e) \<or> g \<in> set (dget_or batches e [])"
      using g unfolding groups accepted_of_def by (auto split: if_splits dest: in_set_takeD)
    then show ?thesis
    proof
      assume "g \<in> set (held_after_reset s rv e)"
      then have "\<not> stale_revision s rv" "g \<in> set (dget_or (ta_groups s) e [])"
        by (auto simp: held_after_reset_def split: if_splits)
      with s have "Some (revision_of g) = ta_checkpoint_revision s" by blast
      with \<open>\<not> stale_revision s rv\<close> show ?thesis by (auto simp: stale_revision_def)
    qed (rule incoming)
  qed
  with t show "ta_inv t \<and> (\<forall>e. \<forall>g \<in> set (dget_or (ta_groups t) e []). Some (revision_of g) = ta_checkpoint_revision t)"
    by simp
qed (use assms(1,2) in blast)

theorem accumulator_checkpoint_consistent_witness:
  "ta_inv example_acc_next
   \<and> list_all (\<lambda>g. Some (if g = ''old'' then ''r0'' else ''r1'') = ta_checkpoint_revision example_acc_next)
       (dget_or (ta_groups example_acc_next) ''math'' [])"
proof -
  have "fold_res (\<lambda>(batches, w, rv) a. bind_res (add_window a batches w rv) (\<lambda>r. Inr (fst r)))
      [([(''code'', [''h1'', ''h2'']), (''math'', [''g2'', ''g3''])], 5, ''r1'')] example_acc = Inr example_acc_next"
    using example_add by auto
  from accumulator_checkpoint_consistent [OF example_acc_inv(1) _ _ this, of "\<lambda>g. if g = ''old'' then ''r0'' else ''r1''"]
  show ?thesis by (simp add: example_acc_def list_all_iff dget_or_Cons)
qed

end
