(* ===== verification/Batch_Selection.thy ===== *)
theory Batch_Selection
  imports Cooldown
begin

text \<open>
  Batch selection and emission sharing, \<^verbatim>\<open>reliquary/validator/batch_selection.py\<close>. \<open>H\<close> is SHA-256, a
  parameter: the results hold for every function from byte strings to byte strings, and the agreement
  of two validators names the collision freedom it needs. A submission carries its object identity
  (\<open>sub_id\<close>, Python's \<^verbatim>\<open>id\<close>), which only \<open>explain_batch_selection\<close> uses. Rewards are exact rationals.
\<close>

section \<open>Submissions and their keys\<close>

record submission =
  sub_id :: nat
  sub_hotkey :: string
  sub_prompt_idx :: int
  sub_merkle_root :: bytes
  sub_selection_digest :: "bytes option"
  sub_drand_round :: int

definition within_slot_key :: "(bytes \<Rightarrow> bytes) \<Rightarrow> submission \<Rightarrow> bytes" where
  "within_slot_key H sub =
     H (encode (sub_hotkey sub) @ u64_bytes (sub_prompt_idx sub)
        @ (case sub_selection_digest sub of Some d \<Rightarrow> d | None \<Rightarrow> sub_merkle_root sub))"

definition prompt_canonical_key :: "(bytes \<Rightarrow> bytes) \<Rightarrow> int \<Rightarrow> bytes" where
  "prompt_canonical_key H prompt_idx = H (u64_bytes prompt_idx)"

section \<open>Throughput rank\<close>

definition throughput_rank :: "pyval \<Rightarrow> int \<Rightarrow> int \<Rightarrow> int \<Rightarrow> int \<Rightarrow> int" where
  "throughput_rank tokens arrival_round window_open_round token_cap bucket_tokens_per_round =
     (let capped = (case py_int (if truthy tokens then tokens else PInt 0) of
                      Some t \<Rightarrow> min t token_cap
                    | None \<Rightarrow> 0);
          elapsed = max (arrival_round - window_open_round) 1;
          width = max 1 bucket_tokens_per_round
      in - (max 0 capped div (elapsed * width)))"

section \<open>Selection and distribution\<close>

type_synonym by_round = "(int, (int, submission list) dict) dict"

definition add_sub :: "submission \<Rightarrow> by_round \<Rightarrow> by_round" where
  "add_sub sub d =
     (let prompts = dget_or d (sub_drand_round sub) [];
          subs = dget_or prompts (sub_prompt_idx sub) []
      in dset (sub_drand_round sub) (dset (sub_prompt_idx sub) (subs @ [sub]) prompts) d)"

definition group_by_round :: "(submission \<Rightarrow> bool) \<Rightarrow> submission list \<Rightarrow> by_round" where
  "group_by_round cooling submissions =
     fold (\<lambda>sub d. if cooling sub then d else add_sub sub d) submissions []"

text \<open>The K miners of one slot split its share.\<close>

definition pay_slot :: "rat \<Rightarrow> submission list \<Rightarrow> (string, rat) dict \<Rightarrow> (string, rat) dict" where
  "pay_slot share slot_subs rewards =
     (let per_miner = share / of_nat (length slot_subs)
      in fold (\<lambda>sub r. dset (sub_hotkey sub) (dget_or r (sub_hotkey sub) 0 + per_miner) r) slot_subs rewards)"

record selection =
  sel_batch :: "submission list"
  sel_rewards :: "(string, rat) dict"
  sel_claimed :: "int set"

definition take_slot :: "(bytes \<Rightarrow> bytes) \<Rightarrow> int \<times> submission list \<Rightarrow> selection \<Rightarrow> selection" where
  "take_slot H slot st =
     st\<lparr>sel_batch := (case min_key (within_slot_key H) (snd slot) of
                        None \<Rightarrow> sel_batch st | Some rep \<Rightarrow> sel_batch st @ [rep]),
        sel_claimed := insert (fst slot) (sel_claimed st)\<rparr>"

definition pay :: "rat \<Rightarrow> int \<times> submission list \<Rightarrow> selection \<Rightarrow> selection" where
  "pay share slot st = st\<lparr>sel_rewards := pay_slot share (snd slot) (sel_rewards st)\<rparr>"

definition canonical_order :: "(bytes \<Rightarrow> bytes) \<Rightarrow> (int, submission list) dict \<Rightarrow> (int, submission list) dict" where
  "canonical_order H available = sort_key (\<lambda>slot. prompt_canonical_key H (fst slot)) available"

fun select_rounds ::
  "(bytes \<Rightarrow> bytes) \<Rightarrow> int \<Rightarrow> rat \<Rightarrow> by_round \<Rightarrow> int list \<Rightarrow> selection \<Rightarrow> selection res" where
  "select_rounds H b slot_share d [] st = Inr st"
| "select_rounds H b slot_share d (r # rs) st =
     (let remaining = b - int (length (sel_batch st));
          available = filter (\<lambda>slot. fst slot \<notin> sel_claimed st) (dget_or d r [])
      in if remaining \<le> 0 then Inr st
         else if available = [] then select_rounds H b slot_share d rs st
         else if \<not> list_all (\<lambda>slot. u64_ok (fst slot)) available then Inl OverflowError
         else if int (length available) \<le> remaining
         then select_rounds H b slot_share d rs
                (fold (\<lambda>slot st. take_slot H slot (pay slot_share slot st)) (canonical_order H available) st)
         else let per_prompt = of_int remaining * slot_share / of_nat (length available);
                  paid = fold (pay per_prompt) available st
              in Inr (fold (take_slot H) (take (nat remaining) (canonical_order H available)) paid))"

definition select_batch_and_distribute ::
  "(bytes \<Rightarrow> bytes) \<Rightarrow> submission list \<Rightarrow> int \<Rightarrow> cooldown_map \<Rightarrow> int \<Rightarrow> rat
   \<Rightarrow> (submission list \<times> (string, rat) dict) res" where
  "select_batch_and_distribute H submissions b cooldown current_window pool =
     (if b \<le> 0 \<or> submissions = [] then Inr ([], [])
      else let d = group_by_round (\<lambda>sub. is_in_cooldown cooldown (sub_prompt_idx sub) current_window) submissions
           in if d = [] then Inr ([], [])
              else bind_res
                     (select_rounds H b (pool / of_int b) d (sort (dkeys d))
                        \<lparr>sel_batch = [], sel_rewards = [], sel_claimed = {}\<rparr>)
                     (\<lambda>st. Inr (sel_batch st, sel_rewards st)))"

section \<open>Explanation of a selection\<close>

record sub_meta =
  accepted_into_pool :: bool
  selected_for_batch :: bool
  rewarded :: bool
  reward_amount :: rat
  payment_source :: string
  canonical_rank :: "int option"
  selection_reason :: string

type_synonym meta = "(nat, sub_meta) dict"

definition initial_meta :: "bool \<Rightarrow> submission list \<Rightarrow> meta" where
  "initial_meta fill_closed submissions =
     fold (\<lambda>sub m. dset (sub_id sub)
       \<lparr>accepted_into_pool = True, selected_for_batch = False, rewarded = False, reward_amount = 0,
        payment_source = (if fill_closed then ''fill_closed_fixed_group'' else ''slot_share''),
        canonical_rank = None, selection_reason = ''not_reached_before_batch_filled''\<rparr> m) submissions []"

definition update_meta :: "nat \<Rightarrow> (sub_meta \<Rightarrow> sub_meta) \<Rightarrow> meta \<Rightarrow> meta" where
  "update_meta i f m = (case dget m i of None \<Rightarrow> m | Some x \<Rightarrow> dset i (f x) m)"

definition cooldown_meta :: "(submission \<Rightarrow> bool) \<Rightarrow> submission list \<Rightarrow> meta \<Rightarrow> meta" where
  "cooldown_meta cooling submissions m =
     fold (\<lambda>sub m. if cooling sub
                   then update_meta (sub_id sub) (\<lambda>x. x\<lparr>selection_reason := ''prompt_in_cooldown_at_selection''\<rparr>) m
                   else m) submissions m"

text \<open>One slot: \<open>chosen\<close> says whether its prompt trains, \<open>reasons\<close> gives the two reasons of its members.\<close>

definition explain_slot ::
  "(bytes \<Rightarrow> bytes) \<Rightarrow> rat \<Rightarrow> bool \<Rightarrow> string \<Rightarrow> string \<Rightarrow> int \<Rightarrow> int \<times> submission list \<Rightarrow> meta \<Rightarrow> meta" where
  "explain_slot H share chosen rep_reason other_reason rank slot m =
     (let per_miner = share / of_nat (length (snd slot));
          rep = map_option sub_id (min_key (within_slot_key H) (snd slot))
      in fold (\<lambda>sub m. update_meta (sub_id sub)
            (\<lambda>x. x\<lparr>rewarded := True, reward_amount := per_miner, canonical_rank := Some rank,
                   selection_reason := (if chosen \<and> rep = Some (sub_id sub) then rep_reason else other_reason),
                   selected_for_batch := (if chosen \<and> rep = Some (sub_id sub) then True else selected_for_batch x)\<rparr>) m)
          (snd slot) m)"

fun explain_slots ::
  "(bytes \<Rightarrow> bytes) \<Rightarrow> rat \<Rightarrow> (int \<Rightarrow> bool) \<Rightarrow> string \<Rightarrow> string \<Rightarrow> string \<Rightarrow> int
   \<Rightarrow> (int, submission list) dict \<Rightarrow> meta \<Rightarrow> meta" where
  "explain_slots H share chosen rep_reason same_reason lost_reason rank [] m = m"
| "explain_slots H share chosen rep_reason same_reason lost_reason rank (slot # slots) m =
     explain_slots H share chosen rep_reason same_reason lost_reason (rank + 1) slots
       (explain_slot H share (chosen (fst slot)) rep_reason
          (if chosen (fst slot) then same_reason else lost_reason) (rank + 1) slot m)"

fun explain_rounds ::
  "(bytes \<Rightarrow> bytes) \<Rightarrow> int \<Rightarrow> rat \<Rightarrow> by_round \<Rightarrow> int list \<Rightarrow> int \<Rightarrow> int set \<Rightarrow> int \<Rightarrow> meta \<Rightarrow> meta res" where
  "explain_rounds H b slot_share d [] selected_count claimed rank m = Inr m"
| "explain_rounds H b slot_share d (r # rs) selected_count claimed rank m =
     (let remaining = b - selected_count;
          available = filter (\<lambda>slot. fst slot \<notin> claimed) (dget_or d r [])
      in if remaining \<le> 0 then Inr m
         else if available = [] then explain_rounds H b slot_share d rs selected_count claimed rank m
         else if \<not> list_all (\<lambda>slot. u64_ok (fst slot)) available then Inl OverflowError
         else let slots = canonical_order H available in
           if int (length slots) \<le> remaining
           then explain_rounds H b slot_share d rs (selected_count + int (length slots))
                  (claimed \<union> set (dkeys slots)) (rank + int (length slots))
                  (explain_slots H slot_share (\<lambda>_. True) ''selected_for_batch'' ''rewarded_same_prompt'' ''''
                     rank slots m)
           else let chosen = set (dkeys (take (nat remaining) slots));
                    per_prompt = of_int remaining * slot_share / of_nat (length slots)
                in Inr (explain_slots H per_prompt (\<lambda>p. p \<in> chosen) ''selected_boundary_canonical''
                     ''rewarded_same_prompt'' ''same_trigger_round_lost_canonical_ordering'' rank slots m))"

definition explain_batch_selection ::
  "(bytes \<Rightarrow> bytes) \<Rightarrow> bool \<Rightarrow> submission list \<Rightarrow> int \<Rightarrow> cooldown_map \<Rightarrow> int \<Rightarrow> rat \<Rightarrow> meta res" where
  "explain_batch_selection H fill_closed submissions b cooldown current_window pool =
     (let m0 = initial_meta fill_closed submissions;
          cooling = (\<lambda>sub. is_in_cooldown cooldown (sub_prompt_idx sub) current_window)
      in if b \<le> 0 \<or> submissions = [] then Inr m0
         else let d = group_by_round cooling submissions;
                  m1 = cooldown_meta cooling submissions m0
              in if d = [] then Inr m1
                 else explain_rounds H b (pool / of_int b) d (sort (dkeys d)) 0 {} 0 m1)"


section \<open>Grouping\<close>

lemma group_snoc:
  "group_by_round cooling (xs @ [x]) =
     (if cooling x then group_by_round cooling xs else add_sub x (group_by_round cooling xs))"
  by (simp add: group_by_round_def)

lemma add_sub_slot:
  "dget_or (dget_or (add_sub x d) r []) p [] =
     (if r = sub_drand_round x \<and> p = sub_prompt_idx x
      then dget_or (dget_or d r []) p [] @ [x] else dget_or (dget_or d r []) p [])"
  by (auto simp: add_sub_def Let_def)

lemma group_slot:
  "dget_or (dget_or (group_by_round cooling xs) r []) p [] =
     filter (\<lambda>s. \<not> cooling s \<and> sub_drand_round s = r \<and> sub_prompt_idx s = p) xs"
proof (induction xs rule: rev_induct)
  case Nil
  then show ?case by (simp add: group_by_round_def)
next
  case (snoc x xs)
  then show ?case by (auto simp: group_snoc add_sub_slot)
qed

lemma group_dict_ok:
  "dict_ok (group_by_round cooling xs) \<and> dict_ok (dget_or (group_by_round cooling xs) r [])"
proof (induction xs rule: rev_induct)
  case Nil
  then show ?case by (simp add: group_by_round_def)
next
  case (snoc x xs)
  have "dict_ok (dget_or (group_by_round cooling xs) (sub_drand_round x) [])" if "r = sub_drand_round x"
    using snoc that by simp
  with snoc show ?case by (auto simp: group_snoc add_sub_def Let_def distinct_update)
qed

lemma group_round_key:
  "has_key (group_by_round cooling xs) r \<longleftrightarrow> (\<exists>s \<in> set xs. \<not> cooling s \<and> sub_drand_round s = r)"
  by (induction xs rule: rev_induct)
    (auto simp: group_snoc add_sub_def Let_def, simp add: group_by_round_def)

lemma group_prompt_key:
  "has_key (dget_or (group_by_round cooling xs) r []) p \<longleftrightarrow>
     (\<exists>s \<in> set xs. \<not> cooling s \<and> sub_drand_round s = r \<and> sub_prompt_idx s = p)"
proof (induction xs rule: rev_induct)
  case Nil
  then show ?case by (simp add: group_by_round_def)
next
  case (snoc x xs)
  then show ?case by (auto simp: group_snoc add_sub_def Let_def)
qed

text \<open>The slots of one round: distinct prompts, each with its submissions, all of them satisfying \<open>Q\<close>.\<close>

definition slots_ok :: "(submission \<Rightarrow> bool) \<Rightarrow> (int, submission list) dict \<Rightarrow> bool" where
  "slots_ok Q slots \<longleftrightarrow>
     dict_ok slots
     \<and> (\<forall>(p, subs) \<in> set slots. subs \<noteq> [] \<and> (\<forall>s \<in> set subs. sub_prompt_idx s = p \<and> Q s))"

lemma slots_ok_Cons:
  "slots_ok Q (slot # slots) \<longleftrightarrow>
     snd slot \<noteq> [] \<and> (\<forall>s \<in> set (snd slot). sub_prompt_idx s = fst slot \<and> Q s)
     \<and> fst slot \<notin> set (dkeys slots) \<and> slots_ok Q slots"
  by (cases slot) (auto simp: slots_ok_def)

lemma group_slots_ok:
  "slots_ok (\<lambda>s. s \<in> set xs \<and> \<not> cooling s \<and> sub_drand_round s = r) (dget_or (group_by_round cooling xs) r [])"
proof -
  let ?ps = "dget_or (group_by_round cooling xs) r []"
  have ok: "dict_ok ?ps" using group_dict_ok by blast
  have "subs = filter (\<lambda>s. \<not> cooling s \<and> sub_drand_round s = r \<and> sub_prompt_idx s = p) xs \<and> subs \<noteq> []"
    if "(p, subs) \<in> set ?ps" for p subs
  proof -
    have "has_key ?ps p" using that by (force simp: has_key_def)
    moreover have "dget_or ?ps p [] = subs" using ok that by (rule dget_or_mem)
    ultimately show ?thesis using group_slot [of cooling xs r p] group_prompt_key [of cooling xs r p]
      by (auto simp: filter_empty_conv)
  qed
  then show ?thesis using ok by (fastforce simp: slots_ok_def)
qed

lemma slots_ok_filter: "slots_ok Q slots \<Longrightarrow> slots_ok Q (filter P slots)"
  by (auto simp: slots_ok_def distinct_map_filter)

lemma mset_canonical [simp]: "mset (canonical_order H slots) = mset slots"
  by (simp add: canonical_order_def)

lemma set_canonical [simp]: "set (canonical_order H slots) = set slots"
  by (simp add: canonical_order_def)

lemma length_canonical [simp]: "length (canonical_order H slots) = length slots"
  by (simp add: canonical_order_def)

lemma slots_ok_mset: "mset slots = mset slots' \<Longrightarrow> slots_ok Q slots \<Longrightarrow> slots_ok Q slots'"
proof -
  assume eq: "mset slots = mset slots'" and ok: "slots_ok Q slots"
  have "mset (dkeys slots) = mset (dkeys slots')" using eq by (simp add: mset_map)
  then have "dict_ok slots \<longleftrightarrow> dict_ok slots'" by (rule mset_eq_imp_distinct_iff)
  with ok mset_eq_setD [OF eq] show ?thesis by (simp add: slots_ok_def)
qed

lemma slots_ok_take: "slots_ok Q slots \<Longrightarrow> slots_ok Q (take n slots)"
  by (fastforce simp: slots_ok_def take_map [symmetric] dest: in_set_takeD)

section \<open>Payment\<close>

definition hotkey_count :: "string \<Rightarrow> submission list \<Rightarrow> nat" where
  "hotkey_count h subs = length (filter (\<lambda>s. sub_hotkey s = h) subs)"

lemma pay_subs:
  assumes "dict_ok rw"
  shows "dict_ok (fold (\<lambda>sub r. dset (sub_hotkey sub) (dget_or r (sub_hotkey sub) 0 + c) r) subs rw)
    \<and> dsum (fold (\<lambda>sub r. dset (sub_hotkey sub) (dget_or r (sub_hotkey sub) 0 + c) r) subs rw)
        = dsum rw + of_nat (length subs) * (c::rat)
    \<and> dget_or (fold (\<lambda>sub r. dset (sub_hotkey sub) (dget_or r (sub_hotkey sub) 0 + c) r) subs rw) h 0
        = dget_or rw h 0 + of_nat (hotkey_count h subs) * c"
  using assms
proof (induction subs arbitrary: rw)
  case (Cons s subs)
  have "dict_ok (dset (sub_hotkey s) (dget_or rw (sub_hotkey s) 0 + c) rw)" using Cons.prems by simp
  note IH = Cons.IH [OF this]
  show ?case
    using IH dsum_dset_add [OF Cons.prems, of "sub_hotkey s" c]
    by (auto simp: algebra_simps hotkey_count_def)
qed (simp add: hotkey_count_def)

lemma pay_slot_result:
  assumes "dict_ok rw" and "subs \<noteq> []"
  shows "dict_ok (pay_slot share subs rw)" and "dsum (pay_slot share subs rw) = dsum rw + share"
    and "dget_or (pay_slot share subs rw) h 0
           = dget_or rw h 0 + share * of_nat (hotkey_count h subs) / of_nat (length subs)"
  using pay_subs [OF assms(1), where c = "share / of_nat (length subs)"] assms(2)
  by (simp_all add: pay_slot_def Let_def)

section \<open>Folding over slots\<close>

definition slot_pay :: "string \<Rightarrow> rat \<Rightarrow> int \<times> submission list \<Rightarrow> rat" where
  "slot_pay h share slot = share * of_nat (hotkey_count h (snd slot)) / of_nat (length (snd slot))"

lemma pay_slots:
  assumes "slots_ok Q slots" and "dict_ok (sel_rewards st)"
  shows "dict_ok (sel_rewards (fold (pay share) slots st))
    \<and> dsum (sel_rewards (fold (pay share) slots st)) = dsum (sel_rewards st) + of_nat (length slots) * share
    \<and> dget_or (sel_rewards (fold (pay share) slots st)) h 0
        = dget_or (sel_rewards st) h 0 + sum_list (map (slot_pay h share) slots)
    \<and> sel_batch (fold (pay share) slots st) = sel_batch st
    \<and> sel_claimed (fold (pay share) slots st) = sel_claimed st"
  using assms
proof (induction slots arbitrary: st)
  case (Cons slot slots)
  then have "snd slot \<noteq> []" "slots_ok Q slots" by (auto simp: slots_ok_Cons)
  with pay_slot_result [OF Cons.prems(2), of "snd slot" share] Cons.IH [of "pay share slot st"]
  show ?case by (simp add: pay_def slot_pay_def algebra_simps)
qed simp

text \<open>The representatives the slots put into the training batch.\<close>

definition reps :: "(bytes \<Rightarrow> bytes) \<Rightarrow> (int, submission list) dict \<Rightarrow> submission list" where
  "reps H slots = map (\<lambda>slot. the (min_key (within_slot_key H) (snd slot))) slots"

lemma reps_simps [simp]:
  "reps H [] = []" "reps H (slot # slots) = the (min_key (within_slot_key H) (snd slot)) # reps H slots"
  by (simp_all add: reps_def)

lemma length_reps [simp]: "length (reps H slots) = length slots"
  by (simp add: reps_def)

lemma rep_mem:
  assumes "subs \<noteq> []"
  shows "\<exists>x \<in> set subs. min_key f subs = Some x"
  using assms min_key_mem by (cases "min_key f subs") fastforce+

lemma take_slots:
  assumes "slots_ok Q slots"
  shows "sel_batch (fold (take_slot H) slots st) = sel_batch st @ reps H slots
    \<and> sel_claimed (fold (take_slot H) slots st) = sel_claimed st \<union> set (dkeys slots)
    \<and> sel_rewards (fold (take_slot H) slots st) = sel_rewards st"
  using assms
proof (induction slots arbitrary: st)
  case (Cons slot slots)
  then have "snd slot \<noteq> []" "slots_ok Q slots" by (auto simp: slots_ok_Cons)
  with rep_mem [of "snd slot" "within_slot_key H"] Cons.IH [of "take_slot H slot st"]
  show ?case by (auto simp: take_slot_def)
qed simp

lemma pay_take_slots:
  assumes "slots_ok Q slots" and "dict_ok (sel_rewards st)"
  shows "fold (\<lambda>slot st. take_slot H slot (pay share slot st)) slots st
    = fold (take_slot H) slots (fold (pay share) slots st)"
proof -
  have comm: "take_slot H a (pay share b s) = pay share b (take_slot H a s)" for a b s
    by (simp add: take_slot_def pay_def split: option.splits)
  have swap: "fold (pay share) slots (take_slot H a s) = take_slot H a (fold (pay share) slots s)" for a s slots
    by (induction slots arbitrary: s) (simp_all add: comm [symmetric])
  show ?thesis
    by (induction slots arbitrary: st) (simp_all add: swap)
qed

lemma reps_props:
  assumes "slots_ok Q slots"
  shows "map sub_prompt_idx (reps H slots) = dkeys slots" and "s \<in> set (reps H slots) \<Longrightarrow> Q s"
    and "s \<in> set (reps H slots) \<Longrightarrow> \<exists>slot \<in> set slots. s \<in> set (snd slot)"
  using assms
proof (induction slots)
  case (Cons slot slots)
  {
    case 1
    then show ?case using Cons rep_mem [of "snd slot" "within_slot_key H"] by (auto simp: slots_ok_Cons)
  next
    case 2
    then show ?case using Cons rep_mem [of "snd slot" "within_slot_key H"] by (auto simp: slots_ok_Cons)
  next
    case 3
    then show ?case using Cons rep_mem [of "snd slot" "within_slot_key H"] by (auto simp: slots_ok_Cons)
  }
qed simp_all


section \<open>The rounds\<close>

definition sel_inv :: "(submission \<Rightarrow> bool) \<Rightarrow> int \<Rightarrow> rat \<Rightarrow> selection \<Rightarrow> bool" where
  "sel_inv Q b slot_share st \<longleftrightarrow>
     distinct (map sub_prompt_idx (sel_batch st))
     \<and> sel_claimed st = set (map sub_prompt_idx (sel_batch st))
     \<and> (\<forall>s \<in> set (sel_batch st). Q s)
     \<and> int (length (sel_batch st)) \<le> b
     \<and> dict_ok (sel_rewards st)
     \<and> dsum (sel_rewards st) = of_nat (length (sel_batch st)) * slot_share"

lemma fresh_slots:
  "slots_ok Q (filter (\<lambda>slot. fst slot \<notin> claimed) slots)
   \<Longrightarrow> set (dkeys (filter (\<lambda>slot. fst slot \<notin> claimed) slots)) \<inter> claimed = {}"
  by auto

lemma claim_slots_inv:
  assumes inv: "sel_inv Q b slot_share st" and ok: "slots_ok Q slots"
    and fresh: "set (dkeys slots) \<inter> sel_claimed st = {}"
    and paid: "sel_batch paid = sel_batch st" "sel_claimed paid = sel_claimed st" "dict_ok (sel_rewards paid)"
      "dsum (sel_rewards paid) = dsum (sel_rewards st) + of_nat (length slots) * slot_share"
    and room: "int (length (sel_batch st)) + int (length slots) \<le> b"
  shows "sel_inv Q b slot_share (fold (take_slot H) slots paid)"
proof -
  note t = take_slots [OF ok, of H paid] and k = reps_props [OF ok, where H = H]
  have "distinct (map sub_prompt_idx (sel_batch st @ reps H slots))"
    using inv ok fresh k(1) by (auto simp: sel_inv_def slots_ok_def)
  moreover have "sel_claimed (fold (take_slot H) slots paid) = set (map sub_prompt_idx (sel_batch st @ reps H slots))"
    using inv t paid k(1) unfolding sel_inv_def by (simp only: map_append set_append)
  ultimately show ?thesis
    using inv t k(2) paid room by (auto simp: sel_inv_def algebra_simps)
qed

definition available_slots :: "by_round \<Rightarrow> int \<Rightarrow> selection \<Rightarrow> (int, submission list) dict" where
  "available_slots d r st = filter (\<lambda>slot. fst slot \<notin> sel_claimed st) (dget_or d r [])"

text \<open>
  The four ways a round can go: the batch is already full, the round has nothing new, every new prompt
  gets a slot, or the round is the boundary round, which pays all its prompts and takes the first ones.
\<close>

lemma select_rounds_cases:
  assumes sel: "select_rounds H b slot_share d (r # rs) st = Inr st'"
    and rw: "dict_ok (sel_rewards st)" and ok: "slots_ok Q (dget_or d r [])"
  obtains
    (full) "b \<le> int (length (sel_batch st))" "st' = st"
  | (empty) "int (length (sel_batch st)) < b" "available_slots d r st = []"
      "select_rounds H b slot_share d rs st = Inr st'"
  | (all) "int (length (sel_batch st)) < b" "available_slots d r st \<noteq> []"
      "list_all (\<lambda>slot. u64_ok (fst slot)) (available_slots d r st)"
      "int (length (sel_batch st)) + int (length (available_slots d r st)) \<le> b"
      "select_rounds H b slot_share d rs
         (fold (take_slot H) (canonical_order H (available_slots d r st))
           (fold (pay slot_share) (canonical_order H (available_slots d r st)) st)) = Inr st'"
  | (boundary) "int (length (sel_batch st)) < b"
      "list_all (\<lambda>slot. u64_ok (fst slot)) (available_slots d r st)"
      "b < int (length (sel_batch st)) + int (length (available_slots d r st))"
      "st' = fold (take_slot H)
               (take (nat (b - int (length (sel_batch st)))) (canonical_order H (available_slots d r st)))
               (fold (pay (of_int (b - int (length (sel_batch st))) * slot_share
                           / of_nat (length (available_slots d r st)))) (available_slots d r st) st)"
proof -
  have "slots_ok Q (canonical_order H (available_slots d r st))"
    unfolding available_slots_def by (rule slots_ok_mset [OF _ slots_ok_filter [OF ok]]) simp
  note fuse = pay_take_slots [OF this rw]
  show ?thesis
    using sel
    by (auto simp: Let_def available_slots_def [symmetric] fuse split: if_splits
        intro: full empty all boundary)
qed

lemma available_slots_ok:
  assumes "slots_ok Q (dget_or d r [])"
  shows "slots_ok Q (available_slots d r st)" and "set (dkeys (available_slots d r st)) \<inter> sel_claimed st = {}"
  using slots_ok_filter [OF assms] by (auto simp: available_slots_def)

lemma canonical_slots_ok:
  assumes "slots_ok Q (dget_or d r [])"
  shows "slots_ok Q (canonical_order H (available_slots d r st))"
    and "set (dkeys (canonical_order H (available_slots d r st))) \<inter> sel_claimed st = {}"
  using slots_ok_mset [OF mset_canonical [symmetric] available_slots_ok(1) [OF assms]]
    available_slots_ok(2) [OF assms] by auto

lemma boundary_pay:
  assumes "slots_ok Q slots" and "dict_ok (sel_rewards st)" and "0 < n" and "n < int (length slots)"
  shows "dsum (sel_rewards (fold (pay (of_int n * share / of_nat (length slots))) slots st))
    = dsum (sel_rewards st) + of_nat (nat n) * share"
proof -
  have "of_nat (length slots) * (of_int n * share / of_nat (length slots)) = of_int n * share"
    using assms(3,4) by (cases slots) auto
  also have "\<dots> = of_nat (nat n) * share" using assms(3) by simp
  finally show ?thesis using pay_slots [OF assms(1,2)] by presburger
qed

lemma select_rounds_inv:
  assumes "select_rounds H b slot_share d rs st = Inr st'"
    and "sel_inv Q b slot_share st" and "\<And>r. slots_ok Q (dget_or d r [])"
  shows "sel_inv Q b slot_share st'"
  using assms(1,2)
proof (induction rs arbitrary: st)
  case (Cons r rs)
  let ?av = "available_slots d r st"
  note ok = available_slots_ok [OF assms(3), where r = r and st = st]
    and can = canonical_slots_ok [OF assms(3), where r = r and st = st and H = H]
  have rw: "dict_ok (sel_rewards st)" using Cons.prems(2) by (simp add: sel_inv_def)
  from Cons.prems(1) rw assms(3) show ?case
  proof (cases rule: select_rounds_cases)
    case all
    note p = pay_slots [OF can(1) rw, of slot_share]
    have "sel_inv Q b slot_share (fold (take_slot H) (canonical_order H ?av)
        (fold (pay slot_share) (canonical_order H ?av) st))"
      by (rule claim_slots_inv [OF Cons.prems(2) can]) (use p all in auto)
    with all(5) show ?thesis by (rule Cons.IH)
  next
    case boundary
    let ?rem = "b - int (length (sel_batch st))"
    let ?paid = "fold (pay (of_int ?rem * slot_share / of_nat (length ?av))) ?av st"
    let ?ch = "take (nat ?rem) (canonical_order H ?av)"
    note p = pay_slots [OF ok(1) rw] and total = boundary_pay [OF ok(1) rw, of ?rem slot_share]
    show ?thesis unfolding boundary(4)
    proof (rule claim_slots_inv [OF Cons.prems(2) slots_ok_take [OF can(1)]])
      show "set (dkeys ?ch) \<inter> sel_claimed st = {}"
        using can(2) by (fastforce simp: take_map [symmetric] dest: in_set_takeD)
    qed (use p total boundary(1,3) in auto)
  qed (use Cons in auto)
qed simp

lemma select_inv:
  assumes "select_batch_and_distribute H subs b cd c pool = Inr (batch, rewards)" and "0 \<le> b"
  shows "\<exists>st. sel_inv (\<lambda>s. s \<in> set subs \<and> \<not> is_in_cooldown cd (sub_prompt_idx s) c) b (pool / of_int b) st
    \<and> sel_batch st = batch \<and> sel_rewards st = rewards"
proof -
  let ?Q = "\<lambda>s. s \<in> set subs \<and> \<not> is_in_cooldown cd (sub_prompt_idx s) c"
  let ?d = "group_by_round (\<lambda>s. is_in_cooldown cd (sub_prompt_idx s) c) subs"
  let ?st = "\<lparr>sel_batch = [], sel_rewards = [], sel_claimed = {}\<rparr>"
  have start: "sel_inv ?Q b (pool / of_int b) ?st" using assms(2) by (simp add: sel_inv_def)
  have ok: "slots_ok ?Q (dget_or ?d r [])" for r
    using group_slots_ok [of subs "\<lambda>s. is_in_cooldown cd (sub_prompt_idx s) c" r]
    by (auto simp: slots_ok_def)
  consider "batch = []" "rewards = []"
    | st where "select_rounds H b (pool / of_int b) ?d (sort (dkeys ?d)) ?st = Inr st"
        "sel_batch st = batch" "sel_rewards st = rewards"
    using assms(1) by (auto simp: select_batch_and_distribute_def Let_def bind_res_Inr_iff split: if_splits)
  then show ?thesis
  proof cases
    case 1
    then show ?thesis using start by (intro exI [of _ ?st]) auto
  next
    case 2
    then show ?thesis using select_rounds_inv [OF 2(1) start ok] by blast
  qed
qed

section \<open>Priority of earlier rounds\<close>

text \<open>
  \<open>round_claims D\<close>: the rounds \<open>D\<close> are done, every prompt they carry is claimed, and each entry of the
  batch comes from the earliest round among them that carries its prompt.
\<close>

definition round_claims :: "by_round \<Rightarrow> int set \<Rightarrow> selection \<Rightarrow> bool" where
  "round_claims d D st \<longleftrightarrow>
     (\<forall>p. p \<in> sel_claimed st \<longleftrightarrow> (\<exists>r \<in> D. has_key (dget_or d r []) p))
     \<and> (\<forall>s \<in> set (sel_batch st). sub_drand_round s \<in> D
          \<and> (\<forall>r \<in> D. has_key (dget_or d r []) (sub_prompt_idx s) \<longrightarrow> sub_drand_round s \<le> r))"

definition round_priority :: "by_round \<Rightarrow> int \<Rightarrow> int set \<Rightarrow> selection \<Rightarrow> bool" where
  "round_priority d b R st \<longleftrightarrow>
     (\<forall>s \<in> set (sel_batch st). \<forall>r \<in> R. has_key (dget_or d r []) (sub_prompt_idx s) \<longrightarrow> sub_drand_round s \<le> r)
     \<and> (\<forall>r \<in> R. \<forall>p. has_key (dget_or d r []) p \<longrightarrow> p \<notin> sel_claimed st
          \<longrightarrow> int (length (sel_batch st)) = b \<and> (\<forall>s \<in> set (sel_batch st). sub_drand_round s \<le> r))"

lemma round_priority_stop:
  assumes "round_claims d D st" and "int (length (sel_batch st)) = b" and "\<forall>x \<in> D. \<forall>y \<in> E. x < y"
  shows "round_priority d b (D \<union> E) st"
  using assms unfolding round_priority_def round_claims_def by (meson UnE less_imp_le)

lemma round_claims_round:
  assumes old: "round_claims d D st" and D: "\<forall>x \<in> D. x < r"
    and keys: "\<And>p. has_key (dget_or d r []) p \<Longrightarrow> p \<notin> sel_claimed st \<Longrightarrow> has_key slots p"
    and slots: "slots_ok (\<lambda>s. sub_drand_round s = r \<and> sub_prompt_idx s \<notin> sel_claimed st
                   \<and> has_key (dget_or d r []) (sub_prompt_idx s)) slots"
  shows "round_claims d (insert r D)
    (st\<lparr>sel_batch := sel_batch st @ reps H slots, sel_claimed := sel_claimed st \<union> set (dkeys slots)\<rparr>)"
proof -
  have rep: "sub_drand_round s = r \<and> sub_prompt_idx s \<notin> sel_claimed st" if "s \<in> set (reps H slots)" for s
    using reps_props(2) [OF slots that] by blast
  have prompt: "p \<in> set (dkeys slots) \<Longrightarrow> p \<notin> sel_claimed st \<and> has_key (dget_or d r []) p" for p
    using reps_props(2) [OF slots] unfolding reps_props(1) [OF slots, symmetric, of H] by auto
  have "p \<in> sel_claimed st \<union> set (dkeys slots) \<longleftrightarrow> (\<exists>r' \<in> insert r D. has_key (dget_or d r' []) p)" for p
    using old prompt keys [of p] unfolding round_claims_def has_key_def by (metis UnCI UnE insert_iff)
  moreover have "sub_drand_round s \<in> insert r D
      \<and> (\<forall>r' \<in> insert r D. has_key (dget_or d r' []) (sub_prompt_idx s) \<longrightarrow> sub_drand_round s \<le> r')"
    if "s \<in> set (sel_batch st @ reps H slots)" for s
    using that old D rep [of s] unfolding round_claims_def by fastforce
  ultimately show ?thesis unfolding round_claims_def by simp
qed

lemma available_round_slots:
  assumes "slots_ok (\<lambda>s. sub_drand_round s = r) (dget_or d r [])"
  shows "slots_ok (\<lambda>s. sub_drand_round s = r \<and> sub_prompt_idx s \<notin> sel_claimed st
           \<and> has_key (dget_or d r []) (sub_prompt_idx s)) (canonical_order H (available_slots d r st))"
  using canonical_slots_ok(1) [OF assms, of H st]
  by (force simp: slots_ok_def available_slots_def has_key_def)

lemma round_priority_boundary:
  assumes old: "round_claims d D st" and D: "\<forall>x \<in> D. x < r" and E: "\<forall>y \<in> E. r < y"
    and slots: "slots_ok (\<lambda>s. sub_drand_round s = r \<and> sub_prompt_idx s \<notin> sel_claimed st
                   \<and> has_key (dget_or d r []) (sub_prompt_idx s)) slots"
    and len: "int (length (sel_batch st) + length slots) = b"
    and st': "sel_batch st' = sel_batch st @ reps H slots" "sel_claimed st' = sel_claimed st \<union> set (dkeys slots)"
  shows "round_priority d b (insert r (D \<union> E)) st'"
proof -
  have rep: "sub_drand_round s = r \<and> sub_prompt_idx s \<notin> sel_claimed st" if "s \<in> set (reps H slots)" for s
    using reps_props(2) [OF slots that] by blast
  have "sub_drand_round s \<le> r'"
    if "s \<in> set (sel_batch st')" "r' \<in> insert r (D \<union> E)" "has_key (dget_or d r' []) (sub_prompt_idx s)" for s r'
    using that old D E rep [of s] unfolding round_claims_def st' by fastforce
  moreover have "int (length (sel_batch st')) = b \<and> (\<forall>s \<in> set (sel_batch st'). sub_drand_round s \<le> r')"
    if "r' \<in> insert r (D \<union> E)" "has_key (dget_or d r' []) p" "p \<notin> sel_claimed st'" for r' p
    using that old D E rep len unfolding round_claims_def st' by fastforce
  ultimately show ?thesis unfolding round_priority_def by blast
qed

lemma select_rounds_priority:
  assumes "select_rounds H b slot_share d rs st = Inr st'"
    and "round_claims d D st" and "int (length (sel_batch st)) \<le> b" and "dict_ok (sel_rewards st)"
    and "\<And>r. slots_ok (\<lambda>s. sub_drand_round s = r) (dget_or d r [])"
    and "sorted rs" and "distinct rs" and "\<forall>x \<in> D. \<forall>y \<in> set rs. x < y"
  shows "round_priority d b (D \<union> set rs) st'"
  using assms
proof (induction rs arbitrary: st D)
  case Nil
  then show ?case by (auto simp: round_priority_def round_claims_def)
next
  case (Cons r rs)
  let ?av = "available_slots d r st"
  let ?can = "canonical_order H ?av"
  note ok = available_slots_ok [OF Cons.prems(5), where r = r and st = st]
    and can = canonical_slots_ok [OF Cons.prems(5), where r = r and st = st and H = H]
  note round = available_round_slots [OF Cons.prems(5), where r = r and st = st and H = H]
  have D: "\<forall>x \<in> D. x < r" "\<forall>x \<in> insert r D. \<forall>y \<in> set rs. x < y" "\<forall>y \<in> set rs. r < y"
    using Cons.prems(6-8) by (auto simp: order_less_le)
  have keys: "has_key ?can p" if "has_key (dget_or d r []) p" "p \<notin> sel_claimed st" for p
    using that by (force simp: has_key_def available_slots_def)
  from Cons.prems(1,4,5) show ?case
  proof (cases rule: select_rounds_cases)
    case full
    then show ?thesis using round_priority_stop [OF Cons.prems(2) _ Cons.prems(8)] Cons.prems(3) by simp
  next
    case empty
    have "round_claims d (insert r D) st"
      using round_claims_round [OF Cons.prems(2) D(1) keys round, of H] empty(2)
      by (simp add: canonical_order_def)
    from Cons.IH [OF empty(3) this Cons.prems(3-5)] D(2) Cons.prems(6,7) show ?thesis by simp
  next
    case all
    let ?paid = "fold (pay slot_share) ?can st"
    note p = pay_slots [OF can(1) Cons.prems(4), of slot_share] and t = take_slots [OF can(1), of H ?paid]
    have "round_claims d (insert r D) (fold (take_slot H) ?can ?paid)"
      using round_claims_round [OF Cons.prems(2) D(1) keys round, of H] p t by (simp add: round_claims_def)
    from Cons.IH [OF all(5) this _ _ Cons.prems(5)] p t all(4) D(2) Cons.prems(6,7) show ?thesis by simp
  next
    case boundary
    let ?n = "nat (b - int (length (sel_batch st)))"
    note p = pay_slots [OF ok(1) Cons.prems(4)] and t = take_slots [OF slots_ok_take [OF can(1)]]
    have "round_priority d b (insert r (D \<union> set rs)) st'"
      by (rule round_priority_boundary [OF Cons.prems(2) D(1,3) slots_ok_take [OF round, of ?n]])
        (use p t boundary in auto)
    then show ?thesis by simp
  qed
qed

section \<open>The whole selection\<close>

lemma select_rounds_total:
  assumes "\<And>r. slots_ok (\<lambda>s. u64_ok (sub_prompt_idx s)) (dget_or d r [])"
  shows "\<exists>st'. select_rounds H b slot_share d rs st = Inr st'"
proof (induction rs arbitrary: st)
  case (Cons r rs)
  have "u64_ok (fst slot)" if "slot \<in> set (dget_or d r [])" for slot
  proof -
    from assms [of r] that have "snd slot \<noteq> []" "\<forall>s \<in> set (snd slot). sub_prompt_idx s = fst slot \<and> u64_ok (sub_prompt_idx s)"
      by (cases slot; auto simp: slots_ok_def)+
    then show ?thesis by (cases "snd slot") auto
  qed
  then have "list_all (\<lambda>slot. u64_ok (fst slot)) (filter (\<lambda>slot. fst slot \<notin> sel_claimed st) (dget_or d r []))"
    by (simp add: list_all_iff)
  with Cons.IH show ?case by (simp add: Let_def)
qed simp

definition cooling_at :: "cooldown_map \<Rightarrow> int \<Rightarrow> submission \<Rightarrow> bool" where
  "cooling_at cd c s = is_in_cooldown cd (sub_prompt_idx s) c"

abbreviation empty_selection :: selection where
  "empty_selection \<equiv> \<lparr>sel_batch = [], sel_rewards = [], sel_claimed = {}\<rparr>"

lemma select_as_rounds:
  assumes "0 < b"
  shows "select_batch_and_distribute H subs b cd c pool =
    (let d = group_by_round (cooling_at cd c) subs
     in bind_res (select_rounds H b (pool / of_int b) d (sort (dkeys d)) empty_selection)
          (\<lambda>st. Inr (sel_batch st, sel_rewards st)))"
  using assms
  by (auto simp: select_batch_and_distribute_def Let_def cooling_at_def [abs_def] group_by_round_def)

lemma group_slots_weaken:
  assumes "\<And>s. s \<in> set xs \<Longrightarrow> \<not> cooling s \<Longrightarrow> sub_drand_round s = r \<Longrightarrow> Q s"
  shows "slots_ok Q (dget_or (group_by_round cooling xs) r [])"
  using group_slots_ok [of xs cooling r] assms by (auto simp: slots_ok_def)

lemma select_priority:
  assumes "select_batch_and_distribute H subs b cd c pool = Inr (batch, rewards)" and "0 < b"
    and "t \<in> set subs" and "\<not> cooling_at cd c t"
  shows "(\<forall>s \<in> set batch. sub_prompt_idx s = sub_prompt_idx t \<longrightarrow> sub_drand_round s \<le> sub_drand_round t)
    \<and> (sub_prompt_idx t \<notin> set (map sub_prompt_idx batch) \<longrightarrow>
         int (length batch) = b \<and> (\<forall>s \<in> set batch. sub_drand_round s \<le> sub_drand_round t))"
proof -
  let ?d = "group_by_round (cooling_at cd c) subs"
  obtain st where st: "select_rounds H b (pool / of_int b) ?d (sort (dkeys ?d)) empty_selection = Inr st"
    "batch = sel_batch st"
    using assms(1) unfolding select_as_rounds [OF assms(2)] Let_def by (auto simp: bind_res_Inr_iff)
  have claims: "round_claims ?d {} empty_selection" by (simp add: round_claims_def)
  have "distinct (dkeys ?d)" using group_dict_ok by blast
  with select_rounds_priority [OF st(1) claims] assms(2)
  have prio: "round_priority ?d b (set (dkeys ?d)) st"
    by (simp add: group_slots_weaken)
  have "sel_inv (\<lambda>_. True) b (pool / of_int b) st"
    by (rule select_rounds_inv [OF st(1)]) (use assms(2) in \<open>auto simp: sel_inv_def intro: group_slots_weaken\<close>)
  then have claimed: "sel_claimed st = set (map sub_prompt_idx batch)" using st(2) by (simp add: sel_inv_def)
  have "sub_drand_round t \<in> set (dkeys ?d)" "has_key (dget_or ?d (sub_drand_round t) []) (sub_prompt_idx t)"
    unfolding has_key_def [symmetric] group_round_key group_prompt_key using assms(3,4) by blast+
  with prio show ?thesis unfolding round_priority_def claimed st(2) [symmetric] by metis
qed

section \<open>Independence of the arrival order\<close>














lemma mset_slot_pay: "mset xs = mset ys \<Longrightarrow> sum_list (map (slot_pay h share) xs) = sum_list (map (slot_pay h share) ys)"
  by (metis mset_map sum_mset_sum_list)



section \<open>The explanation mirrors the selection\<close>

definition amt :: "meta \<Rightarrow> nat \<Rightarrow> rat" where
  "amt m i = (case dget m i of None \<Rightarrow> 0 | Some x \<Rightarrow> reward_amount x)"

definition picked :: "meta \<Rightarrow> nat \<Rightarrow> bool" where
  "picked m i \<longleftrightarrow> (case dget m i of None \<Rightarrow> False | Some x \<Rightarrow> selected_for_batch x)"

definition hotkey_total :: "submission list \<Rightarrow> meta \<Rightarrow> string \<Rightarrow> rat" where
  "hotkey_total subs m h = sum_list (map (\<lambda>s. amt m (sub_id s)) (filter (\<lambda>s. sub_hotkey s = h) subs))"

lemma dget_update_meta: "dget (update_meta i f m) j = (if j = i then map_option f (dget m i) else dget m j)"
  by (simp add: update_meta_def update_conv' split: option.splits)

lemma dget_fold_update:
  assumes "distinct (map sub_id subs)"
  shows "dget (fold (\<lambda>s. update_meta (sub_id s) (f (sub_id s))) subs m) j =
    (if j \<in> sub_id ` set subs then map_option (f j) (dget m j) else dget m j)"
  using assms by (induction subs arbitrary: m) (auto simp: dget_update_meta)

lemma sum_list_overwrite:
  fixes a :: "'x \<Rightarrow> rat"
  assumes "\<forall>s \<in> set xs. P s \<longrightarrow> a s = 0"
  shows "sum_list (map (\<lambda>s. if P s then c else a s) (filter Q xs))
    = sum_list (map a (filter Q xs)) + of_nat (length (filter Q (filter P xs))) * c"
  using assms by (induction xs) (auto simp: algebra_simps)

definition slot_mark ::
  "(bytes \<Rightarrow> bytes) \<Rightarrow> rat \<Rightarrow> bool \<Rightarrow> string \<Rightarrow> string \<Rightarrow> int \<Rightarrow> int \<times> submission list \<Rightarrow> nat \<Rightarrow> sub_meta \<Rightarrow> sub_meta" where
  "slot_mark H share ch rr ro rank slot i x =
     (let rep = map_option sub_id (min_key (within_slot_key H) (snd slot))
      in x\<lparr>rewarded := True, reward_amount := share / of_nat (length (snd slot)), canonical_rank := Some rank,
           selection_reason := (if ch \<and> rep = Some i then rr else ro),
           selected_for_batch := (if ch \<and> rep = Some i then True else selected_for_batch x)\<rparr>)"

lemma explain_slot_marks:
  "explain_slot H share ch rr ro rank slot m =
     fold (\<lambda>s. update_meta (sub_id s) (slot_mark H share ch rr ro rank slot (sub_id s))) (snd slot) m"
  by (simp add: explain_slot_def slot_mark_def [abs_def] Let_def)

text \<open>One slot: its members are a part of the submissions, unpaid so far.\<close>

lemma explain_slot_result:
  assumes ids: "distinct (map sub_id subs)" and slot: "snd slot = filter P subs" "snd slot \<noteq> []"
    and keys: "\<forall>s \<in> set subs. has_key m (sub_id s)" and unpaid: "\<forall>s \<in> set subs. P s \<longrightarrow> amt m (sub_id s) = 0"
    and m'_def: "m' = explain_slot H share ch rr ro rank slot m"
  shows "\<forall>s \<in> set subs. has_key m' (sub_id s)"
    and "\<forall>s \<in> set subs. \<not> P s \<longrightarrow> amt m' (sub_id s) = amt m (sub_id s)"
    and "hotkey_total subs m' h = hotkey_total subs m h + slot_pay h share slot"
    and "\<forall>s \<in> set subs. picked m' (sub_id s) \<longleftrightarrow>
           picked m (sub_id s) \<or> ch \<and> min_key (within_slot_key H) (snd slot) = Some s"
proof -
  have inj: "inj_on sub_id (set subs)" using ids by (simp add: distinct_map)
  have dist: "distinct (map sub_id (filter P subs))" using ids by (rule distinct_map_filter)
  have mem: "sub_id s \<in> sub_id ` set (filter P subs) \<longleftrightarrow> P s" if "s \<in> set subs" for s
    using inj that by (auto dest: inj_onD)
  note get = dget_fold_update [OF dist, where m = m]
  have dget': "dget m' (sub_id s) = (if P s then map_option (slot_mark H share ch rr ro rank slot (sub_id s)) (dget m (sub_id s))
      else dget m (sub_id s))" if "s \<in> set subs" for s
    using get [of "slot_mark H share ch rr ro rank slot" "sub_id s"] mem [OF that]
    by (simp add: m'_def explain_slot_marks slot(1))
  show "\<forall>s \<in> set subs. has_key m' (sub_id s)"
    using keys by (intro ballI) (simp add: has_key_dget dget')
  show "\<forall>s \<in> set subs. \<not> P s \<longrightarrow> amt m' (sub_id s) = amt m (sub_id s)"
    by (intro ballI) (simp add: amt_def dget')
  have "amt m' (sub_id s) = (if P s then share / of_nat (length (snd slot)) else amt m (sub_id s))"
    if "s \<in> set subs" for s
    using dget' [OF that] keys that by (auto simp: amt_def has_key_dget slot_mark_def Let_def)
  then have "hotkey_total subs m' h = sum_list (map (\<lambda>s. if P s then share / of_nat (length (snd slot))
      else amt m (sub_id s)) (filter (\<lambda>s. sub_hotkey s = h) subs))"
    unfolding hotkey_total_def by (intro arg_cong [where f = sum_list] map_cong) auto
  then show "hotkey_total subs m' h = hotkey_total subs m h + slot_pay h share slot"
    using sum_list_overwrite [OF unpaid] by (simp add: hotkey_total_def slot_pay_def hotkey_count_def slot(1))
  have rep: "map_option sub_id (min_key (within_slot_key H) (snd slot)) = Some (sub_id s)
      \<longleftrightarrow> min_key (within_slot_key H) (snd slot) = Some s" if "s \<in> set subs" for s
  proof (cases "min_key (within_slot_key H) (snd slot)")
    case (Some t)
    then have "t \<in> set subs" using min_key_mem [OF Some] slot(1) by simp
    with Some inj that show ?thesis by (simp add: inj_on_eq_iff)
  qed simp
  have part: "min_key (within_slot_key H) (snd slot) = Some s \<Longrightarrow> P s" for s
    using min_key_mem [of "within_slot_key H" "snd slot" s] slot(1) by simp
  have "picked m' (sub_id s) \<longleftrightarrow> picked m (sub_id s) \<or> ch \<and> min_key (within_slot_key H) (snd slot) = Some s"
    if s: "s \<in> set subs" for s
  proof (cases "P s")
    case True
    obtain x where "dget m (sub_id s) = Some x" using keys s by (auto simp: has_key_dget)
    with True dget' [OF s] rep [OF s] show ?thesis
      by (simp add: picked_def slot_mark_def Let_def del: map_option_eq_Some) blast
  next
    case False
    with part [of s] dget' [OF s] show ?thesis by (auto simp: picked_def)
  qed
  then show "\<forall>s \<in> set subs. picked m' (sub_id s) \<longleftrightarrow>
      picked m (sub_id s) \<or> ch \<and> min_key (within_slot_key H) (snd slot) = Some s" by blast
qed

text \<open>All slots of a round; \<open>members subs\<close> says that each slot holds the submissions with its prompt.\<close>

definition members :: "submission list \<Rightarrow> (submission \<Rightarrow> bool) \<Rightarrow> (int, submission list) dict \<Rightarrow> bool" where
  "members subs P slots \<longleftrightarrow>
     dict_ok slots \<and> (\<forall>slot \<in> set slots. snd slot \<noteq> [] \<and> snd slot = filter (\<lambda>s. P s \<and> sub_prompt_idx s = fst slot) subs)"

lemma explain_slots_result:
  assumes "distinct (map sub_id subs)" and "members subs P slots"
    and "\<forall>s \<in> set subs. has_key m (sub_id s)"
    and "\<forall>s \<in> set subs. sub_prompt_idx s \<in> set (dkeys slots) \<longrightarrow> amt m (sub_id s) = 0"
    and "m' = explain_slots H share ch rr rs rl rank slots m"
  shows "(\<forall>s \<in> set subs. has_key m' (sub_id s))
    \<and> (\<forall>s \<in> set subs. sub_prompt_idx s \<notin> set (dkeys slots) \<longrightarrow> amt m' (sub_id s) = amt m (sub_id s))
    \<and> (\<forall>h. hotkey_total subs m' h = hotkey_total subs m h + sum_list (map (slot_pay h share) slots))
    \<and> (\<forall>s \<in> set subs. picked m' (sub_id s) \<longleftrightarrow>
         picked m (sub_id s) \<or> s \<in> set (reps H (filter (\<lambda>slot. ch (fst slot)) slots)))"
  using assms(2-)
proof (induction slots arbitrary: m rank)
  case (Cons slot slots)
  let ?P = "\<lambda>s. P s \<and> sub_prompt_idx s = fst slot"
  let ?m = "explain_slot H share (ch (fst slot)) rr (if ch (fst slot) then rs else rl) (rank + 1) slot m"
  have slot: "snd slot = filter ?P subs" "snd slot \<noteq> []" and rest: "members subs P slots"
    and new: "fst slot \<notin> set (dkeys slots)"
    using Cons.prems(1) by (auto simp only: members_def list.set list.map distinct.simps)
  have unpaid: "\<forall>s \<in> set subs. ?P s \<longrightarrow> amt m (sub_id s) = 0" using Cons.prems(3) by simp
  note one = explain_slot_result [OF assms(1) slot Cons.prems(2) unpaid refl,
      where H = H and share = share and ch = "ch (fst slot)" and rr = rr
        and ro = "if ch (fst slot) then rs else rl" and rank = "rank + 1"]
  have "\<forall>s \<in> set subs. sub_prompt_idx s \<in> set (dkeys slots) \<longrightarrow> amt ?m (sub_id s) = 0"
  proof (intro ballI impI)
    fix s assume s: "s \<in> set subs" "sub_prompt_idx s \<in> set (dkeys slots)"
    have "sub_prompt_idx s \<noteq> fst slot" using s(2) new by metis
    moreover have "sub_prompt_idx s \<in> set (dkeys (slot # slots))" using s(2) by simp
    ultimately show "amt ?m (sub_id s) = 0" using s(1) one(2) Cons.prems(3) by metis
  qed
  note IH = Cons.IH [OF rest one(1) this, of "rank + 1"]
  have rep: "min_key (within_slot_key H) (snd slot) = Some s \<longleftrightarrow> the (min_key (within_slot_key H) (snd slot)) = s" for s
    using slot(2) by (cases "min_key (within_slot_key H) (snd slot)") auto
  have m': "m' = explain_slots H share ch rr rs rl (rank + 1) slots ?m" using Cons.prems(4) by simp
  show ?case
    using IH [OF m'] one(2,4) unfolding rep
    by (intro conjI; auto simp: one(3))
qed simp

lemma slots_okI:
  assumes "dict_ok slots" and "\<And>slot. slot \<in> set slots \<Longrightarrow> snd slot \<noteq> []"
    and "\<And>slot s. slot \<in> set slots \<Longrightarrow> s \<in> set (snd slot) \<Longrightarrow> sub_prompt_idx s = fst slot \<and> Q s"
  shows "slots_ok Q slots"
  using assms by (force simp: slots_ok_def)

lemma members_slot:
  assumes "members subs P slots" and "slot \<in> set slots"
  shows "snd slot \<noteq> []" and "snd slot = filter (\<lambda>s. P s \<and> sub_prompt_idx s = fst slot) subs"
  using assms unfolding members_def by blast+

lemma members_reps:
  assumes "members subs P slots"
  shows "slots_ok (\<lambda>s. s \<in> set subs) slots"
proof (rule slots_okI)
  fix slot s assume slot: "slot \<in> set slots" and "s \<in> set (snd slot)"
  then have "s \<in> set (filter (\<lambda>s. P s \<and> sub_prompt_idx s = fst slot) subs)"
    using members_slot(2) [OF assms slot] by (simp only:)
  then show "sub_prompt_idx s = fst slot \<and> s \<in> set subs" by simp
qed (use assms in \<open>unfold members_def, blast+\<close>)

lemma members_canonical:
  assumes "members subs P slots"
  shows "members subs P (canonical_order H slots)"
proof -
  have "mset (dkeys (canonical_order H slots)) = mset (dkeys slots)" by (simp add: mset_map)
  then have "dict_ok (canonical_order H slots) = dict_ok slots" by (rule mset_eq_imp_distinct_iff)
  with assms show ?thesis unfolding members_def set_canonical by blast
qed

lemma slots_okD:
  assumes "slots_ok Q slots" and "slot \<in> set slots"
  shows "snd slot \<noteq> []" and "dget_or slots (fst slot) [] = snd slot"
  using assms dget_or_mem [of slots "fst slot" "snd slot" "[]"] by (force simp: slots_ok_def)+

lemma group_members:
  "members subs (\<lambda>s. \<not> cooling s \<and> sub_drand_round s = r) (available_slots (group_by_round cooling subs) r st)"
proof -
  let ?ps = "dget_or (group_by_round cooling subs) r []"
  have ok: "slots_ok (\<lambda>_. True) ?ps" by (rule group_slots_weaken) simp
  have "snd slot \<noteq> [] \<and> snd slot = filter (\<lambda>s. (\<not> cooling s \<and> sub_drand_round s = r) \<and> sub_prompt_idx s = fst slot) subs"
    if "slot \<in> set (available_slots (group_by_round cooling subs) r st)" for slot
  proof -
    have slot: "slot \<in> set ?ps" using that by (simp add: available_slots_def)
    have "snd slot = filter (\<lambda>s. \<not> cooling s \<and> sub_drand_round s = r \<and> sub_prompt_idx s = fst slot) subs"
      by (rule slots_okD(2) [OF ok slot, unfolded group_slot, symmetric])
    with slots_okD(1) [OF ok slot] show ?thesis by (simp only: conj_assoc simp_thms)
  qed
  moreover have "dict_ok (available_slots (group_by_round cooling subs) r st)"
    using available_slots_ok(1) [OF ok] unfolding slots_ok_def by blast
  ultimately show ?thesis unfolding members_def by blast
qed

text \<open>The link between the state of the selection and the state of the explanation.\<close>

definition mirror :: "submission list \<Rightarrow> selection \<Rightarrow> meta \<Rightarrow> bool" where
  "mirror subs st m \<longleftrightarrow>
     (\<forall>s \<in> set subs. has_key m (sub_id s))
     \<and> (\<forall>s \<in> set subs. picked m (sub_id s) \<longleftrightarrow> s \<in> set (sel_batch st))
     \<and> dict_ok (sel_rewards st)
     \<and> (\<forall>h. hotkey_total subs m h = dget_or (sel_rewards st) h 0)"

lemma mirror_round:
  assumes ids: "distinct (map sub_id subs)" and mem: "members subs P slots" "members subs P slots'"
    and mir: "mirror subs st m"
    and unpaid: "\<forall>s \<in> set subs. sub_prompt_idx s \<in> set (dkeys slots) \<longrightarrow> amt m (sub_id s) = 0"
    and paid: "mset slots' = mset slots" and chosen: "slots_ok Q ys"
      "set (reps H (filter (\<lambda>slot. ch (fst slot)) slots)) = set (reps H ys)"
  shows "mirror subs (fold (take_slot H) ys (fold (pay share) slots' st)) (explain_slots H share ch rr rs rl rank slots m)"
proof -
  have keys: "\<forall>s \<in> set subs. has_key m (sub_id s)" and rw: "dict_ok (sel_rewards st)"
    using mir by (simp_all add: mirror_def)
  note e = explain_slots_result [OF ids mem(1) keys unpaid refl, where H = H and share = share and ch = ch
      and rr = rr and rs = rs and rl = rl and rank = rank]
  note p = pay_slots [OF members_reps [OF mem(2)] rw, of share] and t = take_slots [OF chosen(1), of H]
  have "sum_list (map (slot_pay h share) slots') = sum_list (map (slot_pay h share) slots)" for h
    by (rule mset_slot_pay [OF paid])
  with mir e chosen(2) show ?thesis
    unfolding mirror_def by (simp add: p t)
qed

lemma filter_first_keys:
  assumes "dict_ok xs"
  shows "filter (\<lambda>x. fst x \<in> set (dkeys (take n xs))) xs = take n xs"
proof -
  have "distinct (dkeys (take n xs) @ dkeys (drop n xs))" using assms by (metis append_take_drop_id map_append)
  then have "filter (\<lambda>x. fst x \<in> set (dkeys (take n xs))) (drop n xs) = []"
    by (force simp: filter_empty_conv)
  moreover have "filter (\<lambda>x. fst x \<in> set (dkeys (take n xs))) (take n xs) = take n xs"
    by (simp add: filter_id_conv)
  ultimately show ?thesis by (metis append_Nil2 append_take_drop_id filter_append)
qed

lemma explain_rounds_mirror:
  assumes ids: "distinct (map sub_id subs)" and d: "d = group_by_round cooling subs"
    and "select_rounds H b slot_share d rs st = Inr st'" and "mirror subs st m"
    and "\<forall>s \<in> set subs. sub_prompt_idx s \<notin> sel_claimed st \<longrightarrow> amt m (sub_id s) = 0"
  shows "\<exists>m'. explain_rounds H b slot_share d rs (int (length (sel_batch st))) (sel_claimed st) rank m = Inr m'
    \<and> mirror subs st' m'"
  using assms(3-)
proof (induction rs arbitrary: st m rank)
  case (Cons r rs)
  let ?av = "available_slots d r st"
  let ?can = "canonical_order H ?av"
  have mem: "members subs (\<lambda>s. \<not> cooling s \<and> sub_drand_round s = r) ?av" unfolding d by (rule group_members)
  note can = members_canonical [OF mem, of H]
  have ok: "slots_ok (\<lambda>_. True) (dget_or d r [])" unfolding d by (rule group_slots_weaken) simp
  note slots = canonical_slots_ok [OF ok, where H = H and st = st]
  have rw: "dict_ok (sel_rewards st)" and keys: "\<forall>s \<in> set subs. has_key m (sub_id s)"
    using Cons.prems(2) by (simp_all add: mirror_def)
  have unpaid: "\<forall>s \<in> set subs. sub_prompt_idx s \<in> set (dkeys ?can) \<longrightarrow> amt m (sub_id s) = 0"
    using Cons.prems(3) slots(2) by blast
  note round = mirror_round [OF ids can _ Cons.prems(2) unpaid]
  from Cons.prems(1) rw ok show ?case
  proof (cases rule: select_rounds_cases)
    case all
    let ?m = "explain_slots H slot_share (\<lambda>_. True) ''selected_for_batch'' ''rewarded_same_prompt'' '''' rank ?can m"
    let ?st = "fold (take_slot H) ?can (fold (pay slot_share) ?can st)"
    note p = pay_slots [OF slots(1) rw, of slot_share] and t = take_slots [OF slots(1), of H]
    have claimed: "sel_claimed ?st = sel_claimed st \<union> set (dkeys ?can)" by (simp add: t p)
    have "mirror subs ?st ?m" by (rule round [OF can refl slots(1)]) simp
    moreover have "\<forall>s \<in> set subs. sub_prompt_idx s \<notin> sel_claimed ?st \<longrightarrow> amt ?m (sub_id s) = 0"
    proof (intro ballI impI)
      fix s assume s: "s \<in> set subs" "sub_prompt_idx s \<notin> sel_claimed ?st"
      then have "sub_prompt_idx s \<notin> set (dkeys ?can)" "sub_prompt_idx s \<notin> sel_claimed st"
        unfolding claimed by blast+
      with explain_slots_result [OF ids can keys unpaid refl, THEN conjunct2, THEN conjunct1] Cons.prems(3) s(1)
      show "amt ?m (sub_id s) = 0" by metis
    qed
    ultimately obtain m' where "explain_rounds H b slot_share d rs (int (length (sel_batch ?st))) (sel_claimed ?st)
        (rank + int (length ?can)) ?m = Inr m'" "mirror subs st' m'"
      using Cons.IH [OF all(5)] by blast
    then show ?thesis using all by (simp add: Let_def available_slots_def [symmetric] t p)
  next
    case boundary
    let ?n = "nat (b - int (length (sel_batch st)))"
    have "dict_ok ?can" using can unfolding members_def by blast
    then have "mirror subs st' (explain_slots H (of_int (b - int (length (sel_batch st))) * slot_share / of_nat (length ?av))
        (\<lambda>p. p \<in> set (dkeys (take ?n ?can))) ''selected_boundary_canonical''
        ''rewarded_same_prompt'' ''same_trigger_round_lost_canonical_ordering'' rank ?can m)"
      unfolding boundary(4)
      by (intro round [OF mem mset_canonical [symmetric] slots_ok_take [OF slots(1)]])
        (simp only: filter_first_keys)
    moreover have "?av \<noteq> []" using boundary(1,3) by auto
    ultimately show ?thesis using boundary by (simp add: Let_def available_slots_def [symmetric])
  qed (use Cons in \<open>auto simp: Let_def available_slots_def\<close>)
qed simp

lemma dget_initial_meta:
  "dget (initial_meta fc subs) j = (if j \<in> sub_id ` set subs then
     Some \<lparr>accepted_into_pool = True, selected_for_batch = False, rewarded = False, reward_amount = 0,
       payment_source = (if fc then ''fill_closed_fixed_group'' else ''slot_share''),
       canonical_rank = None, selection_reason = ''not_reached_before_batch_filled''\<rparr> else None)"
  unfolding initial_meta_def
  by (induction subs rule: rev_induct) (auto simp: update_conv')

lemma dget_cooldown_meta:
  "\<exists>f. dget (cooldown_meta cooling subs m) j = map_option f (dget m j)
     \<and> (\<forall>x. reward_amount (f x) = reward_amount x \<and> selected_for_batch (f x) = selected_for_batch x)"
  unfolding cooldown_meta_def
proof (induction subs arbitrary: m)
  case Nil
  show ?case by (intro exI [of _ "\<lambda>x. x"]) (simp add: option.map_ident)
next
  case (Cons s subs)
  let ?g = "\<lambda>x. x\<lparr>selection_reason := ''prompt_in_cooldown_at_selection''\<rparr>"
  let ?m = "if cooling s then update_meta (sub_id s) ?g m else m"
  obtain f where f: "dget (fold (\<lambda>s m. if cooling s then update_meta (sub_id s) ?g m else m) subs ?m) j = map_option f (dget ?m j)"
    "\<forall>x. reward_amount (f x) = reward_amount x \<and> selected_for_batch (f x) = selected_for_batch x"
    using Cons.IH [of ?m] by blast
  show ?case
  proof (cases "cooling s \<and> sub_id s = j")
    case True
    with f show ?thesis by (intro exI [of _ "f \<circ> ?g"]) (simp add: dget_update_meta option.map_comp comp_def)
  next
    case False
    with f show ?thesis by (intro exI [of _ f]) (auto simp: dget_update_meta)
  qed
qed

lemma initial_mirror:
  assumes "m = initial_meta fc subs \<or> m = cooldown_meta cooling subs (initial_meta fc subs)"
  shows "mirror subs empty_selection m \<and> (\<forall>s \<in> set subs. amt m (sub_id s) = 0)"
proof -
  have "\<exists>x. dget m (sub_id s) = Some x \<and> reward_amount x = 0 \<and> \<not> selected_for_batch x" if "s \<in> set subs" for s
    using assms dget_cooldown_meta [of cooling subs "initial_meta fc subs" "sub_id s"] that
    by (auto simp: dget_initial_meta)
  then have one: "has_key m (sub_id s) \<and> amt m (sub_id s) = 0 \<and> \<not> picked m (sub_id s)" if "s \<in> set subs" for s
    using that by (fastforce simp: has_key_dget amt_def picked_def)
  then have "hotkey_total subs m h = 0" for h
    unfolding hotkey_total_def by (induction subs) auto
  with one show ?thesis by (simp add: mirror_def)
qed

lemma select_rounds_of_group:
  assumes "\<forall>s \<in> set subs. u64_ok (sub_prompt_idx s)"
  shows "\<exists>st. select_rounds H b share (group_by_round cooling subs) rs st0 = Inr st"
  using assms by (intro select_rounds_total group_slots_weaken) blast

lemma select_result:
  assumes "0 < b" and "\<forall>s \<in> set subs. u64_ok (sub_prompt_idx s)"
  obtains st where "select_rounds H b (pool / of_int b) (group_by_round (cooling_at cd c) subs)
      (sort (dkeys (group_by_round (cooling_at cd c) subs))) empty_selection = Inr st"
    and "select_batch_and_distribute H subs b cd c pool = Inr (sel_batch st, sel_rewards st)"
proof -
  obtain st where st: "select_rounds H b (pool / of_int b) (group_by_round (cooling_at cd c) subs)
      (sort (dkeys (group_by_round (cooling_at cd c) subs))) empty_selection = Inr st"
    using select_rounds_of_group [OF assms(2)] by blast
  moreover have "select_batch_and_distribute H subs b cd c pool = Inr (sel_batch st, sel_rewards st)"
    unfolding select_as_rounds [OF assms(1)] Let_def st by simp
  ultimately show thesis by (rule that)
qed

section \<open>Properties\<close>

text \<open>
  C2. The selection never fails on prompt indices that fit eight unsigned bytes, and what it returns is
  sound and conserves emission: at most \<open>b\<close> entries with distinct prompts, each a submission of the
  window that is not in cooldown, and the rewards sum to exactly one slot share per filled slot, the
  boundary round included, so every unfilled slot is burned.
\<close>

theorem selection_conserves_emission:
  assumes "0 < b" and "\<forall>s \<in> set subs. u64_ok (sub_prompt_idx s)"
  shows "\<exists>batch rewards. select_batch_and_distribute H subs b cd c pool = Inr (batch, rewards)
    \<and> int (length batch) \<le> b \<and> distinct (map sub_prompt_idx batch)
    \<and> set batch \<subseteq> {s \<in> set subs. \<not> is_in_cooldown cd (sub_prompt_idx s) c}
    \<and> dict_ok rewards \<and> dsum rewards = of_nat (length batch) * (pool / of_int b)"
proof -
  obtain st :: selection where sel: "select_batch_and_distribute H subs b cd c pool = Inr (sel_batch st, sel_rewards st)"
    by (rule select_result [OF assms])
  from select_inv [OF this] assms(1)
  have "int (length (sel_batch st)) \<le> b \<and> distinct (map sub_prompt_idx (sel_batch st))
    \<and> set (sel_batch st) \<subseteq> {s \<in> set subs. \<not> is_in_cooldown cd (sub_prompt_idx s) c}
    \<and> dict_ok (sel_rewards st) \<and> dsum (sel_rewards st) = of_nat (length (sel_batch st)) * (pool / of_int b)"
    by (auto simp: sel_inv_def)
  with sel show ?thesis by blast
qed

definition example_subs :: "submission list" where
  "example_subs =
     [\<lparr>sub_id = 1, sub_hotkey = ''A'', sub_prompt_idx = 5, sub_merkle_root = [1], sub_selection_digest = None, sub_drand_round = 10\<rparr>,
      \<lparr>sub_id = 2, sub_hotkey = ''B'', sub_prompt_idx = 5, sub_merkle_root = [2], sub_selection_digest = None, sub_drand_round = 10\<rparr>,
      \<lparr>sub_id = 3, sub_hotkey = ''A'', sub_prompt_idx = 7, sub_merkle_root = [3], sub_selection_digest = None, sub_drand_round = 11\<rparr>,
      \<lparr>sub_id = 4, sub_hotkey = ''C'', sub_prompt_idx = 6, sub_merkle_root = [4], sub_selection_digest = None, sub_drand_round = 11\<rparr>]"

definition example_cooldown :: cooldown_map where
  "example_cooldown = \<lparr>cm_windows = 3, cm_last_batched = [(7, 8), (6, 1)]\<rparr>"

lemma example_subs_u64: "\<forall>s \<in> set example_subs. u64_ok (sub_prompt_idx s)"
  by (simp add: example_subs_def u64_ok_def)

theorem selection_conserves_emission_witness:
  "\<exists>batch rewards. select_batch_and_distribute (\<lambda>x. x) example_subs 2 example_cooldown 9 1 = Inr (batch, rewards)
    \<and> int (length batch) \<le> 2 \<and> dsum rewards = of_nat (length batch) * (1 / 2)"
  using selection_conserves_emission [OF _ example_subs_u64, where b = 2 and H = "\<lambda>x. x" and cd = example_cooldown
      and c = 9 and pool = 1] by fastforce

text \<open>
  C16. Earlier drand rounds win: an entry of the batch comes from the earliest round that carries its
  prompt, and a prompt outside cooldown is left out only when the batch is full with entries of rounds
  no later than its own, so the selection never leaves a slot empty that a candidate could fill.
\<close>

theorem selection_earliest_round_wins:
  assumes "0 < b" and "\<forall>s \<in> set subs. u64_ok (sub_prompt_idx s)"
  shows "\<exists>batch rewards. select_batch_and_distribute H subs b cd c pool = Inr (batch, rewards)
    \<and> (\<forall>t \<in> set subs. \<not> is_in_cooldown cd (sub_prompt_idx t) c \<longrightarrow>
         (\<forall>s \<in> set batch. sub_prompt_idx s = sub_prompt_idx t \<longrightarrow> sub_drand_round s \<le> sub_drand_round t)
         \<and> (sub_prompt_idx t \<notin> set (map sub_prompt_idx batch) \<longrightarrow>
              int (length batch) = b \<and> (\<forall>s \<in> set batch. sub_drand_round s \<le> sub_drand_round t)))"
proof -
  obtain st :: selection where "select_batch_and_distribute H subs b cd c pool = Inr (sel_batch st, sel_rewards st)"
    by (rule select_result [OF assms])
  with select_priority [OF this assms(1), unfolded cooling_at_def] show ?thesis by blast
qed

theorem selection_earliest_round_wins_witness:
  "\<exists>batch rewards. select_batch_and_distribute (\<lambda>x. x) example_subs 2 example_cooldown 9 1 = Inr (batch, rewards)
    \<and> (6 \<in> set (map sub_prompt_idx batch) \<or> int (length batch) = 2)"
proof -
  have "\<lparr>sub_id = 4, sub_hotkey = ''C'', sub_prompt_idx = 6, sub_merkle_root = [4], sub_selection_digest = None, sub_drand_round = 11\<rparr>
      \<in> set example_subs" "\<not> is_in_cooldown example_cooldown 6 9"
    by (simp_all add: example_subs_def example_cooldown_def is_in_cooldown_def)
  with selection_earliest_round_wins [OF _ example_subs_u64, of 2 "\<lambda>x. x" example_cooldown 9 1] show ?thesis
    by fastforce
qed



text \<open>
  C17. The explanation mirrors the selection: it succeeds on the same windows, marks as selected exactly
  the submissions of the training batch, and the reward amounts it reports for a hotkey's submissions
  add up to that hotkey's reward.
\<close>

theorem explanation_mirrors_selection:
  assumes "distinct (map sub_id subs)" and "\<forall>s \<in> set subs. u64_ok (sub_prompt_idx s)"
  shows "\<exists>batch rewards m. select_batch_and_distribute H subs b cd c pool = Inr (batch, rewards)
    \<and> explain_batch_selection H fc subs b cd c pool = Inr m
    \<and> (\<forall>s \<in> set subs. picked m (sub_id s) \<longleftrightarrow> s \<in> set batch)
    \<and> (\<forall>h. hotkey_total subs m h = dget_or rewards h 0)"
proof (cases "0 < b")
  case False
  then show ?thesis using initial_mirror [of "initial_meta fc subs" fc subs]
    by (simp add: select_batch_and_distribute_def explain_batch_selection_def mirror_def)
next
  case True
  let ?d = "group_by_round (cooling_at cd c) subs"
  let ?m0 = "initial_meta fc subs" and ?m1 = "cooldown_meta (cooling_at cd c) subs (initial_meta fc subs)"
  obtain st where st: "select_rounds H b (pool / of_int b) ?d (sort (dkeys ?d)) empty_selection = Inr st"
    "select_batch_and_distribute H subs b cd c pool = Inr (sel_batch st, sel_rewards st)"
    by (rule select_result [OF True assms(2)])
  have m1: "mirror subs empty_selection ?m1" "\<forall>s \<in> set subs. amt ?m1 (sub_id s) = 0"
    using initial_mirror [of ?m1 fc subs "cooling_at cd c"] by auto
  then obtain m where m: "explain_rounds H b (pool / of_int b) ?d (sort (dkeys ?d)) 0 {} 0 ?m1 = Inr m" "mirror subs st m"
    using explain_rounds_mirror [OF assms(1) refl st(1) m1(1), of 0] by auto
  have "explain_batch_selection H fc subs b cd c pool = Inr (if subs = [] then ?m0 else m)"
    using True m(1) by (auto simp: explain_batch_selection_def Let_def cooling_at_def [abs_def])
  moreover have "mirror subs st (if subs = [] then ?m0 else m)"
    using m(2) by (auto simp: mirror_def hotkey_total_def)
  ultimately show ?thesis using st(2) by (auto simp: mirror_def)
qed

theorem explanation_mirrors_selection_witness:
  "\<exists>batch rewards m. select_batch_and_distribute (\<lambda>x. x) example_subs 2 example_cooldown 9 1 = Inr (batch, rewards)
    \<and> explain_batch_selection (\<lambda>x. x) False example_subs 2 example_cooldown 9 1 = Inr m
    \<and> hotkey_total example_subs m ''A'' = dget_or rewards ''A'' 0"
proof -
  have "distinct (map sub_id example_subs)" by (simp add: example_subs_def)
  from explanation_mirrors_selection [OF this example_subs_u64] show ?thesis by blast
qed

text \<open>
  The throughput rank of integer token counts is never positive, never worsens with more tokens,
  gains nothing past the cap, and is length neutral: generating \<open>k\<close> times the tokens in \<open>k\<close> times the
  rounds keeps the rank, as long as the cap is not reached.
\<close>

theorem throughput_rank_fair:
  assumes "0 \<le> t" and "t \<le> t'" and "1 \<le> k" and "k * t \<le> cap" and "1 \<le> e"
  shows "throughput_rank (PInt t') a w cap wd \<le> throughput_rank (PInt t) a w cap wd
    \<and> throughput_rank (PInt t) a w cap wd \<le> 0
    \<and> throughput_rank (PInt (cap + t)) a w cap wd = throughput_rank (PInt cap) a w cap wd
    \<and> throughput_rank (PInt (k * t)) (w + k * e) w cap wd = throughput_rank (PInt t) (w + e) w cap wd"
proof -
  have rank: "throughput_rank (PInt i) a w cap wd = - (max 0 (min i cap) div (max (a - w) 1 * max 1 wd))" for i a
    by (simp add: throughput_rank_def py_int_def Let_def)
  have pos: "0 < max (a - w) 1 * max 1 wd" by simp
  have "0 \<le> t * (k - 1)" using assms(1,3) by simp
  then have t: "max 0 (min (k * t) cap) = k * t" "max 0 (min t cap) = t" using assms(1,3,4) by (auto simp: algebra_simps)
  have "1 \<le> k * e" using assms(3,5) mult_mono [of 1 k 1 e] by simp
  then have e: "max (w + k * e - w) 1 = k * e" "max (w + e - w) 1 = e" using assms(5) by simp_all
  have "k * t div (k * (e * max 1 wd)) = t div (e * max 1 wd)" using assms(3) by (intro div_mult_mult1) simp
  then have "throughput_rank (PInt (k * t)) (w + k * e) w cap wd = throughput_rank (PInt t) (w + e) w cap wd"
    unfolding rank e t by (simp only: mult.assoc)
  moreover have "max 0 (min t cap) div (max (a - w) 1 * max 1 wd) \<le> max 0 (min t' cap) div (max (a - w) 1 * max 1 wd)"
    using assms(2) by (intro zdiv_mono1 [OF _ pos]) auto
  moreover have "0 \<le> max 0 (min t cap) div (max (a - w) 1 * max 1 wd)"
    using pos by (simp only: pos_imp_zdiv_nonneg_iff max.cobounded1)
  moreover have "min (cap + t) cap = min cap cap" using assms(1) by simp
  ultimately show ?thesis unfolding rank by (simp only: neg_le_iff_le neg_le_0_iff_le simp_thms)
qed

theorem throughput_rank_fair_witness:
  "throughput_rank (PInt (3 * 500)) (100 + 3 * 4) 100 16000 10 = throughput_rank (PInt 500) (100 + 4) 100 16000 10
   \<and> throughput_rank (PInt 500) (100 + 4) 100 16000 10 = - 12"
proof -
  have "throughput_rank (PInt 500) (100 + 4) 100 16000 10 = - 12"
    by (simp add: throughput_rank_def py_int_def Let_def)
  with throughput_rank_fair [of 500 500 3 16000 4 0 100 10] show ?thesis by simp
qed

end
