(* ===== verification/Base64.thy ===== *)
theory Base64
  imports Python_Values
begin

text \<open>
  \<^verbatim>\<open>base64.b64encode\<close> and \<^verbatim>\<open>base64.b64decode(s, validate=True)\<close> of the standard library, as the open map
  of a corpus job uses them: the standard alphabet, padding only where the last group needs it.
\<close>

definition b64_char :: "nat \<Rightarrow> char" where
  "b64_char n =
     (if n < 26 then char_of (65 + n) else if n < 52 then char_of (71 + n)
      else if n < 62 then char_of (n - 4) else if n = 62 then CHR ''+'' else CHR ''/'')"

definition b64_val :: "char \<Rightarrow> nat option" where
  "b64_val c =
     (let n = of_char c
      in if 65 \<le> n \<and> n \<le> 90 then Some (n - 65) else if 97 \<le> n \<and> n \<le> 122 then Some (n - 71)
         else if 48 \<le> n \<and> n \<le> 57 then Some (n + 4) else if n = 43 then Some 62
         else if n = 47 then Some 63 else None)"

fun b64encode :: "bytes \<Rightarrow> string" where
  "b64encode [] = []"
| "b64encode [a] = [b64_char (a div 4), b64_char (a mod 4 * 16), CHR ''='', CHR ''='']"
| "b64encode [a, b] =
     [b64_char (a div 4), b64_char (a mod 4 * 16 + b div 16), b64_char (b mod 16 * 4), CHR ''='']"
| "b64encode (a # b # c # rest) =
     b64_char (a div 4) # b64_char (a mod 4 * 16 + b div 16) # b64_char (b mod 16 * 4 + c div 64)
       # b64_char (c mod 64) # b64encode rest"

text \<open>One group of four characters; padding is allowed only in the last one.\<close>

definition b64_group :: "bool \<Rightarrow> char \<Rightarrow> char \<Rightarrow> char \<Rightarrow> char \<Rightarrow> bytes option" where
  "b64_group last_group w x y z =
     (case (b64_val w, b64_val x, b64_val y, b64_val z) of
        (Some p, Some q, Some r, Some s) \<Rightarrow> Some [p * 4 + q div 16, q mod 16 * 16 + r div 4, r mod 4 * 64 + s]
      | (Some p, Some q, Some r, None) \<Rightarrow>
          if last_group \<and> z = CHR ''='' then Some [p * 4 + q div 16, q mod 16 * 16 + r div 4] else None
      | (Some p, Some q, None, None) \<Rightarrow>
          if last_group \<and> y = CHR ''='' \<and> z = CHR ''='' then Some [p * 4 + q div 16] else None
      | _ \<Rightarrow> None)"

fun b64decode :: "string \<Rightarrow> bytes option" where
  "b64decode [] = Some []"
| "b64decode (w # x # y # z # rest) =
     (case b64_group (rest = []) w x y z of
        None \<Rightarrow> None
      | Some bs \<Rightarrow> map_option ((@) bs) (b64decode rest))"
| "b64decode s = None"

lemma b64_val_char [simp]: "n < 64 \<Longrightarrow> b64_val (b64_char n) = Some n"
  by (auto simp: b64_char_def b64_val_def Let_def)

lemma b64_val_pad [simp]: "b64_val CHR ''='' = None"
  by (simp add: b64_val_def)

lemma b64encode_Nil [simp]: "b64encode bs = [] \<longleftrightarrow> bs = []"
  by (cases bs rule: b64encode.cases) auto

lemma pack_digits:
  fixes x y k :: nat
  assumes "y < k"
  shows "(x * k + y) div k = x" and "(x * k + y) mod k = y"
  using assms by simp_all

lemma b64_roundtrip: "\<forall>b \<in> set bs. b < 256 \<Longrightarrow> b64decode (b64encode bs) = Some bs"
proof (induction bs rule: b64encode.induct)
  case (2 a)
  then show ?case by (simp add: b64_group_def)
next
  case (3 a b)
  then have q: "b div 16 < 16" by auto
  note p = pack_digits [OF q, of "a mod 4"]
  have "a div 4 < 64" "a mod 4 * 16 + b div 16 < 64" "b mod 16 * 4 < 64" using 3 by auto
  with q show ?case by (simp add: b64_group_def p)
next
  case (4 a b c rest)
  then have q: "b div 16 < 16" "c div 64 < 4" by auto
  note p = pack_digits [OF q(1), of "a mod 4"] pack_digits [OF q(2), of "b mod 16"]
  have "a div 4 < 64" "a mod 4 * 16 + b div 16 < 64" "b mod 16 * 4 + c div 64 < 64" using 4(2) by auto
  with q 4 show ?case by (simp add: b64_group_def p)
qed simp

end
