(* ===== verification/Slot_Ledger.thy ===== *)
theory Slot_Ledger
  imports Base64
begin

text \<open>
  The slots of a corpus job's prompts, \<^verbatim>\<open>reliquary/corpus/slots.py\<close>: how many completions a prompt still
  accepts (\<^verbatim>\<open>SlotLedger\<close>), and the open map a miner reads (\<^verbatim>\<open>OpenMap\<close>, \<^verbatim>\<open>parse_open_map\<close>). A method that
  first checks the index returns an error value; its body on a checked position is the definition
  with the suffix \<open>_at\<close>.
\<close>

section \<open>SlotLedger\<close>

definition ATTEMPTS_PER_SLOT :: int where
  "ATTEMPTS_PER_SLOT = 3"

record slot_ledger =
  sl_start :: int
  sl_count :: int
  sl_slots :: int
  sl_consumed :: "(int, int) dict"
  sl_filled :: int
  sl_failed :: "(int, string list) dict"

definition SlotLedger :: "int \<Rightarrow> int \<Rightarrow> int \<Rightarrow> slot_ledger res" where
  "SlotLedger prompt_count slots_per_prompt prompt_start =
     (if prompt_count \<le> 0 then Inl (ValueError ''prompt_count must be positive'')
      else if slots_per_prompt \<le> 0 then Inl (ValueError ''slots_per_prompt must be positive'')
      else if prompt_start < 0 then Inl (ValueError ''prompt_start must not be negative'')
      else Inr \<lparr>sl_start = prompt_start, sl_count = prompt_count, sl_slots = slots_per_prompt,
                sl_consumed = [], sl_filled = 0, sl_failed = []\<rparr>)"

definition owns :: "slot_ledger \<Rightarrow> int \<Rightarrow> bool" where
  "owns l position \<longleftrightarrow> sl_start l \<le> position \<and> position < sl_start l + sl_count l"

definition check_index :: "slot_ledger \<Rightarrow> int \<Rightarrow> int res" where
  "check_index l index =
     (if owns l index then Inr index else Inl (IndexError ''prompt index is outside the job''))"

definition attempt_limit :: "slot_ledger \<Rightarrow> int" where
  "attempt_limit l = ATTEMPTS_PER_SLOT * sl_slots l"

text \<open>\<^verbatim>\<open>entry.split("@", 2)\<close>: three parts when the entry records its draw slot.\<close>

definition entry_slot :: "string \<Rightarrow> string option" where
  "entry_slot entry = (case split_max CHR ''@'' 2 entry of [_, slot, _] \<Rightarrow> Some slot | _ \<Rightarrow> None)"

definition entry_hotkey :: "string \<Rightarrow> string" where
  "entry_hotkey entry = (case split_max CHR ''@'' 2 entry of [_, _, hotkey] \<Rightarrow> hotkey | _ \<Rightarrow> '''')"

definition failure_id :: "string \<Rightarrow> string" where
  "failure_id entry = hd (split_max CHR ''@'' 1 entry)"

definition failed_at :: "slot_ledger \<Rightarrow> int \<Rightarrow> string list" where
  "failed_at l position = dget_or (sl_failed l) position []"

definition count_failure :: "string \<Rightarrow> int \<times> (string, int) dict \<Rightarrow> int \<times> (string, int) dict" where
  "count_failure entry acc =
     (case entry_slot entry of
        Some slot \<Rightarrow> (fst acc, dset slot (dget_or (snd acc) slot 0 + 1) (snd acc))
      | None \<Rightarrow> (fst acc + 1, snd acc))"

definition reopened_of :: "string list \<Rightarrow> int" where
  "reopened_of entries =
     (let (legacy, per_slot) = fold count_failure entries (0, [])
      in legacy + sum_list (map (\<lambda>(_, n). min n (ATTEMPTS_PER_SLOT - 1)) per_slot))"

definition capacity_at :: "slot_ledger \<Rightarrow> int \<Rightarrow> int" where
  "capacity_at l position = min (sl_slots l + reopened_of (failed_at l position)) (attempt_limit l)"

definition consumed_at :: "slot_ledger \<Rightarrow> int \<Rightarrow> int" where
  "consumed_at l position = dget_or (sl_consumed l) position 0"

definition capacity :: "slot_ledger \<Rightarrow> int \<Rightarrow> int res" where
  "capacity l index = bind_res (check_index l index) (\<lambda>position. Inr (capacity_at l position))"

definition remaining :: "slot_ledger \<Rightarrow> int \<Rightarrow> int res" where
  "remaining l index =
     bind_res (check_index l index) (\<lambda>position. Inr (capacity_at l position - consumed_at l position))"

definition failure_entry :: "string \<Rightarrow> int option \<Rightarrow> string option \<Rightarrow> string" where
  "failure_entry key slot hotkey =
     (case slot of
        None \<Rightarrow> key
      | Some s \<Rightarrow> key @ ''@'' @ int_str s @ ''@'' @ (case hotkey of None \<Rightarrow> '''' | Some h \<Rightarrow> h))"

definition record_failure ::
  "slot_ledger \<Rightarrow> int \<Rightarrow> string \<Rightarrow> int option \<Rightarrow> string option \<Rightarrow> (slot_ledger \<times> bool option) res" where
  "record_failure l index submission_id slot hotkey =
     bind_res (check_index l index) (\<lambda>position.
       let key = take 12 submission_id; failed = failed_at l position
       in if list_ex (\<lambda>entry. failure_id entry = key) failed then Inr (l, None)
          else let l' = l\<lparr>sl_failed := dset position (failed @ [failure_entry key slot hotkey]) (sl_failed l)\<rparr>
               in Inr (l', Some (capacity_at l position < capacity_at l' position)))"

definition slot_failures_at :: "slot_ledger \<Rightarrow> int \<Rightarrow> int \<Rightarrow> string list" where
  "slot_failures_at l position slot =
     map entry_hotkey (filter (\<lambda>entry. entry_slot entry = Some (int_str slot)) (failed_at l position))"

definition slot_attempt :: "slot_ledger \<Rightarrow> int \<Rightarrow> int \<Rightarrow> int res" where
  "slot_attempt l index slot =
     bind_res (check_index l index) (\<lambda>position. Inr (int (length (slot_failures_at l position slot))))"

definition draw_cursors :: "slot_ledger \<Rightarrow> int \<Rightarrow> int \<Rightarrow> int res" where
  "draw_cursors l index slots_per_prompt =
     bind_res (check_index l index) (\<lambda>position.
       let legacy = int (length (filter (\<lambda>entry. CHR ''@'' \<notin> set entry) (failed_at l position)))
       in Inr (min (slots_per_prompt + legacy) (attempt_limit l)))"

definition slot_exhausted :: "slot_ledger \<Rightarrow> int \<Rightarrow> int \<Rightarrow> bool res" where
  "slot_exhausted l index slot =
     bind_res (slot_attempt l index slot) (\<lambda>attempt. Inr (ATTEMPTS_PER_SLOT \<le> attempt))"

text \<open>
  \<^verbatim>\<open>int(slot)\<close> raises on an entry whose middle part is not a number; entries of \<open>record_failure\<close> are
  numbers. A set is traversed in the order of its first occurrences; the count does not depend on it.
\<close>

definition exhausted_slots :: "slot_ledger \<Rightarrow> int \<Rightarrow> int res" where
  "exhausted_slots l position =
     fold_res (\<lambda>slot n. bind_res (py_int_res (PStr slot)) (\<lambda>s.
         bind_res (slot_exhausted l position s) (\<lambda>full. Inr (if full then n + 1 else n))))
       (remdups (List.map_filter entry_slot (failed_at l position))) 0"

definition passing_at :: "slot_ledger \<Rightarrow> int \<Rightarrow> int" where
  "passing_at l position = consumed_at l position - int (length (failed_at l position))"

definition prompt_state :: "slot_ledger \<Rightarrow> int \<Rightarrow> string res" where
  "prompt_state l index =
     bind_res (check_index l index) (\<lambda>position.
       let passing = passing_at l position
       in if sl_slots l \<le> passing then Inr ''complete''
          else if attempt_limit l \<le> consumed_at l position then Inr ''exhausted''
          else bind_res (exhausted_slots l position) (\<lambda>n.
                 Inr (if sl_slots l \<le> passing + n then ''exhausted'' else ''open'')))"

definition prompt_counts :: "slot_ledger \<Rightarrow> (string, int) dict res" where
  "prompt_counts l =
     fold_res (\<lambda>offset counts. bind_res (prompt_state l (sl_start l + int offset)) (\<lambda>st.
         Inr (dset st (dget_or counts st 0 + 1) counts)))
       [0..<nat (sl_count l)] [(''complete'', 0), (''exhausted'', 0), (''open'', 0)]"

definition is_full :: "slot_ledger \<Rightarrow> int \<Rightarrow> bool res" where
  "is_full l index = bind_res (remaining l index) (\<lambda>n. Inr (n = 0))"

definition consume :: "slot_ledger \<Rightarrow> int \<Rightarrow> (slot_ledger \<times> int) res" where
  "consume l index =
     bind_res (check_index l index) (\<lambda>position.
       let taken = consumed_at l position; cap = capacity_at l position
       in if cap \<le> taken then Inl SlotExhausted
          else Inr (l\<lparr>sl_consumed := dset position (taken + 1) (sl_consumed l), sl_filled := sl_filled l + 1\<rparr>,
                    cap - (taken + 1)))"

definition total :: "slot_ledger \<Rightarrow> int" where
  "total l =
     sl_count l * sl_slots l
     + sum_list (map (\<lambda>(_, entries). min (reopened_of entries) (attempt_limit l - sl_slots l)) (sl_failed l))"

definition is_complete :: "slot_ledger \<Rightarrow> bool" where
  "is_complete l \<longleftrightarrow> total l \<le> sl_filled l"

definition snapshot :: "slot_ledger \<Rightarrow> (int, int) dict" where
  "snapshot l = sl_consumed l"

definition failed_snapshot :: "slot_ledger \<Rightarrow> (int, string list) dict" where
  "failed_snapshot l = map (\<lambda>(index, ids). (index, sort ids)) (filter (\<lambda>(_, ids). ids \<noteq> []) (sl_failed l))"

section \<open>Restoring a snapshot\<close>

definition failed_ids_ok :: "pyval list \<Rightarrow> bool" where
  "failed_ids_ok ids \<longleftrightarrow>
     ids \<noteq> [] \<and> distinct ids \<and> list_all (\<lambda>i. case i of PStr s \<Rightarrow> s \<noteq> [] | _ \<Rightarrow> False) ids"

definition str_of :: "pyval \<Rightarrow> string" where
  "str_of v = (case v of PStr s \<Rightarrow> s | _ \<Rightarrow> '''')"

definition unhashable :: "pyval \<Rightarrow> bool" where
  "unhashable v = (case v of PList _ \<Rightarrow> True | PDict _ \<Rightarrow> True | _ \<Rightarrow> False)"

definition restore_failed :: "pyval \<times> pyval \<Rightarrow> slot_ledger \<Rightarrow> slot_ledger res" where
  "restore_failed item l =
     bind_res (py_int_res (fst item)) (\<lambda>position.
       case snd item of
         PList ids \<Rightarrow>
           if \<not> owns l position then Inl (ValueError ''failed names prompt'')
           else if ids \<noteq> [] \<and> list_ex unhashable ids then Inl (TypeError ''unhashable type'')
           else if \<not> failed_ids_ok ids then Inl (ValueError ''failed names prompt'')
           else Inr (l\<lparr>sl_failed := dset position (map str_of ids) (sl_failed l)\<rparr>)
       | _ \<Rightarrow> Inl (ValueError ''failed names prompt''))"

definition restore_consumed :: "pyval \<times> pyval \<Rightarrow> slot_ledger \<Rightarrow> slot_ledger res" where
  "restore_consumed item l =
     bind_res (py_int_res (fst item)) (\<lambda>position.
       if \<not> owns l position then Inl (ValueError ''snapshot names prompt outside the job'')
       else bind_res (py_int_res (snd item)) (\<lambda>n.
              if n \<le> 0 \<or> capacity_at l position < n
              then Inl (ValueError ''snapshot gives prompt consumed slots outside its capacity'')
              else Inr (l\<lparr>sl_consumed := dset position n (sl_consumed l), sl_filled := sl_filled l + n\<rparr>)))"

definition from_snapshot ::
  "int \<Rightarrow> int \<Rightarrow> (pyval \<times> pyval) list \<Rightarrow> int \<Rightarrow> (pyval \<times> pyval) list \<Rightarrow> slot_ledger res" where
  "from_snapshot prompt_count slots_per_prompt snap prompt_start failed =
     bind_res (SlotLedger prompt_count slots_per_prompt prompt_start) (\<lambda>l.
     bind_res (fold_res restore_failed failed l) (fold_res restore_consumed snap))"

section \<open>The open map\<close>

definition OPEN_ENCODING :: string where
  "OPEN_ENCODING = ''bitmap-msb0-base64''"

definition open_flags :: "slot_ledger \<Rightarrow> bool list" where
  "open_flags l =
     fold (\<lambda>(position, taken) flags.
         if sl_slots l \<le> taken \<and> (sl_failed l = [] \<or> capacity_at l position \<le> taken)
         then flags[nat (position - sl_start l) := False] else flags)
       (sl_consumed l) (replicate (nat (sl_count l)) True)"

text \<open>\<^verbatim>\<open>int(flags, 2)\<close>.\<close>

definition read_binary :: "bool list \<Rightarrow> nat" where
  "read_binary bs = foldl (\<lambda>a b. 2 * a + of_bool b) 0 bs"

definition bitmap_bytes :: "int \<Rightarrow> nat" where
  "bitmap_bytes n = nat (- ((- n) div 8))"

definition open_bitmap :: "slot_ledger \<Rightarrow> bytes \<times> int" where
  "open_bitmap l =
     (let flags = open_flags l; opened = int (length (filter (\<lambda>b. b) flags));
          size = bitmap_bytes (sl_count l);
          padded = flags @ replicate (8 * size - length flags) False
      in (be_bytes size (read_binary padded), opened))"

record open_map =
  om_prompt_start :: int
  om_prompt_count :: int
  om_open_count :: int
  om_bitmap :: bytes

definition bit_set :: "bytes \<Rightarrow> nat \<Rightarrow> bool" where
  "bit_set bitmap offset = (and (bitmap ! (offset div 8)) (128 div 2 ^ (offset mod 8)) \<noteq> 0)"

definition is_open :: "open_map \<Rightarrow> int \<Rightarrow> bool" where
  "is_open m index =
     (let offset = index - om_prompt_start m
      in if \<not> (0 \<le> offset \<and> offset < om_prompt_count m) then False
         else bit_set (om_bitmap m) (nat offset))"

definition indices :: "open_map \<Rightarrow> int list" where
  "indices m =
     map (\<lambda>offset. om_prompt_start m + int offset)
       (filter (bit_set (om_bitmap m)) [0..<nat (om_prompt_count m)])"

definition count_field :: "(pyval \<times> pyval) list \<Rightarrow> string \<Rightarrow> int res" where
  "count_field body name =
     (case dget body (PStr name) of
        Some (PInt i) \<Rightarrow> if i < 0 then Inl (ValueError ''open map field is not a count'') else Inr i
      | _ \<Rightarrow> Inl (ValueError ''open map field is not a count''))"

definition parse_open_map :: "pyval \<Rightarrow> open_map res" where
  "parse_open_map body =
     (case body of
        PDict d \<Rightarrow>
          if dget d (PStr ''encoding'') \<noteq> Some (PStr OPEN_ENCODING)
          then Inl (ValueError ''unknown open map encoding'')
          else bind_res (count_field d ''prompt_start'') (\<lambda>start.
               bind_res (count_field d ''prompt_count'') (\<lambda>n.
               bind_res (count_field d ''open_count'') (\<lambda>opened.
                 if n \<le> 0 \<or> n < opened then Inl (ValueError ''open map counts'')
                 else case dget d (PStr ''open'') of
                        Some (PStr s) \<Rightarrow>
                          (case b64decode s of
                             None \<Rightarrow> Inl (ValueError ''open map bitmap is not base64'')
                           | Some bitmap \<Rightarrow>
                               if length bitmap \<noteq> bitmap_bytes n
                               then Inl (ValueError ''open map bitmap has the wrong size'')
                               else Inr \<lparr>om_prompt_start = start, om_prompt_count = n,
                                         om_open_count = opened, om_bitmap = bitmap\<rparr>)
                      | _ \<Rightarrow> Inl (ValueError ''open map bitmap is not base64''))))
      | _ \<Rightarrow> Inl (ValueError ''the open map is not an object''))"

text \<open>The answer of the open route (\<^verbatim>\<open>corpus_open\<close> of \<^verbatim>\<open>validator/corpus_service.py\<close>), without a draw job's slots.\<close>

definition open_answer :: "string \<Rightarrow> rat \<Rightarrow> slot_ledger \<Rightarrow> pyval" where
  "open_answer job_id as_of l =
     (let (bitmap, opened) = open_bitmap l
      in PDict [(PStr ''job_id'', PStr job_id), (PStr ''prompt_start'', PInt (sl_start l)),
                (PStr ''prompt_count'', PInt (sl_count l)), (PStr ''open_count'', PInt opened),
                (PStr ''as_of'', PFloat as_of), (PStr ''encoding'', PStr OPEN_ENCODING),
                (PStr ''open'', PStr (b64encode bitmap))])"

section \<open>Failures and capacity\<close>

definition fail_slots :: "string list \<Rightarrow> string set" where
  "fail_slots es = {slot. \<exists>e \<in> set es. entry_slot e = Some slot}"

definition fail_count :: "string list \<Rightarrow> string option \<Rightarrow> int" where
  "fail_count es slot = int (length (filter (\<lambda>e. entry_slot e = slot) es))"

lemma fail_snoc [simp]:
  "fail_count (es @ [e]) slot = fail_count es slot + (if entry_slot e = slot then 1 else 0)"
  "fail_slots (es @ [e]) = (case entry_slot e of None \<Rightarrow> fail_slots es | Some slot \<Rightarrow> insert slot (fail_slots es))"
  by (auto simp: fail_count_def fail_slots_def split: option.splits)

lemma count_failure_pair:
  "count_failure e (lg, ps) =
     (case entry_slot e of Some slot \<Rightarrow> (lg, dset slot (dget_or ps slot 0 + 1) ps) | None \<Rightarrow> (lg + 1, ps))"
  by (simp add: count_failure_def split: option.splits)

lemma fold_count_failure:
  assumes "fold count_failure es (0, []) = (legacy, per_slot)"
  shows "legacy = fail_count es None \<and> dict_ok per_slot \<and> (\<forall>slot. has_key per_slot slot \<longleftrightarrow> slot \<in> fail_slots es)
     \<and> (\<forall>slot. dget_or per_slot slot 0 = fail_count es (Some slot))"
  using assms
proof (induction es arbitrary: legacy per_slot rule: rev_induct)
  case Nil
  then show ?case by (simp add: fail_count_def fail_slots_def)
next
  case (snoc e es)
  obtain lg ps where f: "fold count_failure es (0, []) = (lg, ps)" by fastforce
  have IH: "lg = fail_count es None" "dict_ok ps" "\<And>slot. has_key ps slot \<longleftrightarrow> slot \<in> fail_slots es"
    "\<And>slot. dget_or ps slot 0 = fail_count es (Some slot)"
    using snoc.IH [OF f] by auto
  show ?case
  proof (cases "entry_slot e")
    case None
    with snoc.prems f have "legacy = lg + 1" "per_slot = ps" by (auto simp: count_failure_pair)
    with IH None show ?thesis by simp
  next
    case (Some slot)
    with snoc.prems f have "legacy = lg" "per_slot = dset slot (dget_or ps slot 0 + 1) ps" by (auto simp: count_failure_pair)
    with IH Some show ?thesis by simp
  qed
qed

lemma reopened_of_eq:
  "reopened_of es = fail_count es None + (\<Sum>slot \<in> fail_slots es. min (fail_count es (Some slot)) (ATTEMPTS_PER_SLOT - 1))"
proof -
  obtain legacy per_slot where f: "fold count_failure es (0, []) = (legacy, per_slot)" by fastforce
  have ok: "legacy = fail_count es None" "dict_ok per_slot"
    "set (dkeys per_slot) = fail_slots es" "\<And>slot. dget_or per_slot slot 0 = fail_count es (Some slot)"
    using fold_count_failure [OF f] unfolding has_key_def by blast+
  have "sum_list (map (\<lambda>(_, n). min n (ATTEMPTS_PER_SLOT - 1)) per_slot)
      = sum_list (map (\<lambda>slot. min (fail_count es (Some slot)) (ATTEMPTS_PER_SLOT - 1)) (dkeys per_slot))"
    unfolding map_map comp_def
    by (intro arg_cong [where f = sum_list] map_cong refl) (auto simp: ok(4) [symmetric] dget_or_mem [OF ok(2)])
  also have "\<dots> = (\<Sum>slot \<in> fail_slots es. min (fail_count es (Some slot)) (ATTEMPTS_PER_SLOT - 1))"
    using ok(2,3) by (simp only: sum_list_distinct_conv_sum_set)
  finally show ?thesis using f ok(1) by (simp add: reopened_of_def)
qed

lemma finite_fail_slots [simp]: "finite (fail_slots es)"
proof -
  have "fail_slots es \<subseteq> (\<lambda>e. the (entry_slot e)) ` set es" by (force simp: fail_slots_def)
  then show ?thesis by (rule finite_subset) simp
qed

lemma fail_count_nonneg [simp]: "0 \<le> fail_count es slot"
  by (simp add: fail_count_def)

lemma fail_count_mset: "mset es = mset es' \<Longrightarrow> fail_count es slot = fail_count es' slot"
  unfolding fail_count_def by (metis mset_filter size_mset)

lemma reopened_mset: "mset es = mset es' \<Longrightarrow> reopened_of es = reopened_of es'"
proof -
  assume eq: "mset es = mset es'"
  then have "fail_slots es = fail_slots es'" by (auto simp: fail_slots_def dest: mset_eq_setD)
  then show ?thesis unfolding reopened_of_eq by (simp add: fail_count_mset [OF eq])
qed

lemma reopened_nonneg [simp]: "0 \<le> reopened_of es"
  unfolding reopened_of_eq by (intro add_nonneg_nonneg sum_nonneg) (auto simp: ATTEMPTS_PER_SLOT_def)

text \<open>One more failure reopens one slot, or none when it uses up the last attempt of its draw slot.\<close>

lemma reopened_snoc:
  "reopened_of (es @ [e]) = reopened_of es +
     (case entry_slot e of
        None \<Rightarrow> 1
      | Some slot \<Rightarrow> if fail_count es (Some slot) < ATTEMPTS_PER_SLOT - 1 then 1 else 0)"
proof (cases "entry_slot e")
  case None
  then show ?thesis by (simp add: reopened_of_eq)
next
  case (Some slot)
  let ?m = "\<lambda>es s. min (fail_count es (Some s)) (ATTEMPTS_PER_SLOT - 1)"
  have other: "?m (es @ [e]) s = ?m es s" if "s \<noteq> slot" for s using Some that by simp
  have out: "?m es slot = 0" if "slot \<notin> fail_slots es"
    using that by (auto simp: fail_slots_def fail_count_def filter_empty_conv ATTEMPTS_PER_SLOT_def)
  have "(\<Sum>s \<in> fail_slots es. ?m es s) = ?m es slot + (\<Sum>s \<in> fail_slots es - {slot}. ?m es s)"
    using out by (cases "slot \<in> fail_slots es") (simp_all add: sum.remove)
  moreover have "(\<Sum>s \<in> insert slot (fail_slots es). ?m (es @ [e]) s)
      = ?m (es @ [e]) slot + (\<Sum>s \<in> fail_slots es - {slot}. ?m es s)"
    using other by (subst sum.insert_remove) auto
  ultimately show ?thesis
    using Some by (auto simp: reopened_of_eq min_def)
qed

lemma capacity_bounds:
  assumes "0 < sl_slots l"
  shows "sl_slots l \<le> capacity_at l p" and "capacity_at l p \<le> attempt_limit l"
  using assms reopened_nonneg [of "failed_at l p"] by (auto simp: capacity_at_def attempt_limit_def ATTEMPTS_PER_SLOT_def)

section \<open>Invariant\<close>

text \<open>
  A submission id is a hexadecimal digest: it is not empty and has no \<^verbatim>\<open>@\<close>, so the id part of an entry
  is the whole id prefix.
\<close>

inductive sl_step :: "slot_ledger \<Rightarrow> slot_ledger \<Rightarrow> bool" where
  consumed: "consume l i = Inr (l', n) \<Longrightarrow> sl_step l l'"
| failure: "sid \<noteq> [] \<Longrightarrow> CHR ''@'' \<notin> set sid \<Longrightarrow> record_failure l i sid slot hotkey = Inr (l', r) \<Longrightarrow> sl_step l l'"

definition sl_init :: "slot_ledger \<Rightarrow> bool" where
  "sl_init l \<longleftrightarrow> (\<exists>prompts slots start. SlotLedger prompts slots start = Inr l)"

abbreviation sl_reachable :: "slot_ledger \<Rightarrow> bool" where
  "sl_reachable \<equiv> reach sl_init sl_step"

definition sl_inv :: "slot_ledger \<Rightarrow> bool" where
  "sl_inv l \<longleftrightarrow>
     0 \<le> sl_start l \<and> 0 < sl_count l \<and> 0 < sl_slots l
     \<and> dict_ok (sl_consumed l) \<and> dict_ok (sl_failed l) \<and> sl_filled l = dsum (sl_consumed l)
     \<and> (\<forall>p. has_key (sl_consumed l) p \<longrightarrow> owns l p \<and> 0 < consumed_at l p)
     \<and> (\<forall>p. consumed_at l p \<le> capacity_at l p)
     \<and> (\<forall>p. has_key (sl_failed l) p \<longrightarrow>
          owns l p \<and> failed_at l p \<noteq> [] \<and> distinct (failed_at l p) \<and> [] \<notin> set (failed_at l p))"

lemma failed_at_update [simp]:
  "failed_at (l\<lparr>sl_failed := dset p es (sl_failed l)\<rparr>) q = (if p = q then es else failed_at l q)"
  "failed_at (l\<lparr>sl_consumed := c, sl_filled := n\<rparr>) q = failed_at l q"
  by (simp_all add: failed_at_def)

lemma consumed_at_update [simp]:
  "consumed_at (l\<lparr>sl_consumed := dset p n (sl_consumed l), sl_filled := m\<rparr>) q = (if p = q then n else consumed_at l q)"
  "consumed_at (l\<lparr>sl_failed := f\<rparr>) q = consumed_at l q"
  by (simp_all add: consumed_at_def)

lemma capacity_at_update [simp]:
  "capacity_at (l\<lparr>sl_failed := dset p es (sl_failed l)\<rparr>) q =
     (if p = q then min (sl_slots l + reopened_of es) (attempt_limit l) else capacity_at l q)"
  "capacity_at (l\<lparr>sl_consumed := c, sl_filled := n\<rparr>) q = capacity_at l q"
  by (simp_all add: capacity_at_def attempt_limit_def)

lemma owns_update [simp]:
  "owns (l\<lparr>sl_failed := f\<rparr>) p = owns l p" "owns (l\<lparr>sl_consumed := c, sl_filled := n\<rparr>) p = owns l p"
  by (simp_all add: owns_def)

lemma check_index_Inr [simp]: "check_index l i = Inr p \<longleftrightarrow> owns l i \<and> p = i"
  by (auto simp: check_index_def)

lemma consume_Inr:
  "consume l i = Inr (l', n) \<longleftrightarrow>
     owns l i \<and> consumed_at l i < capacity_at l i
     \<and> l' = l\<lparr>sl_consumed := dset i (consumed_at l i + 1) (sl_consumed l), sl_filled := sl_filled l + 1\<rparr>
     \<and> n = capacity_at l i - (consumed_at l i + 1)"
  by (auto simp: consume_def bind_res_Inr_iff Let_def)

lemma record_failure_Inr:
  "record_failure l i sid slot hotkey = Inr (l', r) \<longleftrightarrow>
     owns l i \<and>
     (if take 12 sid \<in> failure_id ` set (failed_at l i) then l' = l \<and> r = None
      else l' = l\<lparr>sl_failed := dset i (failed_at l i @ [failure_entry (take 12 sid) slot hotkey]) (sl_failed l)\<rparr>
           \<and> r = Some (capacity_at l i < capacity_at l' i))"
  by (auto simp: record_failure_def bind_res_Inr_iff Let_def list_ex_iff image_iff)

lemma failure_id_entry [simp]:
  assumes "CHR ''@'' \<notin> set key"
  shows "failure_id (failure_entry key slot hotkey) = key"
proof (cases slot)
  case None
  then show ?thesis using split_max_none [OF assms, of "Suc 0"] by (simp add: failure_id_def failure_entry_def)
next
  case (Some s)
  then show ?thesis using split_max_sep [OF assms, of 0] by (simp add: failure_id_def failure_entry_def)
qed

lemma entry_slot_entry [simp]:
  assumes "CHR ''@'' \<notin> set key"
  shows "entry_slot (failure_entry key slot hotkey) = map_option int_str slot"
proof (cases slot)
  case None
  then show ?thesis using split_max_none [OF assms, of "2"] by (simp add: entry_slot_def failure_entry_def)
next
  case (Some s)
  have "split_max CHR ''@'' (Suc (Suc 0)) (key @ CHR ''@'' # int_str s @ CHR ''@'' # t)
      = [key, int_str s, t]" for t
    using split_max_sep [OF assms, of "Suc 0"] split_max_sep [OF int_str_no_at [OF refl], of 0] by simp
  with Some show ?thesis by (simp add: entry_slot_def failure_entry_def numeral_2_eq_2)
qed

lemma consumed_nonneg: "sl_inv l \<Longrightarrow> 0 \<le> consumed_at l p"
  by (cases "has_key (sl_consumed l) p") (force simp: sl_inv_def consumed_at_def has_key_def dget_or_notin)+

lemma inv_consume:
  assumes "sl_inv l" and "consume l i = Inr (l', n)"
  shows "sl_inv l'"
proof -
  have c: "owns l i" "consumed_at l i < capacity_at l i"
    "l' = l\<lparr>sl_consumed := dset i (consumed_at l i + 1) (sl_consumed l), sl_filled := sl_filled l + 1\<rparr>"
    using assms(2) by (auto simp: consume_Inr)
  have "dsum (dset i (consumed_at l i + 1) (sl_consumed l)) = dsum (sl_consumed l) + 1"
    unfolding consumed_at_def by (rule dsum_dset_add) (use assms(1) in \<open>simp add: sl_inv_def\<close>)
  with assms(1) c consumed_nonneg [OF assms(1), of i] show ?thesis by (auto simp: sl_inv_def)
qed

lemma inv_failure:
  assumes inv: "sl_inv l" and r: "record_failure l i sid slot hotkey = Inr (l', r)"
    and sid: "sid \<noteq> []" "CHR ''@'' \<notin> set sid"
  shows "sl_inv l'"
proof (cases "l' = l")
  case False
  let ?key = "take 12 sid"
  let ?es = "failed_at l i @ [failure_entry ?key slot hotkey]"
  have key: "?key \<noteq> []" "CHR ''@'' \<notin> set ?key" using sid by (auto dest: in_set_takeD)
  have own: "owns l i" and new: "?key \<notin> failure_id ` set (failed_at l i)"
    and l': "l' = l\<lparr>sl_failed := dset i ?es (sl_failed l)\<rparr>"
    using r False by (auto simp: record_failure_Inr split: if_splits)
  have old: "distinct (failed_at l i) \<and> [] \<notin> set (failed_at l i)"
    using inv by (cases "has_key (sl_failed l) i") (auto simp: sl_inv_def failed_at_def has_key_def dget_or_notin)
  have fresh: "failure_entry ?key slot hotkey \<notin> set (failed_at l i)"
    using new key(2) by (metis failure_id_entry image_eqI)
  have "failure_entry ?key slot hotkey \<noteq> []" using key(1) by (auto simp: failure_entry_def split: option.splits)
  moreover have "reopened_of (failed_at l i) \<le> reopened_of ?es" by (simp add: reopened_snoc split: option.splits)
  then have "capacity_at l i \<le> capacity_at l' i" by (simp add: l' capacity_at_def attempt_limit_def)
  then have "consumed_at l i \<le> capacity_at l' i" using inv by (meson order_trans sl_inv_def)
  ultimately show ?thesis using inv own old fresh by (auto simp: sl_inv_def l')
qed (use inv in simp)

interpretation ledger: step_invariant sl_init sl_step sl_inv
proof
  show "sl_inv l" if "sl_init l" for l
    using that by (auto simp: sl_init_def SlotLedger_def sl_inv_def consumed_at_def capacity_at_def failed_at_def
        attempt_limit_def ATTEMPTS_PER_SLOT_def reopened_of_def split: if_splits)
  show "sl_inv l'" if "sl_inv l" "sl_step l l'" for l l'
    using that(2,1) by cases (auto intro: inv_consume inv_failure)
qed

section \<open>Totals\<close>

definition rows :: "slot_ledger \<Rightarrow> int set" where
  "rows l = {sl_start l..<sl_start l + sl_count l}"

lemma rows_owns [simp]: "p \<in> rows l \<longleftrightarrow> owns l p"
  by (simp add: rows_def owns_def)

lemma finite_rows [simp]: "finite (rows l)"
  by (simp add: rows_def)

lemma filled_sum: "sl_inv l \<Longrightarrow> sl_filled l = (\<Sum>p \<in> rows l. consumed_at l p)"
proof -
  assume inv: "sl_inv l"
  then have "set (dkeys (sl_consumed l)) \<subseteq> rows l" by (auto simp: sl_inv_def has_key_def)
  from sum_list_dict [OF _ this finite_rows, of "\<lambda>x. x" 0] inv show ?thesis
    by (simp add: sl_inv_def dsum_def consumed_at_def split_def)
qed

lemma total_sum: "sl_inv l \<Longrightarrow> total l = (\<Sum>p \<in> rows l. capacity_at l p)"
proof -
  assume inv: "sl_inv l"
  let ?extra = "\<lambda>es. min (reopened_of es) (attempt_limit l - sl_slots l)"
  have "set (dkeys (sl_failed l)) \<subseteq> rows l" using inv by (auto simp: sl_inv_def has_key_def)
  moreover have "?extra [] = 0"
    using inv by (simp add: sl_inv_def reopened_of_def attempt_limit_def ATTEMPTS_PER_SLOT_def)
  ultimately have "sum_list (map (\<lambda>(_, es). ?extra es) (sl_failed l)) = (\<Sum>p \<in> rows l. ?extra (failed_at l p))"
    unfolding failed_at_def using inv by (intro sum_list_dict) (auto simp: sl_inv_def)
  moreover have "capacity_at l p = sl_slots l + ?extra (failed_at l p)" for p by (simp add: capacity_at_def)
  moreover have "int (card (rows l)) = sl_count l" using inv by (simp add: rows_def sl_inv_def)
  ultimately show ?thesis by (simp add: total_def sum.distrib)
qed

section \<open>Bitmaps\<close>

lemma read_binary_horner: "read_binary bs = horner_sum of_bool 2 (rev bs)"
  unfolding read_binary_def by (induction bs rule: rev_induct) auto

lemma nth_be_bytes: "j < k \<Longrightarrow> be_bytes k n ! j = n div 256 ^ (k - 1 - j) mod 256"
proof (induction k arbitrary: n j)
  case (Suc k)
  show ?case
  proof (cases "j < k")
    case True
    then have "k - j = Suc (k - 1 - j)" by simp
    with Suc True show ?thesis by (simp add: nth_append div_mult2_eq)
  next
    case False
    with Suc.prems have "j = k" by simp
    then show ?thesis by (simp add: nth_append)
  qed
qed simp

lemma be_bytes_range: "\<forall>b \<in> set (be_bytes k n). b < 256"
  by (induction k arbitrary: n) auto

lemma bitmap_bit:
  assumes "length bs = 8 * k" and "i < length bs"
  shows "bit_set (be_bytes k (read_binary bs)) i \<longleftrightarrow> bs ! i"
proof -
  have i: "i div 8 < k" "i mod 8 < 8" using assms by auto
  have mask: "128 div 2 ^ (i mod 8) = (2::nat) ^ (7 - i mod 8)"
    using power_diff [of "2::nat" "i mod 8" 7] i(2) by simp
  have "(256::nat) ^ m = 2 ^ (8 * m)" for m by (simp add: power_mult)
  then have byte: "be_bytes k n ! (i div 8) = take_bit 8 (drop_bit (8 * (k - 1 - i div 8)) n)" for n
    using nth_be_bytes [OF i(1)] by (simp add: take_bit_eq_mod drop_bit_eq_div)
  obtain t where t: "k = Suc (i div 8 + t)" using i(1) less_imp_Suc_add by blast
  have "8 * t + (7 - r) = 8 * Suc (q + t) - 1 - (8 * q + r)" if "r < 8" for q r :: nat
    using that by simp
  from this [OF i(2), of "i div 8"]
  have pos: "8 * (k - 1 - i div 8) + (7 - i mod 8) = length bs - 1 - i"
    using assms(1) unfolding t by (simp only: mult_div_mod_eq) simp
  have "7 - i mod 8 < 8" by simp
  then have "bit_set (be_bytes k n) i \<longleftrightarrow> bit n (8 * (k - 1 - i div 8) + (7 - i mod 8))" for n
    unfolding bit_set_def mask byte and_exp_eq_0_iff_not_bit bit_take_bit_iff bit_drop_bit_eq by (simp add: comp_def)
  then show ?thesis
    unfolding pos using assms(2)
    by (auto simp: read_binary_horner bit_horner_sum_bit_iff rev_nth)
qed

lemma length_open_flags [simp]: "length (open_flags l) = nat (sl_count l)"
proof -
  have "length (fold (\<lambda>(position, taken) flags.
         if sl_slots l \<le> taken \<and> (sl_failed l = [] \<or> capacity_at l position \<le> taken)
         then flags[nat (position - sl_start l) := False] else flags) d flags) = length flags" for d flags
    by (induction d arbitrary: flags) (auto split: if_splits)
  then show ?thesis by (simp add: open_flags_def)
qed

lemma fold_clear:
  assumes "i < length flags"
  shows "fold (\<lambda>(p, t) flags. if P p t then flags[f p := False] else flags) d flags ! i
    \<longleftrightarrow> flags ! i \<and> (\<forall>(p, t) \<in> set d. f p = i \<longrightarrow> \<not> P p t)"
  using assms
proof (induction d arbitrary: flags)
  case (Cons x d)
  have "flags[j := False] ! i \<longleftrightarrow> flags ! i \<and> j \<noteq> i" for j using Cons.prems by (cases "j = i") auto
  with Cons show ?case by (cases x) auto
qed simp

lemma open_flags_nth:
  assumes inv: "sl_inv l" and i: "i < nat (sl_count l)"
  shows "open_flags l ! i \<longleftrightarrow> consumed_at l (sl_start l + int i) < capacity_at l (sl_start l + int i)"
proof -
  let ?p = "sl_start l + int i"
  let ?P = "\<lambda>p t. sl_slots l \<le> t \<and> (sl_failed l = [] \<or> capacity_at l p \<le> t)"
  have full: "?P p t \<longleftrightarrow> capacity_at l p \<le> t" for p t
    using inv capacity_bounds(1) [of l p]
    by (auto simp: sl_inv_def capacity_at_def failed_at_def reopened_of_def attempt_limit_def ATTEMPTS_PER_SLOT_def)
  have pos: "nat (p - sl_start l) = i \<longleftrightarrow> p = ?p" if "(p, t) \<in> set (sl_consumed l)" for p t
  proof -
    have "owns l p" using inv that by (force simp: sl_inv_def has_key_def)
    then show ?thesis by (auto simp: owns_def)
  qed
  have "open_flags l ! i \<longleftrightarrow> (\<forall>(p, t) \<in> set (sl_consumed l). nat (p - sl_start l) = i \<longrightarrow> \<not> ?P p t)"
    unfolding open_flags_def using i by (subst fold_clear) auto
  also have "\<dots> \<longleftrightarrow> (\<forall>t. (?p, t) \<in> set (sl_consumed l) \<longrightarrow> t < capacity_at l ?p)"
    unfolding full using pos by (smt (verit) case_prodD case_prodI2)
  also have "\<dots> \<longleftrightarrow> consumed_at l ?p < capacity_at l ?p"
  proof (cases "has_key (sl_consumed l) ?p")
    case True
    then have "(?p, t) \<in> set (sl_consumed l) \<longleftrightarrow> t = consumed_at l ?p" for t
      using inv unfolding consumed_at_def sl_inv_def has_key_def by (metis dget_or_in dget_or_mem)
    then show ?thesis by simp
  next
    case False
    then have "consumed_at l ?p = 0" "\<nexists>t. (?p, t) \<in> set (sl_consumed l)"
      by (force simp: consumed_at_def has_key_def dget_or_notin)+
    moreover have "0 < capacity_at l ?p" using inv capacity_bounds(1) [of l ?p] by (simp add: sl_inv_def)
    ultimately show ?thesis by simp
  qed
  finally show ?thesis .
qed

lemma bitmap_bytes_bound:
  assumes "0 < n"
  shows "nat n \<le> 8 * bitmap_bytes n" and "int (bitmap_bytes n) = (n + 7) div 8"
proof -
  have "- ((- n) div 8) = (n + 7) div 8" using assms by presburger
  then have "bitmap_bytes n = nat ((n + 7) div 8)" by (simp add: bitmap_bytes_def)
  moreover have "n \<le> 8 * ((n + 7) div 8)" by presburger
  ultimately show "nat n \<le> 8 * bitmap_bytes n" "int (bitmap_bytes n) = (n + 7) div 8" using assms by auto
qed

lemma open_bitmap_bit:
  assumes "sl_inv l" and "i < nat (sl_count l)"
  shows "bit_set (fst (open_bitmap l)) i \<longleftrightarrow> consumed_at l (sl_start l + int i) < capacity_at l (sl_start l + int i)"
proof -
  let ?size = "bitmap_bytes (sl_count l)"
  let ?padded = "open_flags l @ replicate (8 * ?size - nat (sl_count l)) False"
  have "nat (sl_count l) \<le> 8 * ?size" using assms(1) bitmap_bytes_bound(1) by (simp add: sl_inv_def)
  then have len: "length ?padded = 8 * ?size" by simp
  have "bit_set (be_bytes ?size (read_binary ?padded)) i \<longleftrightarrow> ?padded ! i"
    using assms(2) by (intro bitmap_bit [OF len]) simp
  with assms open_flags_nth show ?thesis by (simp add: open_bitmap_def Let_def nth_append)
qed

lemma length_filter_flags: "length (filter (\<lambda>b. b) flags) = length (filter (\<lambda>i. flags ! i) [0..<length flags])"
proof -
  have "map (\<lambda>i. flags ! i) [0..<length flags] = flags" by (rule map_nth)
  then have "filter (\<lambda>b. b) flags = map (\<lambda>i. flags ! i) (filter (\<lambda>i. flags ! i) [0..<length flags])"
    by (metis (mono_tags, lifting) comp_apply filter_cong filter_map)
  then show ?thesis by (metis length_map)
qed

section \<open>Properties\<close>

text \<open>
  C4. In every reachable ledger each prompt has consumed between none and all of its capacity, the
  capacity lies between the declared slots and the attempt limit, the filled count is the sum of what
  the prompts consumed, and the job is complete exactly when no prompt has a slot left.
\<close>

theorem slot_ledger_complete_iff_full:
  assumes "sl_reachable l" and "owns l p"
  shows "0 \<le> consumed_at l p \<and> consumed_at l p \<le> capacity_at l p
    \<and> sl_slots l \<le> capacity_at l p \<and> capacity_at l p \<le> attempt_limit l
    \<and> sl_filled l = (\<Sum>q \<in> rows l. consumed_at l q) \<and> sl_filled l \<le> total l
    \<and> (is_complete l \<longleftrightarrow> (\<forall>q. owns l q \<longrightarrow> is_full l q = Inr True))"
proof -
  have inv: "sl_inv l" using assms(1) by (rule ledger.inv_reach)
  then have le: "consumed_at l q \<le> capacity_at l q" for q by (simp add: sl_inv_def)
  have sum: "sl_filled l \<le> total l"
    unfolding filled_sum [OF inv] total_sum [OF inv] by (rule sum_mono) (rule le)
  have "is_complete l \<longleftrightarrow> (\<Sum>q \<in> rows l. capacity_at l q - consumed_at l q) = 0"
    using sum unfolding is_complete_def filled_sum [OF inv] total_sum [OF inv] by (simp add: sum_subtractf) linarith
  also have "\<dots> \<longleftrightarrow> (\<forall>q \<in> rows l. capacity_at l q - consumed_at l q = 0)"
    using le by (intro sum_nonneg_eq_0_iff) auto
  also have "\<dots> \<longleftrightarrow> (\<forall>q. owns l q \<longrightarrow> is_full l q = Inr True)"
    by (auto simp: is_full_def remaining_def check_index_def)
  finally show ?thesis
    using le sum filled_sum [OF inv] consumed_nonneg [OF inv] capacity_bounds [of l p] inv by (simp add: sl_inv_def)
qed

definition example_ledger :: slot_ledger where
  "example_ledger = \<lparr>sl_start = 5, sl_count = 2, sl_slots = 1, sl_consumed = [(6, 1)], sl_filled = 1, sl_failed = []\<rparr>"

lemma example_ledger_reachable: "sl_reachable example_ledger"
proof -
  have "SlotLedger 2 1 5 = Inr \<lparr>sl_start = 5, sl_count = 2, sl_slots = 1, sl_consumed = [], sl_filled = 0, sl_failed = []\<rparr>"
    by (simp add: SlotLedger_def)
  then have "sl_reachable \<lparr>sl_start = 5, sl_count = 2, sl_slots = 1, sl_consumed = [], sl_filled = 0, sl_failed = []\<rparr>"
    by (intro reach_init) (auto simp: sl_init_def)
  moreover have "sl_step \<lparr>sl_start = 5, sl_count = 2, sl_slots = 1, sl_consumed = [], sl_filled = 0, sl_failed = []\<rparr> example_ledger"
    by (rule sl_step.consumed [of _ 6 _ 0])
      (simp add: consume_Inr example_ledger_def owns_def consumed_at_def capacity_at_def failed_at_def
        reopened_of_def attempt_limit_def ATTEMPTS_PER_SLOT_def)
  ultimately show ?thesis by (rule reach_step)
qed

theorem slot_ledger_complete_iff_full_witness:
  "sl_filled example_ledger \<le> total example_ledger \<and> \<not> is_complete example_ledger"
proof -
  have "owns example_ledger 5" by (simp add: owns_def example_ledger_def)
  moreover have "is_full example_ledger 5 \<noteq> Inr True"
    by (simp add: is_full_def remaining_def check_index_def owns_def example_ledger_def consumed_at_def capacity_at_def
        failed_at_def reopened_of_def attempt_limit_def ATTEMPTS_PER_SLOT_def dget_or_def)
  ultimately show ?thesis
    using slot_ledger_complete_iff_full [OF example_ledger_reachable, of 5] by blast
qed

text \<open>
  C33. The open map a miner reads back is exact: parsing the route's answer for a reachable ledger
  succeeds, a row is open in it exactly when the ledger has a slot left for that row, rows outside the
  job are closed, and the announced count is the number of open rows.
\<close>

theorem open_map_roundtrip:
  assumes "sl_reachable l"
  shows "\<exists>m. parse_open_map (open_answer job_id as_of l) = Inr m
    \<and> (\<forall>i. is_open m i \<longleftrightarrow> (\<exists>n > 0. remaining l i = Inr n))
    \<and> om_open_count m = int (length (indices m))"
proof -
  have inv: "sl_inv l" using assms(1) by (rule ledger.inv_reach)
  obtain bitmap opened where ob: "open_bitmap l = (bitmap, opened)" by fastforce
  let ?m = "\<lparr>om_prompt_start = sl_start l, om_prompt_count = sl_count l, om_open_count = opened, om_bitmap = bitmap\<rparr>"
  have len: "length bitmap = bitmap_bytes (sl_count l)" and bytes: "\<forall>b \<in> set bitmap. b < 256"
    and opened: "opened = int (length (filter (\<lambda>b. b) (open_flags l)))"
    using ob be_bytes_range by (auto simp: open_bitmap_def Let_def)
  have bit: "bit_set bitmap i \<longleftrightarrow> open_flags l ! i" if "i < nat (sl_count l)" for i
    using open_bitmap_bit [OF inv that] open_flags_nth [OF inv that] ob by simp
  have cnt: "opened = int (length (filter (bit_set bitmap) [0..<nat (sl_count l)]))"
    unfolding opened length_filter_flags length_open_flags
    using bit by (intro arg_cong [where f = int] arg_cong [where f = length] filter_cong) auto
  then have "0 \<le> opened" "opened \<le> sl_count l"
    using inv length_filter_le [of "bit_set bitmap" "[0..<nat (sl_count l)]"] by (auto simp: sl_inv_def)
  then have "parse_open_map (open_answer job_id as_of l) = Inr ?m"
    using inv len b64_roundtrip [OF bytes]
    by (simp add: parse_open_map_def open_answer_def ob count_field_def sl_inv_def)
  moreover have "is_open ?m i \<longleftrightarrow> (\<exists>n > 0. remaining l i = Inr n)" for i
    using bit [of "nat (i - sl_start l)"] open_flags_nth [OF inv, of "nat (i - sl_start l)"]
    by (auto simp: is_open_def remaining_def check_index_def owns_def Let_def)
  moreover have "om_open_count ?m = int (length (indices ?m))" by (simp add: indices_def cnt)
  ultimately show ?thesis by blast
qed

theorem open_map_roundtrip_witness:
  "\<exists>m. parse_open_map (open_answer ''job'' 0 example_ledger) = Inr m \<and> is_open m 5 \<and> \<not> is_open m 6"
proof -
  obtain m where m: "parse_open_map (open_answer ''job'' 0 example_ledger) = Inr m"
    "\<And>i. is_open m i \<longleftrightarrow> (\<exists>n > 0. remaining example_ledger i = Inr n)"
    using open_map_roundtrip [OF example_ledger_reachable] by blast
  have "remaining example_ledger 5 = Inr 1" "remaining example_ledger 6 = Inr 0"
    by (simp_all add: remaining_def check_index_def owns_def example_ledger_def capacity_at_def consumed_at_def
        failed_at_def reopened_of_def attempt_limit_def ATTEMPTS_PER_SLOT_def dget_or_Cons)
  with m show ?thesis by auto
qed

text \<open>
  C35. A failed submission is counted once: recording it again changes nothing and says so. The first
  time, it gives its own prompt one more slot exactly when it says it reopened one, leaves every other
  prompt alone, and adds one attempt to its draw slot, which is reopened only while it has attempts left.
\<close>

theorem failure_recorded_once:
  assumes "sl_reachable l" and "owns l i" and "sid \<noteq> []" and "CHR ''@'' \<notin> set sid"
    and "take 12 sid \<notin> failure_id ` set (failed_at l i)"
  shows "\<exists>l' r. record_failure l i sid slot hotkey = Inr (l', Some r)
    \<and> record_failure l' i sid slot hotkey = Inr (l', None)
    \<and> capacity_at l' i = capacity_at l i + (if r then 1 else 0)
    \<and> (\<forall>q. q \<noteq> i \<longrightarrow> remaining l' q = remaining l q)
    \<and> (\<forall>s. length (slot_failures_at l' i s) = length (slot_failures_at l i s) + (if slot = Some s then 1 else 0))
    \<and> (r \<longrightarrow> (case slot of None \<Rightarrow> True | Some s \<Rightarrow> slot_exhausted l' i s = Inr False))"
proof -
  let ?e = "failure_entry (take 12 sid) slot hotkey"
  let ?l' = "l\<lparr>sl_failed := dset i (failed_at l i @ [?e]) (sl_failed l)\<rparr>"
  have key: "CHR ''@'' \<notin> set (take 12 sid)" using assms(4) by (auto dest: in_set_takeD)
  have rf: "record_failure l i sid slot hotkey = Inr (?l', Some (capacity_at l i < capacity_at ?l' i))"
    using assms(2,5) by (simp add: record_failure_Inr)
  have again: "record_failure ?l' i sid slot hotkey = Inr (?l', None)"
    using assms(2) key by (simp add: record_failure_Inr)
  have grow: "reopened_of (failed_at l i @ [?e]) - reopened_of (failed_at l i) \<in> {0, 1}"
    by (auto simp: reopened_snoc split: option.splits)
  then have cap: "capacity_at ?l' i = capacity_at l i + (if capacity_at l i < capacity_at ?l' i then 1 else 0)"
    by (auto simp: capacity_at_def attempt_limit_def)
  have count: "length (slot_failures_at ?l' i s) = length (slot_failures_at l i s) + (if slot = Some s then 1 else 0)" for s
    using key by (auto simp: slot_failures_at_def)
  have left: "slot_exhausted ?l' i s = Inr False" if "capacity_at l i < capacity_at ?l' i" "slot = Some s" for s
  proof -
    have "fail_count (failed_at l i) (Some (int_str s)) < ATTEMPTS_PER_SLOT - 1"
      using that key by (auto simp: capacity_at_def attempt_limit_def reopened_snoc split: if_splits)
    with count [of s] that(2) assms(2) show ?thesis
      by (simp add: slot_exhausted_def slot_attempt_def check_index_def fail_count_def slot_failures_at_def ATTEMPTS_PER_SLOT_def)
  qed
  have other: "remaining ?l' q = remaining l q" if "q \<noteq> i" for q
    using that by (simp add: remaining_def check_index_def)
  show ?thesis
    using rf again cap count left other by (intro exI [of _ ?l'] exI [of _ "capacity_at l i < capacity_at ?l' i"])
      (auto split: option.splits)
qed

theorem failure_recorded_once_witness:
  "\<exists>l' r. record_failure example_ledger 6 ''abcdef0123456789'' (Some 0) (Some ''hk'') = Inr (l', Some r)
    \<and> record_failure l' 6 ''abcdef0123456789'' (Some 0) (Some ''hk'') = Inr (l', None)
    \<and> remaining l' 5 = remaining example_ledger 5"
proof -
  have "owns example_ledger 6" "take 12 ''abcdef0123456789'' \<notin> failure_id ` set (failed_at example_ledger 6)"
    by (simp_all add: owns_def example_ledger_def failed_at_def)
  moreover have "''abcdef0123456789'' \<noteq> []" "CHR ''@'' \<notin> set ''abcdef0123456789''" by simp_all
  ultimately obtain l' r where "record_failure example_ledger 6 ''abcdef0123456789'' (Some 0) (Some ''hk'') = Inr (l', Some r)"
    "record_failure l' 6 ''abcdef0123456789'' (Some 0) (Some ''hk'') = Inr (l', None)"
    "\<forall>q. q \<noteq> 6 \<longrightarrow> remaining l' q = remaining example_ledger q"
    using failure_recorded_once [OF example_ledger_reachable, of 6 "''abcdef0123456789''" "Some 0" "Some ''hk''"] by blast
  moreover have "(5::int) \<noteq> 6" by simp
  ultimately show ?thesis by blast
qed

section \<open>Snapshots\<close>

definition wire_consumed :: "(int, int) dict \<Rightarrow> (pyval \<times> pyval) list" where
  "wire_consumed d = map (\<lambda>(p, n). (PInt p, PInt n)) d"

definition wire_failed :: "(int, string list) dict \<Rightarrow> (pyval \<times> pyval) list" where
  "wire_failed d = map (\<lambda>(p, ids). (PInt p, PList (map PStr ids))) d"

lemma failed_ids_strings: "failed_ids_ok (map PStr ids) \<longleftrightarrow> ids \<noteq> [] \<and> distinct ids \<and> [] \<notin> set ids"
  by (auto simp: failed_ids_ok_def distinct_map inj_on_def list_all_iff)

lemma restore_failed_all:
  assumes "\<forall>(p, ids) \<in> set fs. owns l p \<and> ids \<noteq> [] \<and> distinct ids \<and> [] \<notin> set ids"
    and "dict_ok (sl_failed l @ fs)"
  shows "fold_res restore_failed (wire_failed fs) l = Inr (l\<lparr>sl_failed := sl_failed l @ fs\<rparr>)"
  using assms
proof (induction fs arbitrary: l)
  case (Cons f fs)
  obtain p ids where f: "f = (p, ids)" by (cases f)
  let ?l = "l\<lparr>sl_failed := sl_failed l @ [(p, ids)]\<rparr>"
  have new: "p \<notin> set (dkeys (sl_failed l))" using Cons.prems(2) f by auto
  have "\<not> list_ex unhashable (map PStr ids)" "map str_of (map PStr ids) = ids"
    by (auto simp: list_ex_iff unhashable_def str_of_def intro: map_idI)
  then have "restore_failed (PInt p, PList (map PStr ids)) l = Inr ?l"
    using Cons.prems(1) f dset_fresh [OF new] by (auto simp: restore_failed_def failed_ids_strings)
  moreover have "fold_res restore_failed (wire_failed fs) ?l = Inr (?l\<lparr>sl_failed := sl_failed ?l @ fs\<rparr>)"
    using Cons.prems f by (intro Cons.IH) auto
  ultimately show ?case by (simp add: wire_failed_def f)
qed (simp add: wire_failed_def)

lemma restore_consumed_all:
  assumes "\<forall>(p, n) \<in> set cs. owns l p \<and> 0 < n \<and> n \<le> capacity_at l p" and "dict_ok (sl_consumed l @ cs)"
  shows "fold_res restore_consumed (wire_consumed cs) l
    = Inr (l\<lparr>sl_consumed := sl_consumed l @ cs, sl_filled := sl_filled l + dsum cs\<rparr>)"
  using assms
proof (induction cs arbitrary: l)
  case (Cons c cs)
  obtain p n where c: "c = (p, n)" by (cases c)
  let ?l = "l\<lparr>sl_consumed := sl_consumed l @ [(p, n)], sl_filled := sl_filled l + n\<rparr>"
  have new: "p \<notin> set (dkeys (sl_consumed l))" using Cons.prems(2) c by auto
  then have "restore_consumed (PInt p, PInt n) l = Inr ?l"
    using Cons.prems(1) c dset_fresh [OF new] by (auto simp: restore_consumed_def)
  moreover have "fold_res restore_consumed (wire_consumed cs) ?l
      = Inr (?l\<lparr>sl_consumed := sl_consumed ?l @ cs, sl_filled := sl_filled ?l + dsum cs\<rparr>)"
    using Cons.prems c by (intro Cons.IH) auto
  ultimately show ?case by (simp add: wire_consumed_def c add.assoc)
qed (simp add: wire_consumed_def)

lemma sort_Nil_iff [simp]: "sort xs = [] \<longleftrightarrow> xs = []"
  by (metis set_empty set_sort)

lemma dget_or_map_vals: "f v = w \<Longrightarrow> dget_or (map (\<lambda>(k, x). (k, f x)) d) k w = f (dget_or d k v)"
  by (induction d) (auto simp: dget_or_def)

text \<open>
  C34. The snapshot round trip: a ledger restored from what a reachable ledger saved has the same rows,
  the same consumed slots in the same order and the same filled count, the same failures up to their
  order, and so the same slots remaining on every prompt.
\<close>

theorem slot_ledger_snapshot_roundtrip:
  assumes "sl_reachable l"
  shows "\<exists>l'. from_snapshot (sl_count l) (sl_slots l) (wire_consumed (snapshot l)) (sl_start l)
        (wire_failed (failed_snapshot l)) = Inr l'
    \<and> sl_consumed l' = sl_consumed l \<and> sl_filled l' = sl_filled l
    \<and> (\<forall>p. mset (failed_at l' p) = mset (failed_at l p)) \<and> (\<forall>i. remaining l' i = remaining l i)"
proof -
  have inv: "sl_inv l" using assms(1) by (rule ledger.inv_reach)
  let ?l0 = "\<lparr>sl_start = sl_start l, sl_count = sl_count l, sl_slots = sl_slots l, sl_consumed = [], sl_filled = 0, sl_failed = []\<rparr>"
  let ?fs = "map (\<lambda>(p, ids). (p, sort ids)) (sl_failed l)"
  let ?l1 = "?l0\<lparr>sl_failed := ?fs\<rparr>"
  let ?l2 = "?l1\<lparr>sl_consumed := sl_consumed l, sl_filled := dsum (sl_consumed l)\<rparr>"
  have ok: "dict_ok (sl_failed l)" "dict_ok (sl_consumed l)" using inv by (auto simp: sl_inv_def)
  have entry: "owns l p \<and> ids \<noteq> [] \<and> distinct ids \<and> [] \<notin> set ids" if "(p, ids) \<in> set (sl_failed l)" for p ids
  proof -
    have "has_key (sl_failed l) p" "failed_at l p = ids"
      using that dget_or_mem [OF ok(1) that] by (force simp: has_key_def failed_at_def)+
    with inv show ?thesis unfolding sl_inv_def by blast
  qed
  then have snap: "failed_snapshot l = ?fs" unfolding failed_snapshot_def
    by (intro arg_cong [where f = "map _"]) (auto simp: filter_id_conv)
  have failed1: "failed_at ?l1 p = sort (failed_at l p)" for p
    by (simp add: failed_at_def dget_or_map_vals [of sort "[]"])
  then have cap1: "capacity_at ?l1 p = capacity_at l p" for p
    using reopened_mset [of "sort (failed_at l p)" "failed_at l p"] by (simp add: capacity_at_def attempt_limit_def)
  have dk: "dkeys ?fs = dkeys (sl_failed l)" by (induction "sl_failed l") auto
  have "\<forall>(p, ids) \<in> set ?fs. owns ?l0 p \<and> ids \<noteq> [] \<and> distinct ids \<and> [] \<notin> set ids"
    using entry by (auto simp: owns_def)
  moreover have "dict_ok ?fs" unfolding dk by (rule ok(1))
  ultimately have "fold_res restore_failed (wire_failed ?fs) ?l0 = Inr ?l1"
    using restore_failed_all [of ?fs ?l0] by simp
  moreover have "owns ?l1 p \<and> 0 < n \<and> n \<le> capacity_at ?l1 p" if "(p, n) \<in> set (sl_consumed l)" for p n
  proof -
    have "has_key (sl_consumed l) p" "consumed_at l p = n"
      using that dget_or_mem [OF ok(2) that] by (force simp: has_key_def consumed_at_def)+
    with inv show ?thesis unfolding cap1 by (auto simp: sl_inv_def owns_def)
  qed
  then have "fold_res restore_consumed (wire_consumed (sl_consumed l)) ?l1 = Inr ?l2"
    using restore_consumed_all [of "sl_consumed l" ?l1] ok(2) by fastforce
  ultimately have "from_snapshot (sl_count l) (sl_slots l) (wire_consumed (snapshot l)) (sl_start l)
      (wire_failed (failed_snapshot l)) = Inr ?l2"
    using inv by (simp add: from_snapshot_def SlotLedger_def snap snapshot_def sl_inv_def)
  moreover have "failed_at ?l2 p = sort (failed_at l p)" for p using failed1 by (simp add: failed_at_def)
  moreover have "capacity_at ?l2 p = capacity_at l p" "consumed_at ?l2 p = consumed_at l p" for p
    using cap1 by (simp_all add: capacity_at_def failed_at_def attempt_limit_def consumed_at_def)
  then have "remaining ?l2 i = remaining l i" for i by (simp add: remaining_def check_index_def owns_def)
  ultimately show ?thesis using inv by (intro exI [of _ ?l2]) (auto simp: sl_inv_def)
qed

theorem slot_ledger_snapshot_roundtrip_witness:
  "\<exists>l'. from_snapshot 2 1 [(PInt 6, PInt 1)] 5 [] = Inr l' \<and> sl_filled l' = 1"
proof -
  have "sl_count example_ledger = 2" "sl_slots example_ledger = 1" "sl_start example_ledger = 5" "sl_filled example_ledger = 1"
    "wire_consumed (snapshot example_ledger) = [(PInt 6, PInt 1)]" "wire_failed (failed_snapshot example_ledger) = []"
    by (simp_all add: example_ledger_def wire_consumed_def snapshot_def wire_failed_def failed_snapshot_def)
  with slot_ledger_snapshot_roundtrip [OF example_ledger_reachable] show ?thesis by auto
qed

end
