(* ===== verification/Corpus_Walk.thy ===== *)
theory Corpus_Walk
  imports Python_Values
begin

text \<open>
  The order in which a miner walks a corpus job's prompts, \<^verbatim>\<open>reliquary/corpus/walk.py\<close>: the hash walk
  (\<open>H\<close> is SHA-256) and the ledger of the miners' cursors.
\<close>

section \<open>The walk\<close>

definition walk_index :: "(bytes \<Rightarrow> bytes) \<Rightarrow> string \<Rightarrow> string \<Rightarrow> int \<Rightarrow> int \<Rightarrow> int res" where
  "walk_index H job_id hotkey cursor prompt_count =
     (if prompt_count \<le> 0 then Inl (ValueError ''prompt_count must be positive'')
      else if cursor < 0 then Inl (ValueError ''cursor must not be negative'')
      else if \<not> u64_ok cursor then Inl OverflowError
      else Inr (int (from_bytes (H (encode job_id @ [0] @ encode hotkey @ [0] @ u64_bytes cursor))) mod prompt_count))"

record walk_job =
  wj_job_id :: string
  wj_prompt_start :: int
  wj_prompt_count :: int

definition job_walk_index :: "(bytes \<Rightarrow> bytes) \<Rightarrow> walk_job \<Rightarrow> string \<Rightarrow> int \<Rightarrow> int res" where
  "job_walk_index H job hotkey cursor =
     bind_res (walk_index H (wj_job_id job) hotkey cursor (wj_prompt_count job)) (\<lambda>i. Inr (wj_prompt_start job + i))"

section \<open>Cursors\<close>

type_synonym cursor_ledger = "(string, int) dict"

definition CursorLedger :: cursor_ledger where
  "CursorLedger = []"

definition expected :: "cursor_ledger \<Rightarrow> string \<Rightarrow> int" where
  "expected l hotkey = dget_or l hotkey 0"

definition advance :: "cursor_ledger \<Rightarrow> string \<Rightarrow> cursor_ledger \<times> int" where
  "advance l hotkey = (let moved = dget_or l hotkey 0 + 1 in (dset hotkey moved l, moved))"

definition cursor_snapshot :: "cursor_ledger \<Rightarrow> (string, int) dict" where
  "cursor_snapshot l = l"

definition restore_cursor :: "pyval \<times> pyval \<Rightarrow> cursor_ledger \<Rightarrow> cursor_ledger res" where
  "restore_cursor item l =
     (case fst item of
        PStr hotkey \<Rightarrow>
          if hotkey = [] then Inl (ValueError ''unusable hotkey in cursor snapshot'')
          else (case snd item of
                  PInt position \<Rightarrow>
                    if position < 0 then Inl (ValueError ''cursor is negative'') else Inr (dset hotkey position l)
                | _ \<Rightarrow> Inl (ValueError ''cursor is not a whole number''))
      | _ \<Rightarrow> Inl (ValueError ''unusable hotkey in cursor snapshot''))"

definition cursor_from_snapshot :: "(pyval \<times> pyval) list \<Rightarrow> cursor_ledger res" where
  "cursor_from_snapshot snap = fold_res restore_cursor snap CursorLedger"

section \<open>Lemmas\<close>

inductive cursor_step :: "cursor_ledger \<Rightarrow> cursor_ledger \<Rightarrow> bool" where
  advanced: "hotkey \<noteq> [] \<Longrightarrow> advance l hotkey = (l', n) \<Longrightarrow> cursor_step l l'"

definition cursors_ok :: "cursor_ledger \<Rightarrow> bool" where
  "cursors_ok l \<longleftrightarrow> dict_ok l \<and> (\<forall>(h, n) \<in> set l. h \<noteq> [] \<and> 0 \<le> n)"

lemma expected_nonneg: "cursors_ok l \<Longrightarrow> 0 \<le> expected l h"
  using dget_or_in [of h l 0] dget_or_notin [of h l 0]
  by (cases "h \<in> set (dkeys l)") (force simp: cursors_ok_def expected_def)+

lemma cursors_ok_advance:
  assumes "cursors_ok l" and "hotkey \<noteq> []"
  shows "cursors_ok (fst (advance l hotkey))"
  using assms expected_nonneg [OF assms(1), of hotkey]
  by (auto simp: cursors_ok_def advance_def expected_def Let_def set_dset)

interpretation cursors: step_invariant "\<lambda>l. l = CursorLedger" cursor_step cursors_ok
proof
  show "cursors_ok l" if "l = CursorLedger" for l using that by (simp add: CursorLedger_def cursors_ok_def)
  show "cursors_ok l'" if "cursors_ok l" "cursor_step l l'" for l l'
    using that(2,1) by cases (metis cursors_ok_advance fst_conv)
qed

lemma restore_cursors:
  assumes "cursors_ok (acc @ l)"
  shows "fold_res restore_cursor (map (\<lambda>(h, n). (PStr h, PInt n)) l) acc = Inr (acc @ l)"
  using assms
proof (induction l arbitrary: acc)
  case (Cons x l)
  obtain h n where x: "x = (h, n)" by (cases x)
  with Cons.prems have "h \<notin> set (dkeys acc)" "h \<noteq> []" "0 \<le> n" by (auto simp: cursors_ok_def)
  then have "restore_cursor (PStr h, PInt n) acc = Inr (acc @ [(h, n)])"
    by (simp add: restore_cursor_def dset_fresh)
  moreover have "fold_res restore_cursor (map (\<lambda>(h, n). (PStr h, PInt n)) l) (acc @ [(h, n)]) = Inr ((acc @ [(h, n)]) @ l)"
    using Cons.prems x by (intro Cons.IH) simp
  ultimately show ?case by (simp add: x)
qed simp

section \<open>Properties\<close>

text \<open>
  A miner's walk is forced: after any sequence of steps its cursor is the number of its own steps,
  so it cannot choose which prompt comes next; every cursor that fits eight bytes names a row of the
  job; and saving and restoring the cursors changes nothing.
\<close>

theorem cursor_walk_forced:
  assumes "fold (\<lambda>h l. fst (advance l h)) steps CursorLedger = l" and "[] \<notin> set steps"
    and "0 < wj_prompt_count job" and "int (length steps) < 2 ^ 64"
  shows "expected l hotkey = int (length (filter (\<lambda>h. h = hotkey) steps))
    \<and> (\<exists>row. job_walk_index H job hotkey (expected l hotkey) = Inr row
         \<and> wj_prompt_start job \<le> row \<and> row < wj_prompt_start job + wj_prompt_count job)
    \<and> cursor_from_snapshot (map (\<lambda>(h, n). (PStr h, PInt n)) (cursor_snapshot l)) = Inr l"
proof -
  have "expected (fold (\<lambda>h l. fst (advance l h)) steps l0) hotkey
      = expected l0 hotkey + int (length (filter (\<lambda>h. h = hotkey) steps))" for l0
    by (induction steps arbitrary: l0) (auto simp: advance_def expected_def Let_def)
  then have count: "expected l hotkey = int (length (filter (\<lambda>h. h = hotkey) steps))"
    using assms(1) by (auto simp: CursorLedger_def expected_def)
  have "cursor_step\<^sup>*\<^sup>* CursorLedger l"
    unfolding assms(1) [symmetric] using assms(2)
  proof (induction steps rule: rev_induct)
    case (snoc h steps)
    let ?l = "fold (\<lambda>h l. fst (advance l h)) steps CursorLedger"
    have "cursor_step ?l (fst (advance ?l h))"
      using snoc.prems by (intro cursor_step.advanced [of h _ _ "snd (advance ?l h)"]) auto
    with snoc show ?case by simp
  qed simp
  then have "cursors_ok l" by (rule cursors.inv_steps) (rule cursors.inv_init [OF refl])
  then have "cursor_from_snapshot (map (\<lambda>(h, n). (PStr h, PInt n)) (cursor_snapshot l)) = Inr l"
    using restore_cursors [of "[]" l] by (simp add: cursor_from_snapshot_def cursor_snapshot_def CursorLedger_def)
  moreover have "expected l hotkey \<le> int (length steps)" unfolding count by simp
  then have "u64_ok (expected l hotkey)" using assms(4) count unfolding u64_ok_def by linarith
  then have "\<exists>row. job_walk_index H job hotkey (expected l hotkey) = Inr row
         \<and> wj_prompt_start job \<le> row \<and> row < wj_prompt_start job + wj_prompt_count job"
    using assms(3) by (auto simp: job_walk_index_def walk_index_def u64_ok_def)
  ultimately show ?thesis using count by blast
qed

theorem cursor_walk_forced_witness:
  "expected (fold (\<lambda>h l. fst (advance l h)) [''a'', ''b'', ''a''] CursorLedger) ''a'' = 2
   \<and> (\<exists>row. job_walk_index (\<lambda>x. x) \<lparr>wj_job_id = ''j'', wj_prompt_start = 10, wj_prompt_count = 7\<rparr> ''a'' 2 = Inr row
        \<and> 10 \<le> row \<and> row < 17)"
  using cursor_walk_forced [OF refl, of "[''a'', ''b'', ''a'']"
      "\<lparr>wj_job_id = ''j'', wj_prompt_start = 10, wj_prompt_count = 7\<rparr>" "''a''" "\<lambda>x. x"]
  by (auto simp: numeral_2_eq_2)

end
