(* ===== verification/Draw_Leases.thy ===== *)
theory Draw_Leases
  imports Slot_Ledger
begin

text \<open>
  Leases on a draw job's slots, \<^verbatim>\<open>reliquary/corpus/draw_leases.py\<close>. The book keeps each live lease by its
  id and the ids by slot. Every operation takes the readings of the clock it makes, in order; the
  random start and the fresh lease id of a grant are arguments, and a lease that ended unused is an
  element of the list of charges an operation returns (the calls of the \<^verbatim>\<open>on_unused\<close> hook).
\<close>

section \<open>The lease book\<close>

definition lease_seconds :: "int option \<Rightarrow> int \<Rightarrow> int \<Rightarrow> rat" where
  "lease_seconds episode_max_tokens max_new_tokens n =
     (let tokens = (case episode_max_tokens of
                      Some t \<Rightarrow> if t \<noteq> 0 then t else max_new_tokens * max 1 n
                    | None \<Rightarrow> max_new_tokens * max 1 n)
      in min 14400 (300 + of_int tokens / 10))"

record lease =
  le_id :: string
  le_hotkey :: string
  le_prompt :: int
  le_slot :: int
  le_granted_at :: rat
  le_expires_at :: rat
  le_price :: "rat option"
  le_round :: "int option"

record draw_leases =
  dl_prompt_start :: int
  dl_prompt_count :: int
  dl_slots_per_prompt :: int
  dl_limit :: bool
  dl_max :: int
  dl_seconds :: rat
  dl_by_id :: "(string, lease) dict"
  dl_by_slot :: "(int \<times> int, string list) dict"
  dl_unused :: "(string, rat list) dict"

type_synonym charges = "(lease \<times> rat) list"

definition DrawLeases :: "int \<Rightarrow> int \<Rightarrow> int \<Rightarrow> bool \<Rightarrow> int \<Rightarrow> rat \<Rightarrow> draw_leases" where
  "DrawLeases start prompts slots limit max_per_hotkey seconds =
     \<lparr>dl_prompt_start = start, dl_prompt_count = prompts, dl_slots_per_prompt = slots, dl_limit = limit,
      dl_max = max_per_hotkey, dl_seconds = seconds, dl_by_id = [], dl_by_slot = [], dl_unused = []\<rparr>"

definition slot_of :: "lease \<Rightarrow> int \<times> int" where
  "slot_of lease = (le_prompt lease, le_slot lease)"

definition ids_at :: "draw_leases \<Rightarrow> int \<times> int \<Rightarrow> string list" where
  "ids_at d key = dget_or (dl_by_slot d) key []"

definition drop_lease :: "string \<Rightarrow> draw_leases \<Rightarrow> draw_leases" where
  "drop_lease lease_id d =
     (case dget (dl_by_id d) lease_id of
        None \<Rightarrow> d
      | Some lease \<Rightarrow>
          let key = slot_of lease; held = filter (\<lambda>other. other \<noteq> lease_id) (ids_at d key)
          in d\<lparr>dl_by_id := dpop lease_id (dl_by_id d),
               dl_by_slot := (if held \<noteq> [] then dset key held (dl_by_slot d) else dpop key (dl_by_slot d))\<rparr>)"

definition expire_one :: "string \<Rightarrow> draw_leases \<times> charges \<Rightarrow> draw_leases \<times> charges" where
  "expire_one lease_id acc =
     (case dget (dl_by_id (fst acc)) lease_id of
        None \<Rightarrow> acc
      | Some lease \<Rightarrow>
          (let d = fst acc;
               d1 = d\<lparr>dl_unused := dset (le_hotkey lease)
                        (dget_or (dl_unused d) (le_hotkey lease) [] @ [le_expires_at lease]) (dl_unused d)\<rparr>
           in (drop_lease lease_id d1, snd acc @ [(lease, 1)])))"

definition prune_one :: "rat \<Rightarrow> string \<Rightarrow> draw_leases \<Rightarrow> draw_leases" where
  "prune_one now hotkey d =
     (let recent = filter (\<lambda>t. now - t < dl_seconds d) (dget_or (dl_unused d) hotkey [])
      in d\<lparr>dl_unused := (if recent \<noteq> [] then dset hotkey recent (dl_unused d) else dpop hotkey (dl_unused d))\<rparr>)"

definition expire :: "rat \<Rightarrow> draw_leases \<Rightarrow> draw_leases \<times> charges" where
  "expire now d =
     (let ids = map fst (filter (\<lambda>(i, lease). le_expires_at lease \<le> now) (dl_by_id d));
          (d1, charged) = fold expire_one ids (d, [])
      in (fold (prune_one now) (dkeys (dl_unused d1)) d1, charged))"

text \<open>\<^verbatim>\<open>[self._by_id[i] for i in ids]\<close>.\<close>

definition leases_of :: "draw_leases \<Rightarrow> string list \<Rightarrow> lease list res" where
  "leases_of d ids =
     fold_res (\<lambda>i acc. case dget (dl_by_id d) i of None \<Rightarrow> Inl KeyError | Some l \<Rightarrow> Inr (acc @ [l])) ids []"

definition holders :: "rat \<Rightarrow> draw_leases \<Rightarrow> int \<Rightarrow> int \<Rightarrow> (draw_leases \<times> charges \<times> lease list) res" where
  "holders now d prompt_index slot =
     (let (d1, charged) = expire now d
      in bind_res (leases_of d1 (ids_at d1 (prompt_index, slot))) (\<lambda>leases. Inr (d1, charged, leases)))"

definition leases_held :: "draw_leases \<Rightarrow> string \<Rightarrow> lease list" where
  "leases_held d hotkey = filter (\<lambda>lease. le_hotkey lease = hotkey) (map snd (dl_by_id d))"

definition held_by :: "rat \<Rightarrow> draw_leases \<Rightarrow> string \<Rightarrow> draw_leases \<times> charges \<times> lease list" where
  "held_by now d hotkey = (let (d1, charged) = expire now d in (d1, charged, leases_held d1 hotkey))"

definition base_cap :: "draw_leases \<Rightarrow> int" where
  "base_cap d = max 1 (min (dl_max d) (dl_prompt_count d * dl_slots_per_prompt d div 4))"

definition cap_of :: "draw_leases \<Rightarrow> string \<Rightarrow> int" where
  "cap_of d hotkey =
     (if \<not> dl_limit d then max 1 (dl_prompt_count d * dl_slots_per_prompt d)
      else max 1 (base_cap d div 2 ^ length (dget_or (dl_unused d) hotkey [])))"

definition cap :: "rat \<Rightarrow> draw_leases \<Rightarrow> string \<Rightarrow> draw_leases \<times> charges \<times> int" where
  "cap now d hotkey = (let (d1, charged) = expire now d in (d1, charged, cap_of d1 hotkey))"

definition lease_count :: "rat \<Rightarrow> draw_leases \<Rightarrow> draw_leases \<times> charges \<times> int" where
  "lease_count now d = (let (d1, charged) = expire now d in (d1, charged, int (length (dl_by_id d1))))"

section \<open>Granting and ending leases\<close>

definition add_lease ::
  "string \<Rightarrow> string \<Rightarrow> int \<times> int \<Rightarrow> rat \<Rightarrow> rat option \<Rightarrow> int option \<Rightarrow> draw_leases \<Rightarrow> draw_leases \<times> lease" where
  "add_lease token hotkey key now price rnd d =
     (let lease = \<lparr>le_id = token, le_hotkey = hotkey, le_prompt = fst key, le_slot = snd key, le_granted_at = now,
                   le_expires_at = now + dl_seconds d, le_price = price, le_round = rnd\<rparr>
      in (d\<lparr>dl_by_id := dset token lease (dl_by_id d),
            dl_by_slot := dset key (ids_at d key @ [token]) (dl_by_slot d)\<rparr>, lease))"

text \<open>The first unleased slot of the list, else the first one another hotkey has held alone for half its time.\<close>

fun pick_slot ::
  "draw_leases \<Rightarrow> string \<Rightarrow> rat \<Rightarrow> (int \<times> int) list \<Rightarrow> (int \<times> int) option \<Rightarrow> (int \<times> int) option res" where
  "pick_slot d hotkey now [] tail = Inr tail"
| "pick_slot d hotkey now (key # rest) tail =
     (let held = ids_at d key
      in if held = [] then Inr (Some key)
         else bind_res (leases_of d held) (\<lambda>leases.
                pick_slot d hotkey now rest
                  (case leases of
                     [l] \<Rightarrow> if tail = None \<and> le_hotkey l \<noteq> hotkey \<and> dl_seconds d / 2 \<le> now - le_granted_at l
                           then Some key else tail
                   | _ \<Rightarrow> tail)))"

datatype grant_answer = Granted lease | TooMany | NoSlot

definition grant ::
  "rat \<Rightarrow> rat \<Rightarrow> rat \<Rightarrow> rat \<Rightarrow> string \<Rightarrow> int \<Rightarrow> string \<Rightarrow> (int \<Rightarrow> (int \<times> int) list)
   \<Rightarrow> rat option \<Rightarrow> int option \<Rightarrow> draw_leases \<Rightarrow> (draw_leases \<times> charges \<times> grant_answer) res" where
  "grant t1 t2 t3 now token draw hotkey free_slots price rnd d =
     (let (d1, c1) = expire t1 d; (d2, c2, held) = held_by t2 d1 hotkey; (d3, c3, limit) = cap t3 d2 hotkey
      in if limit \<le> int (length held) then Inr (d3, c1 @ c2 @ c3, TooMany)
         else let start = (if dl_prompt_count d3 \<noteq> 0 then dl_prompt_start d3 + draw else dl_prompt_start d3)
              in bind_res (pick_slot d3 hotkey now (free_slots start) None) (\<lambda>picked.
                   case picked of
                     None \<Rightarrow> Inr (d3, c1 @ c2 @ c3, NoSlot)
                   | Some key \<Rightarrow>
                       let (d4, lease) = add_lease token hotkey key now price rnd d3
                       in Inr (d4, c1 @ c2 @ c3, Granted lease)))"

definition release :: "rat \<Rightarrow> draw_leases \<Rightarrow> string \<Rightarrow> string \<Rightarrow> draw_leases \<times> charges \<times> bool" where
  "release now d hotkey lease_id =
     (case dget (dl_by_id d) lease_id of
        None \<Rightarrow> (d, [], False)
      | Some lease \<Rightarrow>
          if le_hotkey lease \<noteq> hotkey then (d, [], False)
          else let held = (if 0 < dl_seconds d then (now - le_granted_at lease) / dl_seconds d else 1)
               in (drop_lease lease_id d, [(lease, held)], True))"

definition refusal :: "rat \<Rightarrow> draw_leases \<Rightarrow> string \<Rightarrow> int \<Rightarrow> int \<Rightarrow> (draw_leases \<times> charges \<times> string option) res" where
  "refusal now d hotkey prompt_index slot =
     bind_res (holders now d prompt_index slot) (\<lambda>(d1, charged, leases).
       Inr (d1, charged,
            if leases \<noteq> [] \<and> list_all (\<lambda>l. le_hotkey l \<noteq> hotkey) leases then Some ''draw_slot_leased'' else None))"

definition held_lease :: "rat \<Rightarrow> draw_leases \<Rightarrow> string \<Rightarrow> int \<Rightarrow> int \<Rightarrow> (draw_leases \<times> charges \<times> lease option) res" where
  "held_lease now d hotkey prompt_index slot =
     bind_res (holders now d prompt_index slot) (\<lambda>(d1, charged, leases).
       Inr (d1, charged, List.find (\<lambda>l. le_hotkey l = hotkey) leases))"

definition settle :: "draw_leases \<Rightarrow> int \<Rightarrow> int \<Rightarrow> draw_leases" where
  "settle d prompt_index slot = fold drop_lease (ids_at d (prompt_index, slot)) d"

section \<open>The free slots of a job\<close>

text \<open>
  \<^verbatim>\<open>free_draw_slots\<close>: the open slots of a job, in prompt order from \<open>start\<close> round the range; \<open>slots\<close> is the
  job's draw slots per prompt and \<open>taken\<close> the slots already accepted.
\<close>

definition free_in_prompt :: "slot_ledger \<Rightarrow> int \<Rightarrow> (int \<Rightarrow> int \<Rightarrow> bool) \<Rightarrow> int \<Rightarrow> (int \<times> int) list res" where
  "free_in_prompt ledger slots taken prompt =
     bind_res (prompt_state ledger prompt) (\<lambda>st.
       if st \<noteq> ''open'' then Inr []
       else bind_res (draw_cursors ledger prompt slots) (\<lambda>n.
              fold_res (\<lambda>slot acc. bind_res (slot_exhausted ledger prompt (int slot)) (\<lambda>full.
                  Inr (if \<not> full \<and> \<not> taken prompt (int slot) then acc @ [(prompt, int slot)] else acc)))
                [0..<nat n] []))"

definition free_draw_slots ::
  "int \<Rightarrow> int \<Rightarrow> slot_ledger \<Rightarrow> int \<Rightarrow> (int \<Rightarrow> int \<Rightarrow> bool) \<Rightarrow> int \<Rightarrow> (int \<times> int) list res" where
  "free_draw_slots first prompts ledger slots taken start =
     fold_res (\<lambda>offset acc.
         bind_res (free_in_prompt ledger slots taken (first + (start - first + int offset) mod prompts))
           (\<lambda>found. Inr (acc @ found)))
       [0..<nat prompts] []"

section \<open>The book and its index\<close>

definition lease_at :: "draw_leases \<Rightarrow> string \<Rightarrow> lease option" where
  "lease_at d i = dget (dl_by_id d) i"

definition book_ok :: "draw_leases \<Rightarrow> bool" where
  "book_ok d \<longleftrightarrow>
     dict_ok (dl_by_id d) \<and> dict_ok (dl_by_slot d)
     \<and> (\<forall>i l. lease_at d i = Some l \<longrightarrow> le_id l = i)
     \<and> (\<forall>key. distinct (ids_at d key)
          \<and> set (ids_at d key) = {i. \<exists>l. lease_at d i = Some l \<and> slot_of l = key})"

definition slots_shared_ok :: "draw_leases \<Rightarrow> bool" where
  "slots_shared_ok d \<longleftrightarrow>
     (\<forall>key. length (ids_at d key) \<le> 2)
     \<and> (\<forall>i j l k. lease_at d i = Some l \<longrightarrow> lease_at d j = Some k \<longrightarrow> slot_of l = slot_of k
          \<longrightarrow> le_hotkey l = le_hotkey k \<longrightarrow> i = j)"

definition hard_cap :: "draw_leases \<Rightarrow> int" where
  "hard_cap d = (if dl_limit d then base_cap d else max 1 (dl_prompt_count d * dl_slots_per_prompt d))"

definition caps_ok :: "draw_leases \<Rightarrow> bool" where
  "caps_ok d \<longleftrightarrow> (\<forall>hotkey. int (length (leases_held d hotkey)) \<le> hard_cap d)"

definition dl_inv :: "draw_leases \<Rightarrow> bool" where
  "dl_inv d \<longleftrightarrow> book_ok d \<and> slots_shared_ok d \<and> caps_ok d"

text \<open>What an operation that only ends leases does: it keeps the leases satisfying \<open>P\<close> and the settings.\<close>

definition keeps :: "(string \<Rightarrow> lease \<Rightarrow> bool) \<Rightarrow> draw_leases \<Rightarrow> draw_leases \<Rightarrow> bool" where
  "keeps P d d' \<longleftrightarrow>
     dl_by_id d' = filter (\<lambda>(i, l). P i l) (dl_by_id d)
     \<and> (\<forall>key. ids_at d' key = filter (\<lambda>i. \<exists>l. lease_at d i = Some l \<and> P i l) (ids_at d key))
     \<and> dict_ok (dl_by_slot d')
     \<and> dl_prompt_start d' = dl_prompt_start d \<and> dl_prompt_count d' = dl_prompt_count d
     \<and> dl_slots_per_prompt d' = dl_slots_per_prompt d \<and> dl_limit d' = dl_limit d \<and> dl_max d' = dl_max d
     \<and> dl_seconds d' = dl_seconds d"

lemma keeps_lease_at:
  assumes "book_ok d" and "keeps P d d'"
  shows "lease_at d' i = (case lease_at d i of Some l \<Rightarrow> if P i l then Some l else None | None \<Rightarrow> None)"
  using assms by (simp add: lease_at_def keeps_def book_ok_def dget_filter)

lemma keeps_lease_iff:
  "book_ok d \<Longrightarrow> keeps P d d' \<Longrightarrow> lease_at d' i = Some l \<longleftrightarrow> lease_at d i = Some l \<and> P i l"
  by (auto simp: keeps_lease_at split: option.splits)

lemma keeps_ids:
  "keeps P d d' \<Longrightarrow> ids_at d' key = filter (\<lambda>i. \<exists>l. lease_at d i = Some l \<and> P i l) (ids_at d key)"
  unfolding keeps_def by blast

lemma keeps_book:
  assumes "book_ok d" and "keeps P d d'"
  shows "book_ok d'"
  using assms unfolding book_ok_def keeps_lease_iff [OF assms] keeps_ids [OF assms(2)]
  by (auto simp: keeps_def distinct_map_filter)

lemma keeps_inv:
  assumes "dl_inv d" and k: "keeps P d d'"
  shows "dl_inv d'"
proof -
  have book: "book_ok d" using assms(1) by (simp add: dl_inv_def)
  have ok: "book_ok d'" by (rule keeps_book [OF book k])
  note some = keeps_lease_iff [OF book k] and ids = keeps_ids [OF k]
  have shared: "slots_shared_ok d'"
    using assms(1) le_trans [OF length_filter_le] unfolding dl_inv_def slots_shared_ok_def some ids by blast
  have "length (leases_held d' h) \<le> length (leases_held d h)" for h
  proof -
    have "length (filter Q (map snd (filter R xs))) \<le> length (filter Q (map snd xs))"
      for Q and R and xs :: "(string \<times> lease) list"
      by (induction xs) auto
    then show ?thesis using k by (simp add: leases_held_def keeps_def)
  qed
  moreover have "hard_cap d' = hard_cap d" using k by (simp add: hard_cap_def base_cap_def keeps_def)
  ultimately have "caps_ok d'"
    using assms(1) unfolding dl_inv_def caps_ok_def by (metis of_nat_le_iff order_trans)
  with ok shared show ?thesis by (simp add: dl_inv_def)
qed

lemma ids_at_lease: "book_ok d \<Longrightarrow> i \<in> set (ids_at d key) \<longleftrightarrow> (\<exists>l. lease_at d i = Some l \<and> slot_of l = key)"
  unfolding book_ok_def by blast

lemma keeps_refl: "book_ok d \<Longrightarrow> (\<And>i l. lease_at d i = Some l \<Longrightarrow> P i l) \<Longrightarrow> keeps P d d"
proof -
  assume book: "book_ok d" and P: "\<And>i l. lease_at d i = Some l \<Longrightarrow> P i l"
  have "filter (\<lambda>i. \<exists>l. lease_at d i = Some l \<and> P i l) (ids_at d key) = ids_at d key" for key
    using ids_at_lease [OF book] P by (metis (mono_tags, lifting) filter_True)
  moreover have "filter (\<lambda>(i, l). P i l) (dl_by_id d) = dl_by_id d"
    using book P by (auto simp: book_ok_def lease_at_def filter_id_conv)
  ultimately show ?thesis using book by (simp add: keeps_def book_ok_def)
qed

lemma keeps_trans:
  assumes "book_ok d" and k: "keeps P d d'" and k': "keeps Q d' d''"
  shows "keeps (\<lambda>i l. P i l \<and> Q i l) d d''"
proof -
  have both: "(\<exists>l. lease_at d i = Some l \<and> P i l) \<and> (\<exists>l. lease_at d' i = Some l \<and> Q i l)
      \<longleftrightarrow> (\<exists>l. lease_at d i = Some l \<and> P i l \<and> Q i l)" for i
    unfolding keeps_lease_at [OF assms(1) k] by (cases "lease_at d i") auto
  have "ids_at d'' key = filter (\<lambda>i. \<exists>l. lease_at d i = Some l \<and> P i l \<and> Q i l) (ids_at d key)" for key
    unfolding keeps_ids [OF k'] keeps_ids [OF k] filter_filter both ..
  moreover have "dl_by_id d'' = filter (\<lambda>(i, l). P i l \<and> Q i l) (dl_by_id d)"
    using k k' unfolding keeps_def by (simp add: filter_filter split_def)
  ultimately show ?thesis using k k' by (simp add: keeps_def)
qed

text \<open>Dropping a lease keeps all the others.\<close>

lemma drop_keeps:
  assumes book: "book_ok d"
  shows "keeps (\<lambda>i l. i \<noteq> x) d (drop_lease x d)"
proof (cases "lease_at d x")
  case None
  then have "drop_lease x d = d" by (simp add: drop_lease_def lease_at_def)
  moreover have "keeps (\<lambda>i l. i \<noteq> x) d d" using None by (intro keeps_refl [OF book]) auto
  ultimately show ?thesis by simp
next
  case (Some lx)
  let ?key = "slot_of lx"
  let ?held = "filter (\<lambda>other. other \<noteq> x) (ids_at d ?key)"
  let ?d' = "drop_lease x d"
  have d': "?d' = d\<lparr>dl_by_id := dpop x (dl_by_id d),
      dl_by_slot := (if ?held \<noteq> [] then dset ?key ?held (dl_by_slot d) else dpop ?key (dl_by_slot d))\<rparr>"
    using Some by (simp add: drop_lease_def lease_at_def Let_def)
  have ids: "ids_at ?d' key = filter (\<lambda>i. i \<noteq> x) (ids_at d key)" for key
  proof (cases "key = ?key")
    case True
    then show ?thesis by (simp add: d' ids_at_def)
  next
    case False
    then have "x \<notin> set (ids_at d key)" using ids_at_lease [OF book, of x key] Some by auto
    then have "filter (\<lambda>i. i \<noteq> x) (ids_at d key) = ids_at d key" by (auto simp: filter_id_conv)
    with False show ?thesis by (simp add: d' ids_at_def)
  qed
  have "filter (\<lambda>i. \<exists>l. lease_at d i = Some l \<and> i \<noteq> x) (ids_at d key) = filter (\<lambda>i. i \<noteq> x) (ids_at d key)" for key
    using ids_at_lease [OF book] by (intro filter_cong refl) auto
  moreover have "dl_by_id ?d' = filter (\<lambda>(i, l). i \<noteq> x) (dl_by_id d)"
    by (auto simp: d' AList.delete_eq split_def intro: filter_cong)
  moreover have "dict_ok (dl_by_slot ?d')" using book by (simp add: d' book_ok_def)
  ultimately show ?thesis using ids by (simp add: keeps_def d')
qed

lemma fold_keeps:
  assumes step: "\<And>x a. book_ok (\<pi> a) \<Longrightarrow> keeps (\<lambda>i l. i \<noteq> x) (\<pi> a) (\<pi> (g x a))" and "book_ok (\<pi> a)"
  shows "keeps (\<lambda>i l. i \<notin> set xs) (\<pi> a) (\<pi> (fold g xs a))"
  using assms(2)
proof (induction xs arbitrary: a)
  case Nil
  then show ?case by (auto intro: keeps_refl)
next
  case (Cons x xs)
  have "book_ok (\<pi> (g x a))" by (rule keeps_book [OF Cons.prems step [OF Cons.prems]])
  from keeps_trans [OF Cons.prems step [OF Cons.prems] Cons.IH [OF this]] show ?case by simp
qed

lemma drops_keep: "book_ok d \<Longrightarrow> keeps (\<lambda>i l. i \<notin> set xs) d (fold drop_lease xs d)"
  by (rule fold_keeps [where \<pi> = "\<lambda>d. d"]) (rule drop_keeps)

lemma keeps_cong:
  assumes "book_ok d" and "\<And>i l. lease_at d i = Some l \<Longrightarrow> P i l \<longleftrightarrow> Q i l" and "keeps P d d'"
  shows "keeps Q d d'"
proof -
  have "filter (\<lambda>(i, l). P i l) (dl_by_id d) = filter (\<lambda>(i, l). Q i l) (dl_by_id d)"
    using assms(1,2) by (intro filter_cong refl) (auto simp: lease_at_def book_ok_def)
  moreover have "(\<exists>l. lease_at d i = Some l \<and> P i l) \<longleftrightarrow> (\<exists>l. lease_at d i = Some l \<and> Q i l)" for i
    using assms(2) by auto
  ultimately show ?thesis using assms(3) unfolding keeps_def by presburger
qed

section \<open>Expiry\<close>

lemma unused_irrelevant [simp]:
  "lease_at (d\<lparr>dl_unused := u\<rparr>) i = lease_at d i" "ids_at (d\<lparr>dl_unused := u\<rparr>) key = ids_at d key"
  "book_ok (d\<lparr>dl_unused := u\<rparr>) = book_ok d"
  "keeps P (d\<lparr>dl_unused := u\<rparr>) d' = keeps P d d'" "keeps P d (d'\<lparr>dl_unused := u\<rparr>) = keeps P d d'"
  by (simp_all add: lease_at_def ids_at_def book_ok_def keeps_def)

lemma expire_one_keeps:
  assumes "book_ok (fst acc)"
  shows "keeps (\<lambda>i l. i \<noteq> x) (fst acc) (fst (expire_one x acc))"
proof (cases "lease_at (fst acc) x")
  case None
  then have "keeps (\<lambda>i l. i \<noteq> x) (fst acc) (fst acc)" by (intro keeps_refl [OF assms]) auto
  then show ?thesis using None by (simp add: expire_one_def lease_at_def)
next
  case (Some l)
  let ?d1 = "fst acc\<lparr>dl_unused := dset (le_hotkey l)
      (dget_or (dl_unused (fst acc)) (le_hotkey l) [] @ [le_expires_at l]) (dl_unused (fst acc))\<rparr>"
  have "fst (expire_one x acc) = drop_lease x ?d1" using Some by (simp add: expire_one_def lease_at_def Let_def)
  moreover have "keeps (\<lambda>i l. i \<noteq> x) ?d1 (drop_lease x ?d1)" using assms by (intro drop_keeps) simp
  ultimately show ?thesis by simp
qed

lemma prune_keeps: "keeps P d (fold (prune_one now) hs d') = keeps P d d'"
proof (induction hs arbitrary: d')
  case (Cons h hs)
  have "keeps P d (prune_one now h d') = keeps P d d'" unfolding prune_one_def Let_def by (rule unused_irrelevant)
  with Cons show ?case by simp
qed simp

lemma expire_keeps:
  assumes "book_ok d" and "expire now d = (d', c)"
  shows "keeps (\<lambda>i l. now < le_expires_at l) d d'"
proof -
  let ?ids = "map fst (filter (\<lambda>(i, lease). le_expires_at lease \<le> now) (dl_by_id d))"
  have "keeps P d d' = keeps P d (fst (fold expire_one ?ids (d, [])))" for P
    using assms(2) prune_keeps by (auto simp: expire_def Let_def split: prod.splits)
  moreover have "keeps (\<lambda>i l. i \<notin> set ?ids) (fst (d, [] :: charges)) (fst (fold expire_one ?ids (d, [])))"
    by (rule fold_keeps [where \<pi> = fst, OF expire_one_keeps]) (use assms(1) in simp_all)
  ultimately have "keeps (\<lambda>i l. i \<notin> set ?ids) d d'" by simp
  then show ?thesis
  proof (rule keeps_cong [OF assms(1), rotated])
    fix i l assume "lease_at d i = Some l"
    moreover have "dict_ok (dl_by_id d)" using assms(1) by (simp add: book_ok_def)
    ultimately have "i \<in> set ?ids \<longleftrightarrow> le_expires_at l \<le> now"
      by (force simp: lease_at_def dest: map_of_SomeD eq_key_imp_eq_value)
    then show "i \<notin> set ?ids \<longleftrightarrow> now < le_expires_at l" by auto
  qed
qed

lemma expire_inv: "dl_inv d \<Longrightarrow> expire now d = (d', c) \<Longrightarrow> dl_inv d'"
  using expire_keeps keeps_inv dl_inv_def by blast

section \<open>Lookups\<close>

lemma leases_of_total:
  assumes "\<forall>i \<in> set ids. lease_at d i \<noteq> None"
  shows "leases_of d ids = Inr (map (\<lambda>i. the (lease_at d i)) ids)"
proof -
  have "fold_res (\<lambda>i acc. case dget (dl_by_id d) i of None \<Rightarrow> Inl KeyError | Some l \<Rightarrow> Inr (acc @ [l])) ids acc
      = Inr (acc @ map (\<lambda>i. the (lease_at d i)) ids)" for acc
    using assms by (induction ids arbitrary: acc) (auto simp: lease_at_def)
  then show ?thesis by (simp add: leases_of_def)
qed

lemma leases_at_slot:
  assumes "book_ok d"
  shows "leases_of d (ids_at d key) = Inr (map (\<lambda>i. the (lease_at d i)) (ids_at d key))"
    and "set (map (\<lambda>i. the (lease_at d i)) (ids_at d key)) = {l. lease_at d (le_id l) = Some l \<and> slot_of l = key}"
proof -
  show "leases_of d (ids_at d key) = Inr (map (\<lambda>i. the (lease_at d i)) (ids_at d key))"
    using ids_at_lease [OF assms] by (intro leases_of_total) (cases key, auto)
  have id: "le_id l = i" if "lease_at d i = Some l" for i l using assms that by (simp add: book_ok_def)
  have mem: "i \<in> set (ids_at d key) \<longleftrightarrow> (\<exists>l. lease_at d i = Some l \<and> slot_of l = key)" for i
    using ids_at_lease [OF assms] by (cases key) simp
  show "set (map (\<lambda>i. the (lease_at d i)) (ids_at d key)) = {l. lease_at d (le_id l) = Some l \<and> slot_of l = key}"
    (is "?L = ?R")
  proof (rule set_eqI, rule iffI)
    fix l assume "l \<in> ?L"
    then obtain i where "i \<in> set (ids_at d key)" "l = the (lease_at d i)" by auto
    then have "lease_at d i = Some l" "slot_of l = key" using mem by auto
    then show "l \<in> ?R" using id by simp
  next
    fix l assume "l \<in> ?R"
    then have "le_id l \<in> set (ids_at d key)" "the (lease_at d (le_id l)) = l" using mem by auto
    then show "l \<in> ?L" by force
  qed
qed

text \<open>A slot a second hotkey may share: held once, by another hotkey, for at least half its time.\<close>

definition shareable :: "draw_leases \<Rightarrow> string \<Rightarrow> rat \<Rightarrow> int \<times> int \<Rightarrow> bool" where
  "shareable d hotkey now key \<longleftrightarrow>
     (case ids_at d key of
        [i] \<Rightarrow> (case lease_at d i of None \<Rightarrow> False
                | Some l \<Rightarrow> le_hotkey l \<noteq> hotkey \<and> dl_seconds d / 2 \<le> now - le_granted_at l)
      | _ \<Rightarrow> False)"

lemma pick_slot_exact:
  assumes "book_ok d"
  shows "pick_slot d hotkey now keys tail =
    Inr (case List.find (\<lambda>key. ids_at d key = []) keys of
           Some key \<Rightarrow> Some key
         | None \<Rightarrow> (case tail of Some key \<Rightarrow> Some key | None \<Rightarrow> List.find (shareable d hotkey now) keys))"
proof (induction keys arbitrary: tail)
  case (Cons key keys)
  show ?case
  proof (cases "ids_at d key")
    case Nil
    then show ?thesis by simp
  next
    case held: (Cons i js)
    have leases: "leases_of d (i # js) = Inr (map (\<lambda>i. the (lease_at d i)) (i # js))"
      using leases_at_slot(1) [OF assms, of key] held by simp
    have "i \<in> set (ids_at d key)" using held by simp
    then obtain l where "lease_at d i = Some l" using ids_at_lease [OF assms] by (cases key) auto
    with held leases Cons show ?thesis
      by (cases js; cases tail) (simp_all add: shareable_def split: option.split)
  qed
qed (simp split: option.splits)


section \<open>A grant\<close>

lemma added_lease:
  assumes "add_lease token hotkey key now price rnd d = (d', l)"
  shows "lease_at d' i = (if i = token then Some l else lease_at d i)"
    and "ids_at d' k = (if k = key then ids_at d key @ [token] else ids_at d k)"
    and "le_id l = token" "le_hotkey l = hotkey" "slot_of l = key"
    and "le_granted_at l = now" "le_expires_at l = now + dl_seconds d" "hard_cap d' = hard_cap d"
  using assms by (auto simp: add_lease_def Let_def lease_at_def ids_at_def dget_or_def slot_of_def hard_cap_def
      base_cap_def update_conv')

lemma added_held:
  assumes "add_lease token hotkey key now price rnd d = (d', l)" and "lease_at d token = None"
  shows "leases_held d' h = leases_held d h @ (if h = hotkey then [l] else [])"
  using assms by (auto simp: add_lease_def Let_def leases_held_def lease_at_def dset_fresh map_of_eq_None_iff)

lemma add_lease_inv:
  assumes inv: "dl_inv d" and fresh: "lease_at d token = None"
    and key: "ids_at d key = [] \<or> shareable d hotkey now key"
    and room: "int (length (leases_held d hotkey)) < hard_cap d"
    and add: "add_lease token hotkey key now price rnd d = (d', l)"
  shows "dl_inv d'"
proof -
  note added = added_lease [OF add]
  have book: "book_ok d" and shared: "slots_shared_ok d" and caps: "caps_ok d" using inv by (simp_all add: dl_inv_def)
  have mem: "i \<in> set (ids_at d k) \<longleftrightarrow> (\<exists>l. lease_at d i = Some l \<and> slot_of l = k)" for i k
    using ids_at_lease [OF book] by (cases k) simp
  have distinct: "distinct (ids_at d k)" for k using book unfolding book_ok_def by blast
  have "dict_ok (dl_by_id d')" "dict_ok (dl_by_slot d')"
    using book add by (auto simp: add_lease_def Let_def book_ok_def)
  moreover have "distinct (ids_at d' k) \<and> set (ids_at d' k) = {i. \<exists>l. lease_at d' i = Some l \<and> slot_of l = k}" for k
    using distinct [of k] distinct [of key] mem [of _ k] mem [of _ key] fresh by (cases "k = key") (auto simp: added)
  moreover have "le_id l' = i" if "lease_at d' i = Some l'" for i l'
    using that book added by (auto simp: book_ok_def split: if_splits)
  ultimately have "book_ok d'" unfolding book_ok_def by blast
  moreover have "slots_shared_ok d'"
  proof -
    have others: "le_hotkey l' \<noteq> hotkey" if "lease_at d i = Some l'" "slot_of l' = key" for i l'
    proof -
      have "i \<in> set (ids_at d key)" using mem that by blast
      then show ?thesis using key that by (auto simp: shareable_def split: list.splits option.splits)
    qed
    have "length (ids_at d key) \<le> 1" using key by (auto simp: shareable_def split: list.splits)
    moreover have "length (ids_at d k) \<le> 2" for k using shared unfolding slots_shared_ok_def by blast
    ultimately have "length (ids_at d' k) \<le> 2" for k by (simp add: added)
    moreover have "i = j" if "lease_at d' i = Some l1" "lease_at d' j = Some l2" "slot_of l1 = slot_of l2"
      "le_hotkey l1 = le_hotkey l2" for i j l1 l2
      using that shared others added(4,5) by (auto simp: added(1) slots_shared_ok_def split: if_splits)
    ultimately show ?thesis unfolding slots_shared_ok_def by blast
  qed
  moreover have "caps_ok d'"
    using caps room by (simp add: caps_ok_def added_held [OF add fresh] added)
  ultimately show ?thesis by (simp add: dl_inv_def)
qed

lemma cap_of_le: "cap_of d hotkey \<le> hard_cap d"
proof -
  have "base_cap d div 2 ^ n \<le> base_cap d div 1" for n
    by (rule zdiv_mono2) (simp_all add: base_cap_def)
  then show ?thesis by (auto simp: cap_of_def hard_cap_def base_cap_def)
qed

lemma keeps_held:
  assumes "keeps P d d'"
  shows "length (leases_held d' hotkey) \<le> length (leases_held d hotkey)"
proof -
  have "length (filter Q (map snd (filter R xs))) \<le> length (filter Q (map snd xs))" for Q R and xs :: "(string, lease) dict"
    by (induction xs) auto
  then show ?thesis using assms by (simp add: keeps_def leases_held_def)
qed

lemma expire_held:
  assumes "dl_inv d" "expire now d = (d', c)"
  shows "length (leases_held d' hotkey) \<le> length (leases_held d hotkey)"
  using assms expire_keeps keeps_held unfolding dl_inv_def by blast

text \<open>What a grant does: nothing but expiry when the cap is reached or no slot is free, else one new lease.\<close>

lemma grant_cases:
  assumes inv: "dl_inv d" and fresh: "lease_at d token = None"
  obtains d3 c where "dl_inv d3" "keeps (\<lambda>i l. t1 < le_expires_at l \<and> t2 < le_expires_at l \<and> t3 < le_expires_at l) d d3"
    "lease_at d3 token = None"
    "grant t1 t2 t3 now token draw hotkey free price rnd d = Inr (d3, c, TooMany)
     \<or> (int (length (leases_held d3 hotkey)) < cap_of d3 hotkey \<and>
        grant t1 t2 t3 now token draw hotkey free price rnd d =
          bind_res (pick_slot d3 hotkey now
                      (free (if dl_prompt_count d3 \<noteq> 0 then dl_prompt_start d3 + draw else dl_prompt_start d3)) None)
            (\<lambda>picked. case picked of None \<Rightarrow> Inr (d3, c, NoSlot)
               | Some key \<Rightarrow> let (d4, l) = add_lease token hotkey key now price rnd d3 in Inr (d4, c, Granted l)))"
proof -
  obtain d1 c1 where e1: "expire t1 d = (d1, c1)" by fastforce
  obtain d2 c2 where e2: "expire t2 d1 = (d2, c2)" by fastforce
  obtain d3 c3 where e3: "expire t3 d2 = (d3, c3)" by fastforce
  have inv1: "dl_inv d1" using expire_inv [OF inv e1] .
  have inv2: "dl_inv d2" using expire_inv [OF inv1 e2] .
  have inv3: "dl_inv d3" using expire_inv [OF inv2 e3] .
  have books: "book_ok d" "book_ok d1" "book_ok d2" using inv inv1 inv2 by (simp_all add: dl_inv_def)
  have k: "keeps (\<lambda>i l. t1 < le_expires_at l \<and> t2 < le_expires_at l \<and> t3 < le_expires_at l) d d3"
    using keeps_trans [OF books(1) keeps_trans [OF books(1) expire_keeps [OF books(1) e1] expire_keeps [OF books(2) e2]]
        expire_keeps [OF books(3) e3]] by (simp add: conj_assoc)
  have "lease_at d3 token = None" using keeps_lease_at [OF books(1) k, of token] fresh by simp
  moreover have "length (leases_held d3 hotkey) \<le> length (leases_held d2 hotkey)"
    by (rule expire_held [OF inv2 e3])
  ultimately show ?thesis
    using e1 e2 e3
    by (intro that [OF inv3 k, where c = "c1 @ c2 @ c3"]) (simp_all add: grant_def held_by_def cap_def Let_def)
qed

text \<open>The slot a grant picks.\<close>

definition picks :: "draw_leases \<Rightarrow> string \<Rightarrow> rat \<Rightarrow> (int \<times> int) list \<Rightarrow> int \<times> int \<Rightarrow> bool" where
  "picks d hotkey now keys key \<longleftrightarrow>
     key \<in> set keys
     \<and> (ids_at d key = [] \<or> (\<forall>k. k \<in> set keys \<longrightarrow> ids_at d k \<noteq> []) \<and> shareable d hotkey now key)"

lemma pick_slot_cases:
  assumes "book_ok d"
  obtains key where "pick_slot d hotkey now keys None = Inr (Some key)" "picks d hotkey now keys key"
  | "pick_slot d hotkey now keys None = Inr None"
    "\<forall>key. key \<in> set keys \<longrightarrow> ids_at d key \<noteq> [] \<and> \<not> shareable d hotkey now key"
proof (cases "List.find (\<lambda>key. ids_at d key = []) keys")
  case (Some key)
  then have "picks d hotkey now keys key" by (auto simp: picks_def find_Some_iff)
  then show ?thesis using that(1) Some by (simp add: pick_slot_exact [OF assms])
next
  case none: None
  show ?thesis
  proof (cases "List.find (shareable d hotkey now) keys")
    case None
    with none have "\<forall>key. key \<in> set keys \<longrightarrow> ids_at d key \<noteq> [] \<and> \<not> shareable d hotkey now key"
      by (simp add: find_None_iff)
    then show ?thesis using that(2) none None by (simp add: pick_slot_exact [OF assms])
  next
    case (Some key)
    with none have "picks d hotkey now keys key" by (auto simp: picks_def find_Some_iff find_None_iff)
    then show ?thesis using that(1) none Some by (simp add: pick_slot_exact [OF assms])
  qed
qed

lemma grant_total:
  assumes inv: "dl_inv d" and fresh: "lease_at d token = None"
  obtains d3 c where "dl_inv d3" "keeps (\<lambda>i l. t1 < le_expires_at l \<and> t2 < le_expires_at l \<and> t3 < le_expires_at l) d d3"
    "grant t1 t2 t3 now token draw hotkey free price rnd d = Inr (d3, c, TooMany)"
  | d3 c where "dl_inv d3" "keeps (\<lambda>i l. t1 < le_expires_at l \<and> t2 < le_expires_at l \<and> t3 < le_expires_at l) d d3"
    "grant t1 t2 t3 now token draw hotkey free price rnd d = Inr (d3, c, NoSlot)"
  | d3 c d4 l key where "dl_inv d4"
    "keeps (\<lambda>i l. t1 < le_expires_at l \<and> t2 < le_expires_at l \<and> t3 < le_expires_at l) d d3"
    "picks d3 hotkey now (free (if dl_prompt_count d3 \<noteq> 0 then dl_prompt_start d3 + draw else dl_prompt_start d3)) key"
    "add_lease token hotkey key now price rnd d3 = (d4, l)" "lease_at d3 token = None"
    "grant t1 t2 t3 now token draw hotkey free price rnd d = Inr (d4, c, Granted l)"
proof -
  obtain d3 c where d3: "dl_inv d3"
      "keeps (\<lambda>i l. t1 < le_expires_at l \<and> t2 < le_expires_at l \<and> t3 < le_expires_at l) d d3" "lease_at d3 token = None"
    and g: "grant t1 t2 t3 now token draw hotkey free price rnd d = Inr (d3, c, TooMany)
     \<or> (int (length (leases_held d3 hotkey)) < cap_of d3 hotkey \<and>
        grant t1 t2 t3 now token draw hotkey free price rnd d =
          bind_res (pick_slot d3 hotkey now
                      (free (if dl_prompt_count d3 \<noteq> 0 then dl_prompt_start d3 + draw else dl_prompt_start d3)) None)
            (\<lambda>picked. case picked of None \<Rightarrow> Inr (d3, c, NoSlot)
               | Some key \<Rightarrow> let (d4, l) = add_lease token hotkey key now price rnd d3 in Inr (d4, c, Granted l)))"
    by (rule grant_cases [OF inv fresh])
  have book: "book_ok d3" using d3(1) by (simp add: dl_inv_def)
  let ?keys = "free (if dl_prompt_count d3 \<noteq> 0 then dl_prompt_start d3 + draw else dl_prompt_start d3)"
  from g show ?thesis
  proof (elim disjE conjE)
    assume room: "int (length (leases_held d3 hotkey)) < cap_of d3 hotkey"
    assume g: "grant t1 t2 t3 now token draw hotkey free price rnd d = bind_res (pick_slot d3 hotkey now ?keys None)
       (\<lambda>picked. case picked of None \<Rightarrow> Inr (d3, c, NoSlot)
          | Some key \<Rightarrow> let (d4, l) = add_lease token hotkey key now price rnd d3 in Inr (d4, c, Granted l))"
    show ?thesis
    proof (rule pick_slot_cases [OF book, of hotkey now ?keys])
      fix key assume key: "pick_slot d3 hotkey now ?keys None = Inr (Some key)" "picks d3 hotkey now ?keys key"
      obtain d4 l where add: "add_lease token hotkey key now price rnd d3 = (d4, l)" by fastforce
      have "dl_inv d4"
        using key(2) room cap_of_le [of d3 hotkey] by (intro add_lease_inv [OF d3(1,3) _ _ add]) (auto simp: picks_def)
      then show ?thesis using that(3) [OF _ d3(2) key(2) add d3(3)] g key(1) add by simp
    qed (use that(2) [OF d3(1,2)] g in simp)
  qed (rule that(1) [OF d3(1,2)])
qed

lemma release_keeps:
  assumes "book_ok d" and "release now d hotkey lease_id = (d', c, ok)"
  shows "keeps (\<lambda>i l. \<not> (ok \<and> i = lease_id)) d d'"
    and "ok \<longleftrightarrow> (\<exists>l. lease_at d lease_id = Some l \<and> le_hotkey l = hotkey)"
proof -
  have drop: "keeps (\<lambda>i l. i \<noteq> lease_id) d (drop_lease lease_id d)" by (rule drop_keeps [OF assms(1)])
  show "ok \<longleftrightarrow> (\<exists>l. lease_at d lease_id = Some l \<and> le_hotkey l = hotkey)"
    using assms(2) by (auto simp: release_def lease_at_def Let_def split: option.splits if_splits)
  show "keeps (\<lambda>i l. \<not> (ok \<and> i = lease_id)) d d'"
  proof (cases ok)
    case True
    then have "d' = drop_lease lease_id d"
      using assms(2) by (auto simp: release_def Let_def split: option.splits if_splits)
    with drop True show ?thesis by simp
  next
    case False
    then have "d' = d" using assms(2) by (auto simp: release_def Let_def split: option.splits if_splits)
    with False keeps_refl [OF assms(1), of "\<lambda>i l. True"] show ?thesis by simp
  qed
qed

lemma settle_keeps: "book_ok d \<Longrightarrow> keeps (\<lambda>i l. slot_of l \<noteq> (p, s)) d (settle d p s)"
proof -
  assume book: "book_ok d"
  have "keeps (\<lambda>i l. i \<notin> set (ids_at d (p, s))) d (settle d p s)" unfolding settle_def by (rule drops_keep [OF book])
  then show ?thesis by (rule keeps_cong [OF book, rotated]) (use ids_at_lease [OF book] in auto)
qed


section \<open>Runs of the book\<close>

text \<open>
  A step is one call; the lease id a grant draws (\<^verbatim>\<open>secrets.token_hex(16)\<close>) is one the book does not hold.
\<close>

inductive dl_step :: "draw_leases \<Rightarrow> draw_leases \<Rightarrow> bool" where
  step_expire: "expire now d = (d', c) \<Longrightarrow> dl_step d d'"
| step_held_by: "held_by now d hotkey = (d', c, ls) \<Longrightarrow> dl_step d d'"
| step_cap: "cap now d hotkey = (d', c, n) \<Longrightarrow> dl_step d d'"
| step_count: "lease_count now d = (d', c, n) \<Longrightarrow> dl_step d d'"
| step_grant: "lease_at d token = None \<Longrightarrow>
    grant t1 t2 t3 now token draw hotkey free price rnd d = Inr (d', c, ans) \<Longrightarrow> dl_step d d'"
| step_release: "release now d hotkey lease_id = (d', c, ok) \<Longrightarrow> dl_step d d'"
| step_refusal: "refusal now d hotkey p s = Inr (d', c, why) \<Longrightarrow> dl_step d d'"
| step_lease: "held_lease now d hotkey p s = Inr (d', c, l) \<Longrightarrow> dl_step d d'"
| step_settle: "dl_step d (settle d p s)"

definition dl_init :: "draw_leases \<Rightarrow> bool" where
  "dl_init d \<longleftrightarrow> (\<exists>start prompts slots limit m seconds. d = DrawLeases start prompts slots limit m seconds)"

lemma dl_init_inv: "dl_init d \<Longrightarrow> dl_inv d"
  by (auto simp: dl_init_def DrawLeases_def dl_inv_def book_ok_def slots_shared_ok_def caps_ok_def lease_at_def
      ids_at_def dget_or_def leases_held_def hard_cap_def base_cap_def)

lemma holders_exact:
  assumes inv: "dl_inv d"
  obtains d1 c leases where "expire now d = (d1, c)" "dl_inv d1" "holders now d p s = Inr (d1, c, leases)"
    "set leases = {l. lease_at d (le_id l) = Some l \<and> now < le_expires_at l \<and> slot_of l = (p, s)}"
proof -
  obtain d1 c where e: "expire now d = (d1, c)" by fastforce
  have book: "book_ok d" using inv by (simp add: dl_inv_def)
  note k = expire_keeps [OF book e]
  have inv1: "dl_inv d1" using expire_inv [OF inv e] .
  then have book1: "book_ok d1" by (simp add: dl_inv_def)
  have "holders now d p s = Inr (d1, c, map (\<lambda>i. the (lease_at d1 i)) (ids_at d1 (p, s)))"
    using leases_at_slot(1) [OF book1, of "(p, s)"] e by (simp add: holders_def)
  moreover have "lease_at d1 (le_id l) = Some l \<longleftrightarrow> lease_at d (le_id l) = Some l \<and> now < le_expires_at l" for l
    using keeps_lease_at [OF book k, of "le_id l"] by (auto split: option.splits)
  then have "set (map (\<lambda>i. the (lease_at d1 i)) (ids_at d1 (p, s)))
      = {l. lease_at d (le_id l) = Some l \<and> now < le_expires_at l \<and> slot_of l = (p, s)}"
    using leases_at_slot(2) [OF book1, of "(p, s)"] by auto
  ultimately show ?thesis using that e inv1 by blast
qed

lemma grant_inv:
  assumes "dl_inv d" "lease_at d token = None"
    "grant t1 t2 t3 now token draw hotkey free price rnd d = Inr (d', c, ans)"
  shows "dl_inv d'"
  by (rule grant_total [OF assms(1,2), of t1 t2 t3 now draw hotkey free price rnd]) (use assms(3) in auto)

lemma dl_step_inv: "dl_step d d' \<Longrightarrow> dl_inv d \<Longrightarrow> dl_inv d'"
proof (induction rule: dl_step.induct)
  case (step_release now d hotkey lease_id d' c ok)
  then show ?case using release_keeps(1) keeps_inv dl_inv_def by blast
next
  case (step_settle d p s)
  then show ?case using settle_keeps keeps_inv dl_inv_def by blast
next
  case (step_refusal now d hotkey p s d' c why)
  show ?case
    by (rule holders_exact [OF step_refusal(2), of now p s]) (use step_refusal(1) in \<open>simp add: refusal_def\<close>)
next
  case (step_lease now d hotkey p s d' c l)
  show ?case
    by (rule holders_exact [OF step_lease(2), of now p s]) (use step_lease(1) in \<open>simp add: held_lease_def\<close>)
qed (auto simp: held_by_def cap_def lease_count_def intro: expire_inv grant_inv split: prod.splits)

interpretation leases: step_invariant dl_init dl_step dl_inv
  by unfold_locales (use dl_init_inv dl_step_inv in blast)+


section \<open>Correctness of the book\<close>

lemma free_draw_slots_open:
  assumes "free_draw_slots first prompts ledger slots taken start = Inr keys" and "(p, s) \<in> set keys"
  shows "prompt_state ledger p = Inr ''open'' \<and> slot_exhausted ledger p s = Inr False \<and> \<not> taken p s \<and> 0 \<le> s"
proof -
  let ?ok = "\<lambda>(p, s). prompt_state ledger p = Inr ''open'' \<and> slot_exhausted ledger p s = Inr False \<and> \<not> taken p s \<and> 0 \<le> s"
  have inner: "list_all ?ok keys" if "free_in_prompt ledger slots taken p = Inr keys" for p keys
  proof (cases "prompt_state ledger p = Inr ''open''")
    case True
    with that obtain n where
      "fold_res (\<lambda>slot acc. bind_res (slot_exhausted ledger p (int slot)) (\<lambda>full.
         Inr (if \<not> full \<and> \<not> taken p (int slot) then acc @ [(p, int slot)] else acc))) [0..<nat n] [] = Inr keys"
      by (auto simp: free_in_prompt_def bind_res_Inr_iff)
    then show ?thesis
      by (rule fold_res_invariant [where P = "list_all ?ok", rotated 2])
        (use True in \<open>auto simp: bind_res_Inr_iff split: if_splits\<close>)
  next
    case False
    with that show ?thesis by (auto simp: free_in_prompt_def bind_res_Inr_iff split: if_splits)
  qed
  have "list_all ?ok keys"
    using assms(1) unfolding free_draw_slots_def
    by (rule fold_res_invariant [where P = "list_all ?ok", rotated 2])
      (use inner in \<open>auto simp: bind_res_Inr_iff\<close>)
  then show ?thesis using assms(2) by (auto simp: list_all_iff)
qed









text \<open>A job of one prompt with two slots, each leased once.\<close>

definition example_lease :: "string \<Rightarrow> string \<Rightarrow> int \<Rightarrow> rat \<Rightarrow> lease" where
  "example_lease i hotkey slot now = \<lparr>le_id = i, le_hotkey = hotkey, le_prompt = 5, le_slot = slot,
     le_granted_at = now, le_expires_at = now + 100, le_price = None, le_round = None\<rparr>"

definition example_leases :: draw_leases where
  "example_leases = (DrawLeases 5 1 2 False 256 100)
     \<lparr>dl_by_id := [(''a'', example_lease ''a'' ''h1'' 0 0)], dl_by_slot := [((5, 0), [''a''])]\<rparr>"

lemma example_grant:
  "grant 0 0 0 0 ''a'' 0 ''h1'' (\<lambda>start. [(5, 0), (5, 1)]) None None (DrawLeases 5 1 2 False 256 100)
     = Inr (example_leases, [], Granted (example_lease ''a'' ''h1'' 0 0))"
  by (simp add: grant_def expire_def held_by_def cap_def cap_of_def DrawLeases_def leases_held_def ids_at_def
      dget_or_def add_lease_def example_leases_def example_lease_def Let_def)

lemma example_leases_reachable: "reach dl_init dl_step example_leases"
proof -
  have "reach dl_init dl_step (DrawLeases 5 1 2 False 256 100)" by (rule reach_init) (unfold dl_init_def, blast)
  moreover have "dl_step (DrawLeases 5 1 2 False 256 100) example_leases"
    by (rule step_grant [OF _ example_grant]) (simp add: DrawLeases_def lease_at_def)
  ultimately show ?thesis by (rule reach_step)
qed







lemma refusal_live:
  assumes inv: "dl_inv d"
  shows "\<exists>d' c. refusal now d hotkey p s = Inr (d', c,
      if (\<exists>i l. lease_at d i = Some l \<and> slot_of l = (p, s) \<and> now < le_expires_at l)
         \<and> (\<nexists>i l. lease_at d i = Some l \<and> slot_of l = (p, s) \<and> now < le_expires_at l \<and> le_hotkey l = hotkey)
      then Some ''draw_slot_leased'' else None)"
proof -
  obtain d1 c leases where h: "holders now d p s = Inr (d1, c, leases)"
    and set: "set leases = {l. lease_at d (le_id l) = Some l \<and> now < le_expires_at l \<and> slot_of l = (p, s)}"
    by (rule holders_exact [OF inv])
  have id: "le_id l = i" if "lease_at d i = Some l" for i l using inv that by (simp add: dl_inv_def book_ok_def)
  have live: "l \<in> set leases \<longleftrightarrow> (\<exists>i. lease_at d i = Some l) \<and> slot_of l = (p, s) \<and> now < le_expires_at l" for l
    unfolding set using id by auto
  have "leases \<noteq> [] \<longleftrightarrow> (\<exists>l. l \<in> set leases)" by (cases leases) auto
  then have "leases \<noteq> [] \<longleftrightarrow> (\<exists>i l. lease_at d i = Some l \<and> slot_of l = (p, s) \<and> now < le_expires_at l)"
    unfolding live by blast
  moreover have "list_all (\<lambda>l. le_hotkey l \<noteq> hotkey) leases \<longleftrightarrow> (\<nexists>l. l \<in> set leases \<and> le_hotkey l = hotkey)"
    unfolding list_all_iff by blast
  then have "list_all (\<lambda>l. le_hotkey l \<noteq> hotkey) leases \<longleftrightarrow>
      (\<nexists>i l. lease_at d i = Some l \<and> slot_of l = (p, s) \<and> now < le_expires_at l \<and> le_hotkey l = hotkey)"
    unfolding live by blast
  ultimately show ?thesis by (simp add: refusal_def h)
qed

text \<open>
  C25. A submission is refused for the lease of its slot exactly when, at that moment, some hotkey holds a live
  lease on the slot and the submitter holds none; looking it up never fails.
\<close>

theorem refusal_exact:
  assumes "reach dl_init dl_step d"
  shows "\<exists>d' c. refusal now d hotkey p s = Inr (d', c,
      if (\<exists>i l. lease_at d i = Some l \<and> slot_of l = (p, s) \<and> now < le_expires_at l)
         \<and> (\<nexists>i l. lease_at d i = Some l \<and> slot_of l = (p, s) \<and> now < le_expires_at l \<and> le_hotkey l = hotkey)
      then Some ''draw_slot_leased'' else None)"
  by (rule refusal_live [OF leases.inv_reach [OF assms]])

theorem refusal_exact_witness:
  "\<exists>d' c. refusal 99 example_leases ''h2'' 5 0 = Inr (d', c, Some ''draw_slot_leased'')"
proof -
  have a: "lease_at example_leases i = Some l \<longleftrightarrow> i = ''a'' \<and> l = example_lease ''a'' ''h1'' 0 0" for i l
    by (auto simp: lease_at_def example_leases_def)
  show ?thesis
    using refusal_exact [OF example_leases_reachable, of 99 "''h2''" 5 0]
    by (simp add: a) (simp add: slot_of_def example_lease_def)
qed

text \<open>
  C24. A grant never fails on a reachable book, and what it grants is sound: with the job's free slots as its
  list, the granted slot is open, has attempts left and is not taken; it is unleased, or no slot of the list is
  and one other hotkey has held it for at least half the lease time; and the submitter is not refused on that
  slot until the lease expires.
\<close>

theorem grant_sound:
  assumes "reach dl_init dl_step d" and fresh: "lease_at d token = None"
    and free: "\<And>start. free_draw_slots first prompts ledger slots taken start = Inr (free start)"
  shows "\<exists>d' c ans. grant t1 t2 t3 now token draw hotkey free price rnd d = Inr (d', c, ans) \<and>
    (\<forall>l. ans = Granted l \<longrightarrow>
       prompt_state ledger (le_prompt l) = Inr ''open'' \<and> slot_exhausted ledger (le_prompt l) (le_slot l) = Inr False
       \<and> \<not> taken (le_prompt l) (le_slot l)
       \<and> (\<forall>i k. lease_at d' i = Some k \<and> slot_of k = slot_of l \<and> i \<noteq> token \<longrightarrow>
            le_hotkey k \<noteq> hotkey \<and> dl_seconds d / 2 \<le> now - le_granted_at k
            \<and> (\<forall>key. key \<in> set (free (if dl_prompt_count d \<noteq> 0 then dl_prompt_start d + draw else dl_prompt_start d))
                 \<longrightarrow> ids_at d' key \<noteq> []))
       \<and> (\<forall>later. later < now + dl_seconds d \<longrightarrow>
            (\<exists>d'' c'. refusal later d' hotkey (le_prompt l) (le_slot l) = Inr (d'', c', None))))"
proof -
  have inv: "dl_inv d" using leases.inv_reach [OF assms(1)] .
  show ?thesis
  proof (rule grant_total [OF inv fresh, of t1 t2 t3 now draw hotkey free price rnd])
    fix d3 c d4 l key
    assume inv4: "dl_inv d4" and k: "keeps (\<lambda>i l. t1 < le_expires_at l \<and> t2 < le_expires_at l \<and> t3 < le_expires_at l) d d3"
      and picks: "picks d3 hotkey now (free (if dl_prompt_count d3 \<noteq> 0 then dl_prompt_start d3 + draw else dl_prompt_start d3)) key"
      and add: "add_lease token hotkey key now price rnd d3 = (d4, l)" and fresh3: "lease_at d3 token = None"
      and g: "grant t1 t2 t3 now token draw hotkey free price rnd d = Inr (d4, c, Granted l)"
    have static: "dl_seconds d3 = dl_seconds d" "dl_prompt_count d3 = dl_prompt_count d" "dl_prompt_start d3 = dl_prompt_start d"
      using k by (simp_all add: keeps_def)
    note added = added_lease [OF add]
    have slot: "slot_of l = key" "(le_prompt l, le_slot l) = key" using added by (simp_all add: slot_of_def)
    have listed: "(le_prompt l, le_slot l) \<in> set (free (if dl_prompt_count d3 \<noteq> 0 then dl_prompt_start d3 + draw else dl_prompt_start d3))"
      using picks slot(2) by (simp add: picks_def)
    have "prompt_state ledger (le_prompt l) = Inr ''open'' \<and> slot_exhausted ledger (le_prompt l) (le_slot l) = Inr False
        \<and> \<not> taken (le_prompt l) (le_slot l)"
      using free_draw_slots_open [OF free] listed by blast
    moreover have "le_hotkey k \<noteq> hotkey \<and> dl_seconds d / 2 \<le> now - le_granted_at k
        \<and> (\<forall>key. key \<in> set (free (if dl_prompt_count d \<noteq> 0 then dl_prompt_start d + draw else dl_prompt_start d))
             \<longrightarrow> ids_at d4 key \<noteq> [])"
      if "lease_at d4 i = Some k" "slot_of k = slot_of l" "i \<noteq> token" for i k
    proof -
      have at: "lease_at d3 i = Some k" using that added by simp
      have "book_ok d3" using inv k keeps_book dl_inv_def by blast
      then have "i \<in> set (ids_at d3 key)" using at that slot unfolding book_ok_def by blast
      then have "ids_at d3 key \<noteq> []" by auto
      with picks have "shareable d3 hotkey now key"
        and all: "\<forall>key. key \<in> set (free (if dl_prompt_count d \<noteq> 0 then dl_prompt_start d + draw else dl_prompt_start d))
          \<longrightarrow> ids_at d3 key \<noteq> []" unfolding picks_def static by blast+
      with at \<open>i \<in> set (ids_at d3 key)\<close> static have "le_hotkey k \<noteq> hotkey \<and> dl_seconds d / 2 \<le> now - le_granted_at k"
        by (auto simp: shareable_def split: list.splits option.splits)
      moreover have "ids_at d4 k' \<noteq> []" if "ids_at d3 k' \<noteq> []" for k' using that added(2) [of k'] by simp
      ultimately show ?thesis using all by blast
    qed
    moreover have "\<exists>d'' c'. refusal later d4 hotkey (le_prompt l) (le_slot l) = Inr (d'', c', None)"
      if "later < now + dl_seconds d" for later
      using that refusal_live [OF inv4, of later hotkey "le_prompt l" "le_slot l"] added slot static by auto
    ultimately show ?thesis using g by auto
  qed auto
qed

definition open_ledger :: slot_ledger where
  "open_ledger = \<lparr>sl_start = 5, sl_count = 1, sl_slots = 1, sl_consumed = [], sl_filled = 0, sl_failed = []\<rparr>"

lemma open_ledger_free: "free_draw_slots 5 1 open_ledger 1 (\<lambda>p s. False) start = Inr [(5, 0)]"
  by (simp add: free_draw_slots_def free_in_prompt_def open_ledger_def prompt_state_def check_index_def owns_def
      passing_at_def failed_at_def consumed_at_def attempt_limit_def exhausted_slots_def draw_cursors_def
      slot_exhausted_def slot_attempt_def slot_failures_at_def dget_or_def reopened_of_def ATTEMPTS_PER_SLOT_def)

lemma second_grant:
  "grant 60 60 60 60 ''b'' 0 ''h2'' (\<lambda>start. [(5, 0)]) None None example_leases =
     Inr (example_leases\<lparr>dl_by_id := [(''a'', example_lease ''a'' ''h1'' 0 0), (''b'', example_lease ''b'' ''h2'' 0 60)],
                         dl_by_slot := [((5, 0), [''a'', ''b''])]\<rparr>, [], Granted (example_lease ''b'' ''h2'' 0 60))"
  by (simp add: grant_def expire_def held_by_def cap_def cap_of_def DrawLeases_def leases_held_def ids_at_def
      dget_or_def add_lease_def example_leases_def example_lease_def Let_def leases_of_def)

theorem grant_sound_witness:
  "\<exists>d' c. grant 60 60 60 60 ''b'' 0 ''h2'' (\<lambda>start. [(5, 0)]) None None example_leases
      = Inr (d', c, Granted (example_lease ''b'' ''h2'' 0 60))
    \<and> (\<exists>d'' c'. refusal 159 d' ''h2'' 5 0 = Inr (d'', c', None))"
proof -
  have "lease_at example_leases ''b'' = None" by (simp add: lease_at_def example_leases_def)
  from grant_sound [OF example_leases_reachable this open_ledger_free, of 60 60 60 60 0 "''h2''" None None]
  show ?thesis
    by (simp add: second_grant) (simp add: example_leases_def DrawLeases_def example_lease_def)
qed

end
