(* ===== verification/Corpus_Periods.thy ===== *)
theory Corpus_Periods
  imports Python_Values
begin

text \<open>
  The period clock of corpus tasks, \<^verbatim>\<open>reliquary/validator/corpus_periods.py\<close>: the price ceiling of a task and
  its registry parameters, the period of an instant, the entry period of an archive, and the replay that turns
  archives into weights. A task's \<^verbatim>\<open>params\<close> is an untyped value, as the registry hands it over.
\<close>

section \<open>Caps and prices\<close>

definition PERIOD_EPOCH :: rat where "PERIOD_EPOCH = 1692803367"
definition PERIOD_SECONDS :: rat where "PERIOD_SECONDS = 4320"
definition CATCHUP_ENTRIES :: int where "CATCHUP_ENTRIES = 4"

definition pay_ceiling :: "pyval \<Rightarrow> rat option res" where
  "pay_ceiling params =
     (case params of
        PDict d \<Rightarrow>
          if pget d ''cap'' = PNone then Inr None
          else bind_res (py_float (pget d ''cap'')) (\<lambda>ceiling.
                 if pget d ''tail_cap'' = PNone then Inr (Some ceiling)
                 else bind_res (py_float (pget d ''tail_cap'')) (\<lambda>tail. Inr (Some (max ceiling tail))))
      | _ \<Rightarrow> Inr None)"

definition price_params :: "rat \<Rightarrow> rat \<Rightarrow> rat \<Rightarrow> rat option \<Rightarrow> (string, rat) dict res" where
  "price_params alpha emission set_at input_alpha =
     (if \<not> 0 < alpha then Inl (ValueError ''the price must be a positive number of alpha'')
      else if \<not> 0 < emission then Inl (ValueError ''the miner emission must be positive'')
      else let params = [(''max_price_per_token'', alpha / 10 ^ 6 / emission), (''max_price_alpha_per_mtoken'', alpha),
                         (''max_price_miner_alpha_per_period'', emission), (''max_price_set_at'', set_at)]
           in case input_alpha of
                None \<Rightarrow> Inr params
              | Some given \<Rightarrow>
                  if \<not> 0 \<le> given then Inl (ValueError ''the input price must be a non-negative number of alpha'')
                  else Inr (if 0 < given
                            then dset ''max_price_input_alpha_per_mtoken'' given
                                   (dset ''max_price_input_per_token'' (given / 10 ^ 6 / emission) params)
                            else params))"

definition finite_number :: "pyval \<Rightarrow> rat res" where
  "finite_number v =
     (case v of PInt i \<Rightarrow> Inr (of_int i) | PFloat r \<Rightarrow> Inr r | _ \<Rightarrow> Inl (ValueError ''must be a finite number''))"

definition usd_price_params ::
  "pyval \<Rightarrow> pyval \<Rightarrow> pyval \<Rightarrow> pyval \<Rightarrow> rat \<Rightarrow> rat \<Rightarrow> (string, rat) dict res" where
  "usd_price_params usd_input usd_output alpha_usd tao_usd emission set_at =
     bind_res (finite_number usd_input) (\<lambda>usd_in.
     bind_res (finite_number usd_output) (\<lambda>usd_out.
     bind_res (finite_number alpha_usd) (\<lambda>alpha_rate.
     bind_res (finite_number tao_usd) (\<lambda>tao_rate.
       if usd_in < 0 \<or> usd_out \<le> 0 \<or> alpha_rate \<le> 0 \<or> tao_rate \<le> 0
       then Inl (ValueError ''the USD prices and rates must be positive (the input price may be 0)'')
       else bind_res (price_params (usd_out / alpha_rate) emission set_at (Some (usd_in / alpha_rate))) (\<lambda>params.
              Inr (dset ''max_price_tao_usd'' tao_rate (dset ''max_price_alpha_usd'' alpha_rate
                    (dset ''max_price_usd_per_mtoken_output'' usd_out
                      (dset ''max_price_usd_per_mtoken_input'' usd_in params)))))))))"

definition max_price :: "pyval \<Rightarrow> rat option res" where
  "max_price params =
     (case params of
        PDict d \<Rightarrow> if pget d ''max_price_per_token'' = PNone then Inr None
                   else bind_res (py_float (pget d ''max_price_per_token'')) (\<lambda>r. Inr (Some r))
      | _ \<Rightarrow> Inr None)"

definition max_input_price :: "pyval \<Rightarrow> rat option res" where
  "max_input_price params =
     bind_res (max_price params) (\<lambda>price.
       case (price, params) of
         (Some _, PDict d) \<Rightarrow>
           if pget d ''max_price_input_per_token'' = PNone then Inr None
           else bind_res (py_float (pget d ''max_price_input_per_token'')) (\<lambda>r. Inr (Some r))
       | _ \<Rightarrow> Inr None)"

text \<open>\<^verbatim>\<open>int(verdict.get(name) or 0)\<close>.\<close>

definition count_of :: "(pyval \<times> pyval) list \<Rightarrow> string \<Rightarrow> int res" where
  "count_of d name = (if truthy (pget d name) then py_int_res (pget d name) else Inr 0)"

definition work_value :: "(pyval \<times> pyval) list \<Rightarrow> rat \<Rightarrow> rat \<Rightarrow> rat res" where
  "work_value verdict price input_price =
     bind_res (count_of verdict ''token_count'') (\<lambda>out.
     bind_res (count_of verdict ''prompt_token_count'') (\<lambda>inp.
       Inr (price * of_int out + input_price * of_int inp)))"

definition period_budget :: "rat \<Rightarrow> rat option \<Rightarrow> int \<Rightarrow> rat" where
  "period_budget cap price tokens = (case price of None \<Rightarrow> cap | Some p \<Rightarrow> min cap (p * of_int tokens))"

definition price_view :: "pyval \<Rightarrow> pyval res" where
  "price_view params =
     bind_res (max_price params) (\<lambda>price.
       case (price, params) of
         (Some share, PDict d) \<Rightarrow>
           bind_res (max_input_price params) (\<lambda>input.
             Inr (PDict
               ([(PStr ''max_price_alpha_per_mtoken'', pget d ''max_price_alpha_per_mtoken''),
                 (PStr ''max_price_pool_share_per_token'', PFloat share),
                 (PStr ''miner_alpha_per_period'', pget d ''max_price_miner_alpha_per_period''),
                 (PStr ''set_at'', pget d ''max_price_set_at'')]
                @ (case input of
                     None \<Rightarrow> []
                   | Some r \<Rightarrow> [(PStr ''max_price_input_alpha_per_mtoken'', pget d ''max_price_input_alpha_per_mtoken''),
                               (PStr ''max_price_input_pool_share_per_token'', PFloat r)])
                @ (if pget d ''max_price_usd_per_mtoken_output'' = PNone then []
                   else [(PStr ''usd'', PDict
                           [(PStr ''input_per_mtoken'', pget d ''max_price_usd_per_mtoken_input''),
                            (PStr ''output_per_mtoken'', pget d ''max_price_usd_per_mtoken_output''),
                            (PStr ''alpha_usd'', pget d ''max_price_alpha_usd''),
                            (PStr ''tao_usd'', pget d ''max_price_tao_usd'')])]))))
       | _ \<Rightarrow> Inr PNone)"

definition archive_bound :: "rat option \<Rightarrow> rat option \<Rightarrow> rat option" where
  "archive_bound recorded limit =
     (case recorded of
        None \<Rightarrow> limit
      | Some r \<Rightarrow> (case limit of None \<Rightarrow> Some r | Some c \<Rightarrow> Some (min r c)))"

definition is_period_task :: "pyval \<Rightarrow> bool" where
  "is_period_task params = (case params of PDict d \<Rightarrow> pget d ''settlement'' = PStr ''period-ema-v1'' | _ \<Rightarrow> False)"

section \<open>Periods\<close>

definition period_of :: "rat \<Rightarrow> rat \<Rightarrow> int" where
  "period_of t genesis = \<lfloor>(t - genesis) / PERIOD_SECONDS\<rfloor>"

definition period_end :: "int \<Rightarrow> rat \<Rightarrow> rat" where
  "period_end period genesis = genesis + of_int (period + 1) * PERIOD_SECONDS"

definition closed_through :: "rat \<Rightarrow> rat option \<Rightarrow> rat \<Rightarrow> rat \<Rightarrow> int" where
  "closed_through now oldest_pending genesis slack =
     (let bound = (case oldest_pending of None \<Rightarrow> now - slack | Some t \<Rightarrow> min (now - slack) t)
      in period_of bound genesis - 1)"

definition taken_entries :: "int \<Rightarrow> int list \<Rightarrow> (int, int) dict" where
  "taken_entries due entered =
     fold (\<lambda>e t. if due \<le> e then dset e (dget_or t e 0 + 1) t else t) entered []"

text \<open>The search of \<open>entry_for\<close>; \<open>None\<close> stands for a loop that never ends.\<close>

partial_function (option) entry_loop :: "(int, int) dict \<Rightarrow> int list \<Rightarrow> int \<Rightarrow> int \<Rightarrow> int option" where
  "entry_loop taken used per_period entry =
     (if per_period \<le> dget_or taken entry 0 \<or> entry \<in> set used
      then entry_loop taken used per_period (entry + 1)
      else Some entry)"

definition entry_for :: "int \<Rightarrow> int list \<Rightarrow> int list \<Rightarrow> int \<Rightarrow> int option" where
  "entry_for due entered used per_period = entry_loop (taken_entries due entered) used per_period due"

section \<open>Replay\<close>





section \<open>The entry period\<close>

lemma taken_entries_count: "dget_or (taken_entries due entered) e 0 = (if due \<le> e then int (count_list entered e) else 0)"
proof -
  have "dget_or (fold (\<lambda>e t. if due \<le> e then dset e (dget_or t e 0 + 1) t else t) entered t) e 0
      = dget_or t e 0 + (if due \<le> e then int (count_list entered e) else 0)" for t
    by (induction entered arbitrary: t) auto
  then show ?thesis by (simp add: taken_entries_def)
qed

lemma entry_loop_first:
  assumes "\<not> (per_period \<le> dget_or taken (entry + int n) 0 \<or> entry + int n \<in> set used)"
    and "\<And>m. m < n \<Longrightarrow> per_period \<le> dget_or taken (entry + int m) 0 \<or> entry + int m \<in> set used"
  shows "entry_loop taken used per_period entry = Some (entry + int n)"
  using assms
proof (induction n arbitrary: entry)
  case 0
  then show ?case by (simp add: entry_loop.simps)
next
  case (Suc n)
  have "entry_loop taken used per_period (entry + 1) = Some (entry + 1 + int n)"
    using Suc.prems(1) Suc.prems(2) [of "Suc m" for m] by (intro Suc.IH) (simp_all add: algebra_simps)
  then show ?case using Suc.prems(2) [of 0] by (simp add: entry_loop.simps [of _ _ _ entry])
qed

lemma sum_count_le: "finite A \<Longrightarrow> (\<Sum>e \<in> A. count_list xs e) \<le> length xs"
proof (induction xs)
  case (Cons x xs)
  have "(\<Sum>e \<in> A. count_list (x # xs) e) = (\<Sum>e \<in> A. count_list xs e + (if x = e then 1 else 0))"
    by (rule sum.cong) auto
  then show ?case using Cons by (simp add: sum.distrib sum.delta)
qed simp

lemma full_entries_bound:
  assumes "0 < per_period" and "finite A" and "\<And>e. e \<in> A \<Longrightarrow> per_period \<le> int (count_list entered e)"
  shows "int (card A) * per_period \<le> int (length entered)"
proof -
  have "int (card A) * per_period \<le> (\<Sum>e \<in> A. int (count_list entered e))"
    using sum_mono [OF assms(3), where K = A] by simp
  also have "\<dots> \<le> int (length entered)" using sum_count_le [OF assms(2), of entered] by (simp flip: of_nat_sum)
  finally show ?thesis .
qed

lemma entry_for_total:
  assumes "0 < per_period"
  shows "\<exists>e. entry_for due entered used per_period = Some e \<and> due \<le> e
    \<and> int (count_list entered e) < per_period \<and> e \<notin> set used
    \<and> (\<forall>e'. due \<le> e' \<and> e' < e \<longrightarrow> per_period \<le> int (count_list entered e') \<or> e' \<in> set used)
    \<and> (e - due - int (card (set used))) * per_period \<le> int (length entered)
    \<and> ((\<forall>e'. int (count_list entered e') \<le> per_period) \<longrightarrow>
         (\<forall>e'. int (count_list (e # entered) e') \<le> per_period))"
proof -
  define blocked where "blocked e \<longleftrightarrow> per_period \<le> int (count_list entered e) \<or> e \<in> set used" for e
  have "{e. blocked e} \<subseteq> set entered \<union> set used"
    using assms by (auto simp: blocked_def) (metis count_notin of_nat_0 not_le)
  then have "finite {e. blocked e}" by (rule finite_subset) simp
  have "\<exists>n. \<not> blocked (due + int n)"
  proof (rule ccontr)
    assume "\<nexists>n. \<not> blocked (due + int n)"
    then have "range (\<lambda>n. due + int n) \<subseteq> {e. blocked e}" by blast
    then have "finite (range (\<lambda>n. due + int n))" using \<open>finite {e. blocked e}\<close> by (rule finite_subset)
    then show False by (simp add: finite_image_iff inj_def)
  qed
  then obtain n where n: "\<not> blocked (due + int n)" and before: "\<And>m. m < n \<Longrightarrow> blocked (due + int m)"
    using exists_least_iff [of "\<lambda>n. \<not> blocked (due + int n)"] by blast
  have "entry_for due entered used per_period = Some (due + int n)"
    unfolding entry_for_def
    by (rule entry_loop_first) (use n before in \<open>auto simp: blocked_def taken_entries_count\<close>)
  moreover have skipped: "blocked e'" if "due \<le> e'" "e' < due + int n" for e'
    using before [of "nat (e' - due)"] that by simp
  moreover have "(int n - int (card (set used))) * per_period \<le> int (length entered)"
  proof -
    let ?F = "{due..<due + int n} \<inter> {e. per_period \<le> int (count_list entered e)}"
    have "{due..<due + int n} \<subseteq> ?F \<union> set used" using skipped by (force simp: blocked_def)
    then have "card {due..<due + int n} \<le> card (?F \<union> set used)" by (intro card_mono) simp_all
    also have "\<dots> \<le> card ?F + card (set used)" by (rule card_Un_le)
    finally have "int n - int (card (set used)) \<le> int (card ?F)" by simp
    then have "(int n - int (card (set used))) * per_period \<le> int (card ?F) * per_period"
      using assms by (intro mult_right_mono) simp_all
    also have "\<dots> \<le> int (length entered)" by (rule full_entries_bound [OF assms]) simp_all
    finally show ?thesis .
  qed
  ultimately show ?thesis
    using n by (intro exI [of _ "due + int n"]) (auto simp: blocked_def)
qed

text \<open>
  C37. The search for an entry period always ends: it returns the first period from the due one on that has room
  and is not used, at most as many periods late as the used ones and the full ones it had to skip; and a schedule
  with at most \<open>per_period\<close> archives in each period stays so.
\<close>

theorem entry_for_first_fit:
  assumes "0 < per_period"
  shows "\<exists>e. entry_for due entered used per_period = Some e \<and> due \<le> e
    \<and> int (count_list entered e) < per_period \<and> e \<notin> set used
    \<and> (\<forall>e'. due \<le> e' \<and> e' < e \<longrightarrow> per_period \<le> int (count_list entered e') \<or> e' \<in> set used)
    \<and> (e - due - int (card (set used))) * per_period \<le> int (length entered)
    \<and> ((\<forall>e'. int (count_list entered e') \<le> per_period) \<longrightarrow>
         (\<forall>e'. int (count_list (e # entered) e') \<le> per_period))"
  using assms by (rule entry_for_total)

theorem entry_for_first_fit_witness:
  "\<exists>e. entry_for 10 [10, 10, 11, 3] [11] 2 = Some e \<and> 10 \<le> e \<and> e \<notin> {11} \<and> (e - 10 - 1) * 2 \<le> 4"
  using entry_for_first_fit [of 2 10 "[10, 10, 11, 3]" "[11]"] by auto

section \<open>What the replay pays\<close>
















section \<open>A ceiling in USD\<close>

text \<open>The registry entry of parameters: what \<^verbatim>\<open>max_price\<close> and the views read back.\<close>

definition wire_params :: "(string, rat) dict \<Rightarrow> pyval" where
  "wire_params ps = PDict (map (\<lambda>(k, v). (PStr k, PFloat v)) ps)"

text \<open>
  A ceiling given in USD is accepted exactly when its prices, rates and emission are in range, and what is
  recorded reads back as the same price: one million tokens at the recorded share, of the recorded emission, at the
  recorded rate, are worth the USD that was given, for output tokens and, when they are priced, for prompt tokens.
\<close>

theorem usd_ceiling_roundtrip:
  assumes "finite_number a = Inr usd_in" "finite_number b = Inr usd_out" "finite_number c = Inr rate"
    "finite_number d = Inr tao"
  shows "(if 0 \<le> usd_in \<and> 0 < usd_out \<and> 0 < rate \<and> 0 < tao \<and> 0 < emission
      then \<exists>ps share. usd_price_params a b c d emission set_at = Inr ps
        \<and> max_price (wire_params ps) = Inr (Some share) \<and> share * 10 ^ 6 * emission * rate = usd_out
        \<and> (if usd_in = 0 then max_input_price (wire_params ps) = Inr None
           else \<exists>inp. max_input_price (wire_params ps) = Inr (Some inp) \<and> inp * 10 ^ 6 * emission * rate = usd_in)
      else \<exists>e. usd_price_params a b c d emission set_at = Inl (ValueError e))"
proof -
  have "x / rate / 10 ^ 6 / emission * 10 ^ 6 * emission * rate = x" if "0 < rate" "0 < emission" for x :: rat
    using that by simp
  with assms show ?thesis
    by (auto simp: usd_price_params_def price_params_def max_price_def max_input_price_def wire_params_def pget_def
        Let_def zero_less_divide_iff)
qed

theorem usd_ceiling_roundtrip_witness:
  "\<exists>ps share. usd_price_params (PInt 0) (PInt 3) (PFloat 2) (PInt 400) 10 0 = Inr ps
     \<and> max_price (wire_params ps) = Inr (Some share) \<and> share * 10 ^ 6 * 10 * 2 = 3"
  using usd_ceiling_roundtrip [of "PInt 0" 0 "PInt 3" 3 "PFloat 2" 2 "PInt 400" 400 10 0]
  by (simp add: finite_number_def) blast

end
