(* ===== verification/Token_Auction.thy ===== *)
theory Token_Auction
  imports Corpus_Periods
begin

text \<open>
  The token price auction of a draw job, \<^verbatim>\<open>reliquary/corpus/token_auction.py\<close>. Each operation takes the clock
  readings it makes, in order, and the audit backlog the closing of a round reads (\<open>None\<close>: no queue is wired, or it
  could not be read). Prices are shares of the pool per token.
\<close>

section \<open>Parameters\<close>

record AuctionParams =
  ap_ceiling :: rat
  ap_emission :: rat
  ap_round_seconds :: rat
  ap_initial_leases :: int

definition share_of :: "AuctionParams \<Rightarrow> rat \<Rightarrow> rat" where
  "share_of p alpha_per_mtoken = alpha_per_mtoken / 10 ^ 6 / ap_emission p"

definition alpha_of :: "AuctionParams \<Rightarrow> rat \<Rightarrow> rat" where
  "alpha_of p share = share * 10 ^ 6 * ap_emission p"

definition MIN_LEASES :: int where "MIN_LEASES = 4"
definition MAX_LEASES :: int where "MAX_LEASES = 100000"
definition ASK_TTL_SECONDS :: rat where "ASK_TTL_SECONDS = 3600"
definition MAX_ASK :: rat where "MAX_ASK = 10 ^ 9"
definition HISTORY_ROUNDS :: nat where "HISTORY_ROUNDS = 144"

definition round_params :: "(pyval \<times> pyval) list \<Rightarrow> rat \<Rightarrow> pyval \<Rightarrow> AuctionParams res" where
  "round_params d share given =
     bind_res (py_float (dget_or d (PStr ''auction_round_seconds'') (PFloat 600))) (\<lambda>seconds.
     if \<not> (60 \<le> seconds \<and> seconds \<le> 86400) then Inl (ValueError ''auction_round_seconds must be within [60, 86400]'')
     else bind_res (py_float (dget_or d (PStr ''auction_initial_leases'') (PInt 64))) (\<lambda>initial.
     if initial \<noteq> of_int (py_trunc initial) \<or> \<not> (MIN_LEASES \<le> py_trunc initial \<and> py_trunc initial \<le> MAX_LEASES)
     then Inl (ValueError ''auction_initial_leases must be an integer within [4, 100000]'')
     else bind_res (if 0 < share then py_float given else Inr 0) (\<lambda>emission.
     if \<not> (0 < share \<and> 0 < emission)
     then Inl (ValueError ''the price ceiling and the miner emission must be positive'')
     else Inr \<lparr>ap_ceiling = share, ap_emission = emission, ap_round_seconds = seconds,
               ap_initial_leases = py_trunc initial\<rparr>)))"

definition auction_params :: "pyval \<Rightarrow> AuctionParams option res" where
  "auction_params params =
     (case params of
        PDict d \<Rightarrow>
          if pget d ''pricing'' = PNone then Inr None
          else if pget d ''pricing'' \<noteq> PStr ''auction'' then Inl (ValueError ''unknown pricing'')
          else bind_res (max_price params) (\<lambda>price.
                 if price = None \<or> pget d ''max_price_miner_alpha_per_period'' = PNone
                 then Inl (ValueError ''an auction needs a price ceiling (max_price_per_token)'')
                 else bind_res (round_params d (the price) (pget d ''max_price_miner_alpha_per_period''))
                        (\<lambda>p. Inr (Some p)))
      | _ \<Rightarrow> Inr None)"

section \<open>The auction\<close>

record closed_round =
  cr_round :: "int option"
  cr_price :: rat
  cr_leases :: int
  cr_granted :: int
  cr_full :: int
  cr_priced_out :: int
  cr_backlog :: "int option"

record token_auction =
  ta_params :: AuctionParams
  ta_asks :: "(string, rat \<times> rat) dict"
  ta_target :: rat
  ta_round :: "int option"
  ta_price :: rat
  ta_leases :: int
  ta_granted :: int
  ta_full :: int
  ta_priced_out :: int
  ta_debt :: "(string, rat) dict"
  ta_mean_tokens :: rat
  ta_history :: "closed_round list"

definition TokenAuction :: "AuctionParams \<Rightarrow> rat \<Rightarrow> token_auction" where
  "TokenAuction params mean_tokens =
     \<lparr>ta_params = params, ta_asks = [], ta_target = ap_ceiling params, ta_round = None, ta_price = ap_ceiling params,
      ta_leases = ap_initial_leases params, ta_granted = 0, ta_full = 0, ta_priced_out = 0, ta_debt = [],
      ta_mean_tokens = mean_tokens, ta_history = []\<rparr>"

definition job_auction :: "pyval \<Rightarrow> rat \<Rightarrow> token_auction option res" where
  "job_auction params mean_tokens =
     (case auction_params params of
        Inl (ValueError _) \<Rightarrow> Inr None
      | Inl e \<Rightarrow> Inl e
      | Inr None \<Rightarrow> Inr None
      | Inr (Some declared) \<Rightarrow> Inr (Some (TokenAuction declared mean_tokens)))"

subsection \<open>Asks\<close>

definition live_ask :: "string \<Rightarrow> rat \<Rightarrow> token_auction \<Rightarrow> token_auction \<times> rat option" where
  "live_ask hotkey now a =
     (case dget (ta_asks a) hotkey of
        None \<Rightarrow> (a, None)
      | Some (price, posted) \<Rightarrow>
          if ASK_TTL_SECONDS < now - posted then (a\<lparr>ta_asks := dpop hotkey (ta_asks a)\<rparr>, None)
          else (a, Some price))"

definition ask_of :: "string \<Rightarrow> rat \<Rightarrow> token_auction \<Rightarrow> token_auction \<times> rat option" where
  "ask_of hotkey now a = live_ask hotkey now a"

definition live_prices :: "rat \<Rightarrow> token_auction \<Rightarrow> token_auction \<times> rat list" where
  "live_prices now a =
     (let a1 = fold (\<lambda>hotkey a. fst (live_ask hotkey now a)) (dkeys (ta_asks a)) a
      in (a1, sort (remdups (map (\<lambda>(hotkey, price, posted). price) (ta_asks a1)))))"

subsection \<open>Rounds\<close>

definition round_index :: "AuctionParams \<Rightarrow> rat \<Rightarrow> int" where
  "round_index p now = \<lfloor>now / ap_round_seconds p\<rfloor>"

definition next_target :: "bool \<Rightarrow> rat list \<Rightarrow> token_auction \<Rightarrow> rat" where
  "next_target saturated prices a =
     (if saturated
      then let lower = filter (\<lambda>p. p < ta_price a) prices in if lower \<noteq> [] then List.last lower else ta_target a
      else if ta_granted a < ta_leases a \<and> 0 < ta_priced_out a
      then let higher = filter (\<lambda>p. ta_price a < p \<and> p \<le> ap_ceiling (ta_params a)) prices
           in if higher \<noteq> [] then hd higher else ta_target a
      else ta_target a)"

definition next_leases :: "bool \<Rightarrow> int option \<Rightarrow> int \<Rightarrow> int" where
  "next_leases saturated backlog leases =
     (case backlog of
        None \<Rightarrow> leases
      | Some n \<Rightarrow>
          if leases < n then max MIN_LEASES (py_trunc (of_int leases * (7 / 10)))
          else if saturated \<and> of_int n \<le> of_int leases / (2 :: rat)
          then min MAX_LEASES (max (leases + 1) (py_trunc (of_int leases * (5 / 4))))
          else leases)"

definition close_round :: "rat \<Rightarrow> int option \<Rightarrow> token_auction \<Rightarrow> token_auction" where
  "close_round now backlog a =
     (let saturated = (ta_leases a \<le> ta_granted a \<and> 0 < ta_full a);
          (a1, prices) = live_prices now a;
          entry = \<lparr>cr_round = ta_round a, cr_price = alpha_of (ta_params a) (ta_price a), cr_leases = ta_leases a,
                   cr_granted = ta_granted a, cr_full = ta_full a, cr_priced_out = ta_priced_out a,
                   cr_backlog = backlog\<rparr>;
          log = ta_history a1 @ [entry]
      in a1\<lparr>ta_target := next_target saturated prices a1,
            ta_leases := next_leases saturated backlog (ta_leases a1),
            ta_history := drop (length log - HISTORY_ROUNDS) log\<rparr>)"

definition open_round :: "int \<Rightarrow> rat \<Rightarrow> token_auction \<Rightarrow> token_auction" where
  "open_round index now a =
     (let (a1, prices) = live_prices now a;
          under = filter (\<lambda>p. p \<le> ta_target a1) prices;
          price = (if under \<noteq> [] then List.last under else ta_target a1)
      in a1\<lparr>ta_round := Some index, ta_price := price, ta_target := price, ta_granted := 0, ta_full := 0,
            ta_priced_out := 0\<rparr>)"

definition roll :: "rat \<Rightarrow> int option \<Rightarrow> token_auction \<Rightarrow> token_auction" where
  "roll now backlog a =
     (let index = round_index (ta_params a) now
      in if ta_round a = Some index then a
         else open_round index now (if ta_round a \<noteq> None then close_round now backlog a else a))"

definition post_ask :: "rat \<Rightarrow> rat \<Rightarrow> int option \<Rightarrow> string \<Rightarrow> pyval \<Rightarrow> token_auction \<Rightarrow> token_auction \<times> string option" where
  "post_ask t1 t2 backlog hotkey alpha_per_mtoken a =
     (case py_float alpha_per_mtoken of
        Inl _ \<Rightarrow> (a, Some ''invalid_ask'')
      | Inr alpha \<Rightarrow>
          if \<not> (0 < alpha \<and> alpha \<le> MAX_ASK) then (a, Some ''invalid_ask'')
          else let a1 = roll t1 backlog a
               in (a1\<lparr>ta_asks := dset hotkey (share_of (ta_params a1) alpha, t2) (ta_asks a1)\<rparr>, None))"

subsection \<open>Leases\<close>

record terms =
  tm_price :: rat
  tm_round :: "int option"

datatype admission = Admitted terms | Refused string

definition admit :: "rat \<Rightarrow> rat \<Rightarrow> int option \<Rightarrow> string \<Rightarrow> token_auction \<Rightarrow> token_auction \<times> admission" where
  "admit t1 t2 backlog hotkey a =
     (let a1 = roll t1 backlog a; (a2, ask) = live_ask hotkey t2 a1
      in case ask of
           None \<Rightarrow> (a2, Refused ''no_ask'')
         | Some price \<Rightarrow>
             if ta_price a2 < price then (a2\<lparr>ta_priced_out := ta_priced_out a2 + 1\<rparr>, Refused ''ask_above_price'')
             else if ta_leases a2 \<le> ta_granted a2 then (a2\<lparr>ta_full := ta_full a2 + 1\<rparr>, Refused ''round_full'')
             else (a2\<lparr>ta_granted := ta_granted a2 + 1\<rparr>, Admitted \<lparr>tm_price = ta_price a2, tm_round = ta_round a2\<rparr>))"

definition unreserve :: "terms \<Rightarrow> token_auction \<Rightarrow> token_auction" where
  "unreserve terms a =
     (if tm_round terms = ta_round a \<and> 0 < ta_granted a then a\<lparr>ta_granted := ta_granted a - 1\<rparr> else a)"

definition lease_ended :: "string \<Rightarrow> rat option \<Rightarrow> rat \<Rightarrow> token_auction \<Rightarrow> token_auction" where
  "lease_ended hotkey price held_fraction a =
     (case price of
        None \<Rightarrow> a
      | Some p \<Rightarrow>
          let fraction = min 1 (max 0 held_fraction); owed = p * ta_mean_tokens a * fraction
          in if 0 < owed then a\<lparr>ta_debt := dset hotkey (dget_or (ta_debt a) hotkey 0 + owed) (ta_debt a)\<rparr> else a)"

subsection \<open>Submissions and views\<close>

definition take_debit :: "string \<Rightarrow> rat \<Rightarrow> token_auction \<Rightarrow> token_auction \<times> rat" where
  "take_debit hotkey value a =
     (let owed = dget_or (ta_debt a) hotkey 0; taken = min owed (max 0 value)
      in if 0 < taken
         then let left = owed - taken
              in (a\<lparr>ta_debt := (if 0 < left then dset hotkey left (ta_debt a) else dpop hotkey (ta_debt a))\<rparr>, taken)
         else (a, taken))"

definition refund_debit :: "string \<Rightarrow> rat \<Rightarrow> token_auction \<Rightarrow> token_auction" where
  "refund_debit hotkey amount a =
     (if 0 < amount then a\<lparr>ta_debt := dset hotkey (dget_or (ta_debt a) hotkey 0 + amount) (ta_debt a)\<rparr> else a)"

definition observe_tokens :: "int \<Rightarrow> token_auction \<Rightarrow> token_auction" where
  "observe_tokens token_count a =
     a\<lparr>ta_mean_tokens := ta_mean_tokens a + 1 / 20 * (of_int token_count - ta_mean_tokens a)\<rparr>"

definition debt_alpha :: "string \<Rightarrow> token_auction \<Rightarrow> rat" where
  "debt_alpha hotkey a = dget_or (ta_debt a) hotkey 0 * ap_emission (ta_params a)"

record auction_view =
  av_round :: int
  av_round_seconds :: rat
  av_round_ends_at :: rat
  av_price :: rat
  av_ceiling :: rat
  av_leases :: int
  av_granted :: int
  av_rounds :: "closed_round list"

definition view :: "rat \<Rightarrow> int option \<Rightarrow> token_auction \<Rightarrow> (token_auction \<times> auction_view) res" where
  "view now backlog a =
     (let a1 = roll now backlog a; p = ta_params a1
      in case ta_round a1 of
           None \<Rightarrow> Inl (TypeError ''unsupported operand type(s) for +'')
         | Some r \<Rightarrow>
             Inr (a1, \<lparr>av_round = r, av_round_seconds = ap_round_seconds p,
                       av_round_ends_at = of_int (r + 1) * ap_round_seconds p, av_price = alpha_of p (ta_price a1),
                       av_ceiling = alpha_of p (ap_ceiling p), av_leases = ta_leases a1, av_granted = ta_granted a1,
                       av_rounds = ta_history a1\<rparr>))"


section \<open>The live asks\<close>

definition live_asks :: "rat \<Rightarrow> token_auction \<Rightarrow> (string, rat \<times> rat) dict" where
  "live_asks now a = filter (\<lambda>(hotkey, price, posted). now - posted \<le> ASK_TTL_SECONDS) (ta_asks a)"

definition live_price_set :: "rat \<Rightarrow> token_auction \<Rightarrow> rat set" where
  "live_price_set now a = (\<lambda>(hotkey, price, posted). price) ` set (live_asks now a)"

lemma live_ask_asks:
  assumes "dict_ok (ta_asks a)"
  shows "fst (live_ask hotkey now a) =
    a\<lparr>ta_asks := filter (\<lambda>x. fst x = hotkey \<longrightarrow> now - snd (snd x) \<le> ASK_TTL_SECONDS) (ta_asks a)\<rparr>"
proof -
  have unique: "v = w" if "(hotkey, v) \<in> set (ta_asks a)" "dget (ta_asks a) hotkey = Some w" for v w
    using assms that by simp
  show ?thesis
  proof (cases "dget (ta_asks a) hotkey")
    case None
    then have "filter (\<lambda>x. fst x = hotkey \<longrightarrow> now - snd (snd x) \<le> ASK_TTL_SECONDS) (ta_asks a) = ta_asks a"
      by (auto simp: filter_id_conv map_of_eq_None_iff rev_image_eqI)
    then show ?thesis using None by (simp add: live_ask_def)
  next
    case (Some w)
    have "filter (\<lambda>x. fst x = hotkey \<longrightarrow> now - snd (snd x) \<le> ASK_TTL_SECONDS) (ta_asks a) =
        (if ASK_TTL_SECONDS < now - snd w then dpop hotkey (ta_asks a) else ta_asks a)"
      using unique [OF _ Some] by (auto simp: filter_id_conv AList.delete_eq intro!: filter_cong)
    then show ?thesis using Some by (cases w) (simp add: live_ask_def)
  qed
qed

lemma live_ask_answer:
  assumes "dict_ok (ta_asks a)"
  shows "snd (live_ask hotkey now a) = map_option fst (dget (live_asks now a) hotkey)"
  using assms by (auto simp: live_ask_def live_asks_def dget_filter not_less split: option.splits)

lemma live_prices_exact:
  assumes "dict_ok (ta_asks a)"
  shows "fst (live_prices now a) = a\<lparr>ta_asks := live_asks now a\<rparr>"
    and "sorted (snd (live_prices now a))" and "set (snd (live_prices now a)) = live_price_set now a"
proof -
  have "fold (\<lambda>hotkey a. fst (live_ask hotkey now a)) ks b =
      b\<lparr>ta_asks := filter (\<lambda>x. fst x \<in> set ks \<longrightarrow> now - snd (snd x) \<le> ASK_TTL_SECONDS) (ta_asks b)\<rparr>"
    if "dict_ok (ta_asks b)" for ks b
    using that
  proof (induction ks arbitrary: b)
    case (Cons k ks)
    let ?b = "fst (live_ask k now b)"
    have "dict_ok (ta_asks ?b)" using Cons.prems by (simp add: live_ask_asks distinct_map_filter)
    then show ?case
      using Cons.IH [of ?b] Cons.prems by (simp add: live_ask_asks)
  qed simp
  from this [OF assms, of "dkeys (ta_asks a)"]
  have a1: "fold (\<lambda>hotkey a. fst (live_ask hotkey now a)) (dkeys (ta_asks a)) a = a\<lparr>ta_asks := live_asks now a\<rparr>"
    by (simp add: live_asks_def split_def) (intro token_auction.fold_congs refl filter_cong, auto)
  then show "fst (live_prices now a) = a\<lparr>ta_asks := live_asks now a\<rparr>" by (simp add: live_prices_def Let_def)
  show "sorted (snd (live_prices now a))" "set (snd (live_prices now a)) = live_price_set now a"
    using a1 by (simp_all add: live_prices_def Let_def live_price_set_def)
qed


section \<open>The invariant\<close>

definition params_ok :: "AuctionParams \<Rightarrow> bool" where
  "params_ok p \<longleftrightarrow> 0 < ap_ceiling p \<and> 0 < ap_emission p \<and> 60 \<le> ap_round_seconds p \<and> ap_round_seconds p \<le> 86400
     \<and> MIN_LEASES \<le> ap_initial_leases p \<and> ap_initial_leases p \<le> MAX_LEASES"

lemma round_params_ok: "round_params d share given = Inr p \<Longrightarrow> params_ok p"
  unfolding round_params_def bind_res_Inr_iff by (auto simp: params_ok_def bind_res_Inr_iff split: if_splits)

lemma auction_params_ok: "auction_params params = Inr (Some p) \<Longrightarrow> params_ok p"
  by (cases params) (auto simp: auction_params_def bind_res_Inr_iff intro: round_params_ok split: if_splits)

definition asks_ok :: "(string, rat \<times> rat) dict \<Rightarrow> bool" where
  "asks_ok asks \<longleftrightarrow> dict_ok asks \<and> (\<forall>x \<in> set asks. 0 < fst (snd x))"

definition debts_ok :: "(string, rat) dict \<Rightarrow> bool" where
  "debts_ok debts \<longleftrightarrow> dict_ok debts \<and> (\<forall>x \<in> set debts. 0 < snd x)"

definition price_ok :: "AuctionParams \<Rightarrow> rat \<Rightarrow> bool" where
  "price_ok p price \<longleftrightarrow> 0 < price \<and> price \<le> ap_ceiling p"

definition ta_inv :: "token_auction \<Rightarrow> bool" where
  "ta_inv a \<longleftrightarrow> params_ok (ta_params a) \<and> asks_ok (ta_asks a) \<and> debts_ok (ta_debt a)
     \<and> price_ok (ta_params a) (ta_price a) \<and> price_ok (ta_params a) (ta_target a)
     \<and> 0 \<le> ta_granted a \<and> ta_granted a \<le> ta_leases a \<and> MIN_LEASES \<le> ta_leases a \<and> ta_leases a \<le> MAX_LEASES
     \<and> length (ta_history a) \<le> HISTORY_ROUNDS \<and> (ta_round a \<noteq> None \<longrightarrow> ta_target a = ta_price a)"

lemma asks_ok_filter: "asks_ok asks \<Longrightarrow> asks_ok (filter P asks)"
  by (auto simp: asks_ok_def distinct_map_filter)

lemma asks_ok_set: "asks_ok asks \<Longrightarrow> 0 < price \<Longrightarrow> asks_ok (dset hotkey (price, t) asks)"
  by (auto simp: asks_ok_def set_dset)

lemma debts_ok_set: "debts_ok d \<Longrightarrow> 0 < v \<Longrightarrow> debts_ok (dset hotkey v d)"
  by (auto simp: debts_ok_def set_dset)

lemma debts_ok_pop: "debts_ok d \<Longrightarrow> debts_ok (dpop hotkey d)"
  by (auto simp: debts_ok_def set_dpop)

lemma debts_nonneg: "debts_ok d \<Longrightarrow> 0 \<le> dget_or d hotkey 0"
  by (auto simp: debts_ok_def dget_or_def dest!: map_of_SomeD split: option.splits)

lemma live_price_pos: "asks_ok (ta_asks a) \<Longrightarrow> p \<in> live_price_set now a \<Longrightarrow> 0 < p"
  by (auto simp: live_price_set_def live_asks_def asks_ok_def)

lemma live_ask_inv:
  assumes "ta_inv a" and "live_ask hotkey now a = (a', ask)"
  shows "ta_inv a'" and "a' = a\<lparr>ta_asks := ta_asks a'\<rparr>"
proof -
  have ok: "dict_ok (ta_asks a)" using assms(1) by (simp add: ta_inv_def asks_ok_def)
  have "a' = fst (live_ask hotkey now a)" using assms(2) by simp
  then have a': "a' = a\<lparr>ta_asks := filter (\<lambda>x. fst x = hotkey \<longrightarrow> now - snd (snd x) \<le> ASK_TTL_SECONDS) (ta_asks a)\<rparr>"
    using live_ask_asks [OF ok] by simp
  show "ta_inv a'" using assms(1) unfolding a' by (simp add: ta_inv_def asks_ok_filter)
  show "a' = a\<lparr>ta_asks := ta_asks a'\<rparr>" unfolding a' by simp
qed

lemma next_leases_bounds:
  "MIN_LEASES \<le> n \<Longrightarrow> n \<le> MAX_LEASES \<Longrightarrow> MIN_LEASES \<le> next_leases s b n \<and> next_leases s b n \<le> MAX_LEASES"
proof -
  assume n: "MIN_LEASES \<le> n" "n \<le> MAX_LEASES"
  have "(of_int n * (7 / 10) :: rat) \<le> of_int n" using n by (simp add: MIN_LEASES_def)
  then have "\<lfloor>of_int n * (7 / 10) :: rat\<rfloor> \<le> n" by linarith
  moreover have "\<not> (of_int n * (7 / 10) :: rat) < 0" using n by (simp add: MIN_LEASES_def)
  ultimately have "py_trunc (of_int n * (7 / 10)) \<le> n" by (simp add: py_trunc_def)
  with n show ?thesis by (auto simp: next_leases_def MIN_LEASES_def MAX_LEASES_def split: option.splits)
qed

lemma next_target_cases:
  "next_target saturated prices a = ta_target a \<or>
   next_target saturated prices a \<in> set prices
     \<and> (next_target saturated prices a < ta_price a \<or> next_target saturated prices a \<le> ap_ceiling (ta_params a))"
proof -
  let ?low = "filter (\<lambda>p. p < ta_price a) prices"
  let ?high = "filter (\<lambda>p. ta_price a < p \<and> p \<le> ap_ceiling (ta_params a)) prices"
  have "?low \<noteq> [] \<Longrightarrow> List.last ?low \<in> set ?low" "?high \<noteq> [] \<Longrightarrow> hd ?high \<in> set ?high"
    by (rule last_in_set, assumption, rule hd_in_set, assumption)
  then have "?low \<noteq> [] \<Longrightarrow> List.last ?low \<in> set prices \<and> List.last ?low < ta_price a"
    "?high \<noteq> [] \<Longrightarrow> hd ?high \<in> set prices \<and> hd ?high \<le> ap_ceiling (ta_params a)" by simp_all
  then show ?thesis unfolding next_target_def Let_def by (simp only: split: if_split) blast
qed

lemma next_target_ok:
  assumes "price_ok p (ta_target a)" "price_ok p (ta_price a)" "ta_params a = p" "\<forall>q \<in> set prices. 0 < q"
  shows "price_ok p (next_target saturated prices a)"
  using next_target_cases [of saturated prices a] assms unfolding price_ok_def by (auto simp del: not_less)

lemma close_round_inv:
  assumes inv: "ta_inv a"
  shows "ta_inv ((close_round now backlog a)\<lparr>ta_round := None, ta_granted := 0\<rparr>)"
    and "ta_params (close_round now backlog a) = ta_params a"
proof -
  have asks: "asks_ok (ta_asks a)" and ok: "dict_ok (ta_asks a)" using inv by (simp_all add: ta_inv_def asks_ok_def)
  note lp = live_prices_exact [OF ok, of now]
  obtain prices where prices: "live_prices now a = (a\<lparr>ta_asks := live_asks now a\<rparr>, prices)"
    "set prices = live_price_set now a" using lp by (cases "live_prices now a") auto
  let ?a1 = "a\<lparr>ta_asks := live_asks now a\<rparr>"
  have "price_ok (ta_params a) (next_target s prices ?a1)" for s
    using inv live_price_pos [OF asks] prices(2) by (intro next_target_ok) (auto simp: ta_inv_def)
  moreover have "asks_ok (live_asks now a)" using asks by (simp add: live_asks_def asks_ok_filter)
  moreover have leases: "MIN_LEASES \<le> next_leases s b (ta_leases a)" "next_leases s b (ta_leases a) \<le> MAX_LEASES"
    "0 \<le> next_leases s b (ta_leases a)" for s b
    using inv next_leases_bounds [of "ta_leases a" s b] by (simp_all add: ta_inv_def MIN_LEASES_def)
  ultimately show "ta_inv ((close_round now backlog a)\<lparr>ta_round := None, ta_granted := 0\<rparr>)"
    using inv by (simp add: close_round_def prices(1) Let_def ta_inv_def)
  show "ta_params (close_round now backlog a) = ta_params a" by (simp add: close_round_def prices(1) Let_def)
qed


text \<open>The highest price of a set that is at most \<open>t\<close>, or \<open>t\<close> when there is none.\<close>

definition best_under :: "rat set \<Rightarrow> rat \<Rightarrow> rat" where
  "best_under S t = (if \<exists>q \<in> S. q \<le> t then Max {q \<in> S. q \<le> t} else t)"

lemma last_filter_Max:
  assumes "sorted (xs :: rat list)" and "\<exists>x \<in> set xs. P x"
  shows "List.last (filter P xs) = Max {x \<in> set xs. P x}" and "filter P xs \<noteq> []"
proof -
  show ne: "filter P xs \<noteq> []" using assms(2) by (auto simp: filter_empty_conv)
  have "y \<le> List.last ys" if "sorted ys" "y \<in> set ys" for y and ys :: "rat list" using that by (induction ys) auto
  then have "List.last (filter P xs) = Max (set (filter P xs))"
    using assms(1) last_in_set [OF ne] by (intro Max_eqI [symmetric]) (auto simp: sorted_wrt_filter)
  then show "List.last (filter P xs) = Max {x \<in> set xs. P x}" by simp
qed

lemma open_round_exact:
  assumes "dict_ok (ta_asks a)"
  shows "open_round index now a = a\<lparr>ta_asks := live_asks now a, ta_round := Some index,
      ta_price := best_under (live_price_set now a) (ta_target a),
      ta_target := best_under (live_price_set now a) (ta_target a),
      ta_granted := 0, ta_full := 0, ta_priced_out := 0\<rparr>"
proof -
  note lp = live_prices_exact [OF assms, of now]
  obtain prices where prices: "live_prices now a = (a\<lparr>ta_asks := live_asks now a\<rparr>, prices)"
    "set prices = live_price_set now a" "sorted prices" using lp by (cases "live_prices now a") auto
  have "(if filter (\<lambda>p. p \<le> ta_target a) prices \<noteq> [] then List.last (filter (\<lambda>p. p \<le> ta_target a) prices)
      else ta_target a) = best_under (live_price_set now a) (ta_target a)"
  proof (cases "\<exists>q \<in> set prices. q \<le> ta_target a")
    case True
    with last_filter_Max [OF prices(3), of "\<lambda>p. p \<le> ta_target a"] show ?thesis by (simp add: prices(2) best_under_def)
  next
    case False
    then have "filter (\<lambda>p. p \<le> ta_target a) prices = []" by (simp add: filter_empty_conv)
    with False show ?thesis by (simp add: prices(2) best_under_def)
  qed
  moreover have "ta_target (a\<lparr>ta_asks := live_asks now a\<rparr>) = ta_target a" by simp
  ultimately show ?thesis by (simp only: open_round_def prices(1) Let_def prod.case)
qed

lemma finite_live_prices [simp]: "finite (live_price_set now a)"
  by (simp add: live_price_set_def)

lemma open_round_inv:
  assumes "ta_inv (a\<lparr>ta_round := None, ta_granted := 0\<rparr>)"
  shows "ta_inv (open_round index now a)" and "ta_params (open_round index now a) = ta_params a"
proof -
  have asks: "asks_ok (ta_asks a)" and ok: "dict_ok (ta_asks a)" using assms by (simp_all add: ta_inv_def asks_ok_def)
  let ?S = "{q \<in> live_price_set now a. q \<le> ta_target a}"
  have "Max ?S \<in> ?S" if "\<exists>q \<in> live_price_set now a. q \<le> ta_target a" using that by (intro Max_in) auto
  then have "price_ok (ta_params a) (Max ?S)" if "\<exists>q \<in> live_price_set now a. q \<le> ta_target a"
    using that assms live_price_pos [OF asks, of "Max ?S" now] by (auto simp: price_ok_def ta_inv_def)
  then have "price_ok (ta_params a) (best_under (live_price_set now a) (ta_target a))"
    using assms by (simp add: best_under_def ta_inv_def)
  moreover have "asks_ok (live_asks now a)" using asks by (simp add: live_asks_def asks_ok_filter)
  ultimately show "ta_inv (open_round index now a)"
    using assms unfolding open_round_exact [OF ok] by (simp add: ta_inv_def)
  show "ta_params (open_round index now a) = ta_params a" unfolding open_round_exact [OF ok] by simp
qed

lemma roll_inv: "ta_inv a \<Longrightarrow> ta_inv (roll now backlog a) \<and> ta_params (roll now backlog a) = ta_params a
    \<and> ta_round (roll now backlog a) = Some (round_index (ta_params a) now)"
proof -
  assume inv: "ta_inv a"
  let ?b = "if ta_round a \<noteq> None then close_round now backlog a else a"
  have b: "ta_inv (?b\<lparr>ta_round := None, ta_granted := 0\<rparr>)" "ta_params ?b = ta_params a"
    using inv close_round_inv [OF inv] by (auto simp: ta_inv_def)
  then have "dict_ok (ta_asks ?b)" by (simp add: ta_inv_def asks_ok_def)
  with inv open_round_inv [OF b(1)] b(2) show ?thesis by (auto simp: roll_def Let_def open_round_exact)
qed


section \<open>Runs of the auction\<close>

inductive ta_step :: "token_auction \<Rightarrow> token_auction \<Rightarrow> bool" where
  step_ask: "post_ask t1 t2 backlog hotkey v a = (a', why) \<Longrightarrow> ta_step a a'"
| step_ask_of: "ask_of hotkey now a = (a', ask) \<Longrightarrow> ta_step a a'"
| step_admit: "admit t1 t2 backlog hotkey a = (a', ans) \<Longrightarrow> ta_step a a'"
| step_unreserve: "ta_step a (unreserve terms a)"
| step_ended: "ta_step a (lease_ended hotkey price held a)"
| step_debit: "take_debit hotkey value a = (a', taken) \<Longrightarrow> ta_step a a'"
| step_refund: "ta_step a (refund_debit hotkey amount a)"
| step_observe: "ta_step a (observe_tokens n a)"
| step_view: "view now backlog a = Inr (a', v) \<Longrightarrow> ta_step a a'"

definition ta_init :: "token_auction \<Rightarrow> bool" where
  "ta_init a \<longleftrightarrow> (\<exists>params mean_tokens. job_auction params mean_tokens = Inr (Some a))"

lemma ta_init_cases:
  assumes "ta_init a"
  obtains p m where "params_ok p" "a = TokenAuction p m"
proof -
  obtain params m where j: "job_auction params m = Inr (Some a)" using assms unfolding ta_init_def by blast
  show ?thesis
  proof (cases "auction_params params")
    case (Inl e)
    then show ?thesis using j by (cases e) (simp_all add: job_auction_def)
  next
    case (Inr q)
    then show ?thesis using j that auction_params_ok by (cases q) (auto simp: job_auction_def)
  qed
qed

lemma ta_init_inv: "ta_init a \<Longrightarrow> ta_inv a"
  by (erule ta_init_cases)
    (simp add: TokenAuction_def ta_inv_def params_ok_def asks_ok_def debts_ok_def price_ok_def MIN_LEASES_def)

lemma admit_inv:
  assumes inv: "ta_inv a" and admit: "admit t1 t2 backlog hotkey a = (a', ans)"
  shows "ta_inv a'"
proof -
  obtain a2 ask where l: "live_ask hotkey t2 (roll t1 backlog a) = (a2, ask)" by fastforce
  have "ta_inv a2" using live_ask_inv(1) [OF _ l] roll_inv [OF inv] by blast
  then show ?thesis using admit l by (auto simp: admit_def Let_def ta_inv_def split: option.splits if_splits)
qed

lemma debit_inv:
  assumes inv: "ta_inv a" and debit: "take_debit hotkey value a = (a', taken)"
  shows "ta_inv a'" and "0 \<le> taken" "taken \<le> dget_or (ta_debt a) hotkey 0" "taken \<le> max 0 value"
    and "dget_or (ta_debt a') hotkey 0 = dget_or (ta_debt a) hotkey 0 - taken"
    and "h \<noteq> hotkey \<Longrightarrow> dget_or (ta_debt a') h 0 = dget_or (ta_debt a) h 0"
proof -
  have d: "debts_ok (ta_debt a)" using inv by (simp add: ta_inv_def)
  note owed = debts_nonneg [OF d, of hotkey]
  show "ta_inv a'"
    using inv debit d by (auto simp: take_debit_def Let_def ta_inv_def debts_ok_set debts_ok_pop split: if_splits)
  show "0 \<le> taken" "taken \<le> dget_or (ta_debt a) hotkey 0" "taken \<le> max 0 value"
    "dget_or (ta_debt a') hotkey 0 = dget_or (ta_debt a) hotkey 0 - taken"
    "h \<noteq> hotkey \<Longrightarrow> dget_or (ta_debt a') h 0 = dget_or (ta_debt a) h 0"
    using debit owed by (auto simp: take_debit_def Let_def split: if_splits)
qed

lemma ta_step_inv: "ta_step a a' \<Longrightarrow> ta_inv a \<Longrightarrow> ta_inv a'"
proof (induction rule: ta_step.induct)
  case (step_ask t1 t2 backlog hotkey v a a' why)
  have "0 < share_of (ta_params b) alpha" if "ta_inv b" "0 < alpha" for b alpha
    using that by (simp add: share_of_def ta_inv_def params_ok_def)
  moreover have "ta_inv (b\<lparr>ta_asks := dset hotkey (price, t) (ta_asks b)\<rparr>)" if "ta_inv b" "0 < price" for b price t
    using that by (simp add: ta_inv_def asks_ok_set)
  moreover note roll_inv [OF step_ask(2), of t1 backlog]
  ultimately show ?case
    using step_ask by (auto simp: post_ask_def Let_def split: sum.splits if_splits)
next
  case (step_ask_of hotkey now a a' ask)
  then show ?case using live_ask_inv(1) by (simp add: ask_of_def)
next
  case (step_ended a hotkey price held)
  then have "0 \<le> dget_or (ta_debt a) hotkey 0" by (simp add: ta_inv_def debts_nonneg)
  with step_ended show ?case by (auto simp: lease_ended_def Let_def ta_inv_def debts_ok_set split: option.splits)
next
  case (step_refund a hotkey amount)
  then have "0 \<le> dget_or (ta_debt a) hotkey 0" by (simp add: ta_inv_def debts_nonneg)
  with step_refund show ?case by (auto simp: refund_debit_def ta_inv_def debts_ok_set)
next
  case (step_view now backlog a a' v)
  then show ?case using roll_inv [OF step_view(2)] by (auto simp: view_def Let_def split: option.splits)
next
  case (step_admit t1 t2 backlog hotkey a a' ans)
  then show ?case using admit_inv by blast
next
  case (step_debit hotkey amount a a' taken)
  then show ?case using debit_inv(1) by blast
qed (simp_all add: unreserve_def observe_tokens_def ta_inv_def)

interpretation auction: step_invariant ta_init ta_step ta_inv
  by unfold_locales (use ta_init_inv ta_step_inv in blast)+


section \<open>Correctness of the auction\<close>

lemma roll_same: "ta_round a = Some (round_index (ta_params a) now) \<Longrightarrow> roll now backlog a = a"
  by (simp add: roll_def Let_def)

lemma admitted:
  assumes inv: "ta_inv a" and admit: "admit t1 t2 backlog hotkey a = (a', Admitted terms)"
  shows "terms = \<lparr>tm_price = ta_price (roll t1 backlog a), tm_round = ta_round (roll t1 backlog a)\<rparr>"
    and "\<exists>ask posted. dget (live_asks t2 (roll t1 backlog a)) hotkey = Some (ask, posted) \<and> ask \<le> tm_price terms"
    and "ta_granted a' = ta_granted (roll t1 backlog a) + 1"
    and "ta_price a' = tm_price terms" "ta_round a' = tm_round terms" "ta_params a' = ta_params a"
proof -
  let ?b = "roll t1 backlog a"
  have b: "ta_inv ?b" "ta_params ?b = ta_params a" using roll_inv [OF inv] by blast+
  obtain a2 ask where l: "live_ask hotkey t2 ?b = (a2, ask)" by fastforce
  have a2: "a2 = ?b\<lparr>ta_asks := ta_asks a2\<rparr>" by (rule live_ask_inv(2) [OF b(1) l])
  have same: "ta_price a2 = ta_price ?b" "ta_round a2 = ta_round ?b" "ta_granted a2 = ta_granted ?b" "ta_params a2 = ta_params a"
    by (subst a2, simp add: b(2))+
  have answer: "ask = map_option fst (dget (live_asks t2 ?b) hotkey)"
    using live_ask_answer [of ?b hotkey t2] l b(1) by (simp add: ta_inv_def asks_ok_def)
  obtain price where "ask = Some price" "price \<le> ta_price a2"
    "terms = \<lparr>tm_price = ta_price a2, tm_round = ta_round a2\<rparr>" "a' = a2\<lparr>ta_granted := ta_granted a2 + 1\<rparr>"
    using admit l by (auto simp: admit_def Let_def not_less split: option.splits if_splits)
  moreover from this have "\<exists>ask posted. dget (live_asks t2 ?b) hotkey = Some (ask, posted) \<and> ask \<le> tm_price terms"
    using answer by (cases "dget (live_asks t2 ?b) hotkey") auto
  ultimately show "terms = \<lparr>tm_price = ta_price ?b, tm_round = ta_round ?b\<rparr>"
    "\<exists>ask posted. dget (live_asks t2 ?b) hotkey = Some (ask, posted) \<and> ask \<le> tm_price terms"
    "ta_granted a' = ta_granted ?b + 1"
    "ta_price a' = tm_price terms" "ta_round a' = tm_round terms" "ta_params a' = ta_params a"
    using same by auto
qed

text \<open>Only the opening of another round moves a round's price, target or number of leases.\<close>

lemma roll_stays: "ta_round (roll now backlog a) = ta_round a \<Longrightarrow> roll now backlog a = a"
  by (auto simp: roll_def open_round_def Let_def case_prod_beta split: if_splits)

definition same_round_terms :: "token_auction \<Rightarrow> token_auction \<Rightarrow> bool" where
  "same_round_terms a b \<longleftrightarrow> ta_price b = ta_price a \<and> ta_target b = ta_target a \<and> ta_leases b = ta_leases a"

lemma live_ask_terms: "same_round_terms a (fst (live_ask hotkey now a)) \<and> ta_round (fst (live_ask hotkey now a)) = ta_round a"
  by (auto simp: live_ask_def same_round_terms_def split: option.split)

lemma step_same_round:
  assumes "ta_step a b" "ta_round b = ta_round a"
  shows "same_round_terms a b"
  using assms
proof (induction rule: ta_step.induct)
  case (step_ask t1 t2 backlog hotkey v a a' why)
  then have "a' = a \<or> (\<exists>asks. a' = (roll t1 backlog a)\<lparr>ta_asks := asks\<rparr>)"
    by (auto simp: post_ask_def Let_def split: sum.splits if_splits)
  then show ?case using step_ask(2) roll_stays [of t1 backlog a] by (auto simp: same_round_terms_def)
next
  case (step_ask_of hotkey now a a' ask)
  then show ?case using live_ask_terms [of a hotkey now] by (simp add: ask_of_def)
next
  case (step_admit t1 t2 backlog hotkey a a' ans)
  let ?b = "roll t1 backlog a"
  have l: "same_round_terms ?b a' \<and> ta_round a' = ta_round ?b"
    using step_admit(1) live_ask_terms [of ?b hotkey t2]
    by (auto simp: admit_def Let_def case_prod_beta same_round_terms_def split: option.splits if_splits)
  then show ?case using step_admit(2) roll_stays [of t1 backlog a] by (auto simp: same_round_terms_def)
next
  case (step_debit hotkey amount a a' taken)
  then show ?case by (auto simp: take_debit_def Let_def same_round_terms_def split: if_splits)
next
  case (step_view now backlog a a' v)
  then have "a' = roll now backlog a" by (auto simp: view_def Let_def split: option.splits)
  then show ?case using step_view(2) roll_stays [of now backlog a] by (simp add: same_round_terms_def)
qed (auto simp: unreserve_def lease_ended_def refund_debit_def observe_tokens_def same_round_terms_def Let_def split: option.split)

text \<open>
  C22. A lease of a reachable auction is never paid past the ceiling nor below what its holder asked: whoever is
  admitted has a live ask at or under the round's price, and the price is positive and at most the ceiling. Price,
  target and number of leases are fixed for the round: no call changes them unless it opens another round. The
  leases handed out in a round never exceed the round's leases, which stay within 4 and 100,000.
\<close>

theorem admission_bounds:
  assumes "reach ta_init ta_step a" and admit: "admit t1 t2 backlog hotkey a = (a', Admitted terms)"
  shows "0 < tm_price terms \<and> tm_price terms \<le> ap_ceiling (ta_params a)
    \<and> (\<exists>ask posted. dget (live_asks t2 (roll t1 backlog a)) hotkey = Some (ask, posted) \<and> 0 < ask \<and> ask \<le> tm_price terms)
    \<and> tm_round terms = Some (round_index (ta_params a) t1)
    \<and> tm_price terms = ta_price a' \<and> tm_round terms = ta_round a' \<and> (ta_round a = tm_round terms \<longrightarrow> tm_price terms = ta_price a)
    \<and> (\<forall>b c. ta_step\<^sup>*\<^sup>* a b \<and> ta_step b c \<and> ta_round c = ta_round b \<longrightarrow>
         ta_price c = ta_price b \<and> ta_target c = ta_target b \<and> ta_leases c = ta_leases b)
    \<and> 0 < ta_granted a' \<and> ta_granted a' \<le> ta_leases a' \<and> 4 \<le> ta_leases a' \<and> ta_leases a' \<le> 100000"
proof -
  have inv: "ta_inv a" by (rule auction.inv_reach [OF assms(1)])
  note b = roll_inv [OF inv, of t1 backlog]
  note ad = admitted [OF inv admit]
  have inv': "ta_inv a'" by (rule admit_inv [OF inv admit])
  obtain ask posted where ask: "dget (live_asks t2 (roll t1 backlog a)) hotkey = Some (ask, posted)" "ask \<le> tm_price terms"
    using ad(2) by blast
  then have "(hotkey, ask, posted) \<in> set (ta_asks (roll t1 backlog a))"
    by (auto simp: live_asks_def dest!: map_of_SomeD)
  then have "0 < ask" using b by (force simp: ta_inv_def asks_ok_def)
  moreover have "price_ok (ta_params (roll t1 backlog a)) (ta_price (roll t1 backlog a))"
    using b unfolding ta_inv_def by blast
  then have "price_ok (ta_params a) (tm_price terms)" using b ad(1) by simp
  moreover have "tm_price terms = ta_price a" if "ta_round a = tm_round terms"
    using that ad(1) b roll_same [of a t1 backlog] by simp
  moreover have "ta_price c = ta_price b \<and> ta_target c = ta_target b \<and> ta_leases c = ta_leases b"
    if "ta_step b c \<and> ta_round c = ta_round b" for b c
    using step_same_round [of b c] that by (simp add: same_round_terms_def)
  moreover have "0 \<le> ta_granted (roll t1 backlog a)" using b by (simp add: ta_inv_def)
  ultimately show ?thesis
    using ask ad inv' b by (auto simp: price_ok_def ta_inv_def MIN_LEASES_def MAX_LEASES_def)
qed

definition example_params :: pyval where
  "example_params = PDict [(PStr ''pricing'', PStr ''auction''), (PStr ''max_price_per_token'', PFloat 1),
     (PStr ''max_price_miner_alpha_per_period'', PInt 1), (PStr ''auction_round_seconds'', PInt 100)]"

definition example_terms :: AuctionParams where
  "example_terms = \<lparr>ap_ceiling = 1, ap_emission = 1, ap_round_seconds = 100, ap_initial_leases = 64\<rparr>"

definition example_auction :: token_auction where
  "example_auction = (TokenAuction example_terms 1000)\<lparr>ta_asks := [(''h'', 1 / 2, 0)], ta_round := Some 0\<rparr>"

lemma example_auction_init: "ta_init (TokenAuction example_terms 1000)"
proof -
  have "round_params [(PStr ''pricing'', PStr ''auction''), (PStr ''max_price_per_token'', PFloat 1),
     (PStr ''max_price_miner_alpha_per_period'', PInt 1), (PStr ''auction_round_seconds'', PInt 100)] 1 (PInt 1)
     = Inr example_terms"
    by (simp add: round_params_def dget_or_def py_trunc_def MIN_LEASES_def MAX_LEASES_def example_terms_def)
  then have "job_auction example_params 1000 = Inr (Some (TokenAuction example_terms 1000))"
    by (simp add: job_auction_def auction_params_def example_params_def pget_def max_price_def)
  then show ?thesis unfolding ta_init_def by blast
qed

lemma example_ask: "post_ask 0 0 None ''h'' (PInt 500000) (TokenAuction example_terms 1000) = (example_auction, None)"
  by (simp add: post_ask_def MAX_ASK_def roll_def TokenAuction_def round_index_def example_terms_def open_round_def
      live_prices_def share_of_def example_auction_def Let_def)

lemma example_auction_reachable: "reach ta_init ta_step example_auction"
proof -
  have "ta_step (TokenAuction example_terms 1000) example_auction" by (rule step_ask [OF example_ask])
  with reach_init [where init = ta_init, OF example_auction_init] show ?thesis by (rule reach_step)
qed

theorem admission_bounds_witness:
  "\<exists>a' terms. admit 0 0 None ''h'' example_auction = (a', Admitted terms) \<and> tm_price terms \<le> 1 \<and> ta_granted a' \<le> ta_leases a'"
proof -
  obtain a' terms where "admit 0 0 None ''h'' example_auction = (a', Admitted terms)"
    by (simp add: admit_def roll_def example_auction_def TokenAuction_def round_index_def example_terms_def
        live_ask_def ASK_TTL_SECONDS_def Let_def)
  with admission_bounds [OF example_auction_reachable this] show ?thesis
    by (auto simp: example_auction_def TokenAuction_def example_terms_def)
qed


lemma hd_filter_Min:
  assumes "sorted (xs :: rat list)" and "\<exists>x \<in> set xs. P x"
  shows "hd (filter P xs) = Min {x \<in> set xs. P x}"
proof -
  have ne: "filter P xs \<noteq> []" using assms(2) by (auto simp: filter_empty_conv)
  have "hd ys \<le> y" if "sorted ys" "y \<in> set ys" for y and ys :: "rat list" using that by (induction ys) auto
  then have "hd (filter P xs) = Min (set (filter P xs))"
    using assms(1) hd_in_set [OF ne] by (intro Min_eqI [symmetric]) (auto simp: sorted_wrt_filter)
  then show ?thesis by simp
qed

lemma best_under_mem: "finite S \<Longrightarrow> t \<in> S \<Longrightarrow> best_under S t = t"
  by (auto simp: best_under_def intro!: Max_eqI)

text \<open>The target a closing round leaves, in terms of the set of live prices.\<close>

definition moved_target :: "rat set \<Rightarrow> token_auction \<Rightarrow> rat" where
  "moved_target S a =
     (if ta_leases a \<le> ta_granted a \<and> 0 < ta_full a
      then if \<exists>q \<in> S. q < ta_price a then Max {q \<in> S. q < ta_price a} else ta_target a
      else if ta_granted a < ta_leases a \<and> 0 < ta_priced_out a \<and> (\<exists>q \<in> S. ta_price a < q \<and> q \<le> ap_ceiling (ta_params a))
      then Min {q \<in> S. ta_price a < q \<and> q \<le> ap_ceiling (ta_params a)} else ta_target a)"

lemma moved_target_asks [simp]: "moved_target S (a\<lparr>ta_asks := x\<rparr>) = moved_target S a"
  by (cases a) (simp only: moved_target_def token_auction.simps)

lemma next_target_moved:
  assumes "sorted prices"
  shows "next_target (ta_leases a \<le> ta_granted a \<and> 0 < ta_full a) prices a = moved_target (set prices) a"
proof -
  let ?P = "\<lambda>p. p < ta_price a" and ?Q = "\<lambda>p. ta_price a < p \<and> p \<le> ap_ceiling (ta_params a)"
  have low: "filter ?P prices \<noteq> [] \<longleftrightarrow> (\<exists>q \<in> set prices. ?P q)" and high: "filter ?Q prices \<noteq> [] \<longleftrightarrow> (\<exists>q \<in> set prices. ?Q q)"
    by (auto simp: filter_empty_conv)
  show ?thesis
    unfolding next_target_def moved_target_def Let_def low high
    using last_filter_Max(1) [OF assms, of ?P] hd_filter_Min [OF assms, of ?Q] by auto
qed

lemma close_round_target:
  assumes "dict_ok (ta_asks a)"
  shows "ta_target (close_round now backlog a) = moved_target (live_price_set now a) a"
    and "live_price_set now (close_round now backlog a) = live_price_set now a"
    and "dict_ok (ta_asks (close_round now backlog a))"
proof -
  obtain prices where prices: "live_prices now a = (a\<lparr>ta_asks := live_asks now a\<rparr>, prices)"
    "set prices = live_price_set now a" "sorted prices"
    using live_prices_exact [OF assms, of now] by (cases "live_prices now a") auto
  let ?a1 = "a\<lparr>ta_asks := live_asks now a\<rparr>"
  have "next_target (ta_leases a \<le> ta_granted a \<and> 0 < ta_full a) prices ?a1 = moved_target (live_price_set now a) a"
    using next_target_moved [OF prices(3), of ?a1] by (simp add: prices(2))
  then show "ta_target (close_round now backlog a) = moved_target (live_price_set now a) a"
    by (simp add: close_round_def prices(1) Let_def)
  have asks: "ta_asks (close_round now backlog a) = live_asks now a"
    by (simp add: close_round_def prices(1) Let_def)
  then show "live_price_set now (close_round now backlog a) = live_price_set now a"
    by (simp add: live_price_set_def live_asks_def)
  show "dict_ok (ta_asks (close_round now backlog a))"
    unfolding asks using assms by (simp add: live_asks_def distinct_map_filter)
qed

text \<open>
  C23. The price moves one ask at a time, only on what happened in the round that closed: when its leases ran out
  with more asked for, to the highest live ask below the price; when leases were left and a miner was priced out, to
  the lowest live ask above the price within the ceiling; otherwise it falls to the highest live ask it admits, and
  holds where there is none.
\<close>

theorem round_price_moves:
  assumes "reach ta_init ta_step a" and "ta_round a = Some r" and "r \<noteq> round_index (ta_params a) now"
  shows "ta_price (roll now backlog a) =
    (let S = live_price_set now a; p = ta_price a
     in if ta_leases a \<le> ta_granted a \<and> 0 < ta_full a \<and> (\<exists>q \<in> S. q < p) then Max {q \<in> S. q < p}
        else if ta_granted a < ta_leases a \<and> 0 < ta_priced_out a \<and> (\<exists>q \<in> S. p < q \<and> q \<le> ap_ceiling (ta_params a))
        then Min {q \<in> S. p < q \<and> q \<le> ap_ceiling (ta_params a)}
        else best_under S p)"
proof -
  have inv: "ta_inv a" by (rule auction.inv_reach [OF assms(1)])
  then have ok: "dict_ok (ta_asks a)" and target: "ta_target a = ta_price a"
    using assms(2) by (simp_all add: ta_inv_def asks_ok_def)
  let ?S = "live_price_set now a" and ?p = "ta_price a"
  note closed = close_round_target [OF ok, of now backlog]
  have price: "ta_price (roll now backlog a) = best_under ?S (moved_target ?S a)"
    using assms(2,3) by (simp add: roll_def Let_def open_round_exact [OF closed(3)] closed)
  have low: "Max {q \<in> ?S. q < ?p} \<in> ?S" if "\<exists>q \<in> ?S. q < ?p"
    using Max_in [of "{q \<in> ?S. q < ?p}"] that by auto
  have high: "Min {q \<in> ?S. ?p < q \<and> q \<le> ap_ceiling (ta_params a)} \<in> ?S" if "\<exists>q \<in> ?S. ?p < q \<and> q \<le> ap_ceiling (ta_params a)"
    using Min_in [of "{q \<in> ?S. ?p < q \<and> q \<le> ap_ceiling (ta_params a)}"] that by auto
  show ?thesis
    using low high unfolding price moved_target_def Let_def target
    by (auto simp: best_under_mem)
qed

theorem round_price_moves_witness:
  "ta_price (roll 100 None example_auction) = best_under (live_price_set 100 example_auction) 1"
  using round_price_moves [OF example_auction_reachable, of 0 100 None]
  by (simp add: example_auction_def TokenAuction_def example_terms_def round_index_def)

end
