(* ===== verification/Lease_Market.thy ===== *)
theory Lease_Market
  imports Draw_Leases Token_Auction
begin

text \<open>
  How the routes of a draw job join the lease book and the auction, \<^verbatim>\<open>reliquary/validator/corpus_service.py\<close>
  (\<^verbatim>\<open>lease_corpus\<close>, \<^verbatim>\<open>release_corpus_lease\<close> and the pricing part of \<^verbatim>\<open>submit_corpus\<close>). A route is an
  asynchronous function: between two of its parts that wait for a store or a thread, other requests run. Each part
  that runs without waiting is one definition here, and a run is any interleaving of the parts of the requests in
  flight. What the store, the registry and the signature check answer are arguments.
\<close>

section \<open>The parts of the routes\<close>

record lease_request =
  rq_hotkey :: string
  rq_issued_at :: int
  rq_nonce :: string

type_synonym nonces = "(string, rat) dict"

definition LEASE_REQUEST_SKEW_SECONDS :: rat where "LEASE_REQUEST_SKEW_SECONDS = 120"

text \<open>A request arrives: its age and its nonce, before the gate is asked.\<close>

definition lease_check :: "rat \<Rightarrow> lease_request \<Rightarrow> nonces \<Rightarrow> nonces \<times> string option" where
  "lease_check now rq nonces =
     (if LEASE_REQUEST_SKEW_SECONDS < \<bar>now - of_int (rq_issued_at rq)\<bar> then (nonces, Some ''stale_request'')
      else let live = filter (\<lambda>(n, until). \<not> until \<le> now) nonces
           in (live, if has_key live (rq_nonce rq) then Some ''replayed_request'' else None))"

text \<open>The gate (job, signature, registration, ban) has answered.\<close>

definition lease_gated :: "rat \<Rightarrow> string option \<Rightarrow> lease_request \<Rightarrow> nonces \<Rightarrow> nonces \<times> string option" where
  "lease_gated now gate rq nonces =
     (case gate of
        Some reason \<Rightarrow> (nonces, Some reason)
      | None \<Rightarrow> (dset (rq_nonce rq) (now + 2 * LEASE_REQUEST_SKEW_SECONDS) nonces, None))"

text \<open>Every lease that ended unused is charged to its holder (the hook \<^verbatim>\<open>_leases\<close> hands to the book).\<close>

definition charge :: "charges \<Rightarrow> token_auction option \<Rightarrow> token_auction option" where
  "charge charges =
     map_option (fold (\<lambda>(lease, held) a. lease_ended (le_hotkey lease) (le_price lease) held a) charges)"

text \<open>The manifest and the ledger are read: the job's own refusals, then the auction's admission.\<close>

definition lease_terms ::
  "rat \<Rightarrow> rat \<Rightarrow> rat \<Rightarrow> int option \<Rightarrow> int option \<Rightarrow> string option \<Rightarrow> string \<Rightarrow> token_auction option
   \<Rightarrow> (token_auction option \<times> (string + terms option)) res" where
  "lease_terms t1 t2 t3 backlog1 backlog2 job_refusal hotkey auction =
     (case job_refusal of
        Some reason \<Rightarrow> Inr (auction, Inl reason)
      | None \<Rightarrow>
          (case auction of
             None \<Rightarrow> Inr (None, Inr None)
           | Some a \<Rightarrow>
               (case admit t1 t2 backlog1 hotkey a of
                  (a1, Admitted terms) \<Rightarrow> Inr (Some a1, Inr (Some terms))
                | (a1, Refused reason) \<Rightarrow>
                    bind_res (view t3 backlog2 a1) (\<lambda>(a2, v). Inr (Some a2, Inl reason)))))"

text \<open>The grant, in its own thread.\<close>

definition lease_grant ::
  "rat \<Rightarrow> rat \<Rightarrow> rat \<Rightarrow> rat \<Rightarrow> string \<Rightarrow> int \<Rightarrow> string \<Rightarrow> (int \<Rightarrow> (int \<times> int) list) \<Rightarrow> terms option
   \<Rightarrow> draw_leases \<times> token_auction option \<Rightarrow> (draw_leases \<times> token_auction option \<times> charges \<times> grant_answer) res" where
  "lease_grant t1 t2 t3 now token draw hotkey free terms m =
     bind_res (grant t1 t2 t3 now token draw hotkey free (map_option tm_price terms)
                 (case terms of None \<Rightarrow> None | Some tm \<Rightarrow> tm_round tm) (fst m))
       (\<lambda>(d, c, ans). Inr (d, charge c (snd m), c, ans))"

text \<open>A request that got no slot gives its reservation back.\<close>

definition give_back :: "terms option \<Rightarrow> token_auction option \<Rightarrow> token_auction option" where
  "give_back terms auction = (case terms of None \<Rightarrow> auction | Some tm \<Rightarrow> map_option (unreserve tm) auction)"

definition release_lease ::
  "rat \<Rightarrow> string \<Rightarrow> string \<Rightarrow> draw_leases \<times> token_auction option
   \<Rightarrow> (draw_leases \<times> token_auction option) \<times> charges \<times> bool" where
  "release_lease now hotkey lease_id m =
     (let (d, c, ok) = release now (fst m) hotkey lease_id in ((d, charge c (snd m)), c, ok))"

text \<open>What a submission of a drawn slot pays: its own lease's price, less the debt taken now.\<close>

record pricing =
  pr_price :: rat
  pr_debit :: rat

datatype submission_terms = SlotLeased | LeaseRequired | Unpriced | Priced pricing

definition price_submission ::
  "rat \<Rightarrow> rat \<Rightarrow> bool \<Rightarrow> string \<Rightarrow> int \<Rightarrow> int \<Rightarrow> int \<Rightarrow> draw_leases \<times> token_auction option
   \<Rightarrow> ((draw_leases \<times> token_auction option) \<times> charges \<times> submission_terms) res" where
  "price_submission t1 t2 durable hotkey prompt slot tokens m =
     bind_res (refusal t1 (fst m) hotkey prompt slot) (\<lambda>(d1, c1, why).
       if why \<noteq> None then Inr ((d1, charge c1 (snd m)), c1, SlotLeased)
       else case charge c1 (snd m) of
              None \<Rightarrow> Inr ((d1, None), c1, Unpriced)
            | Some a1 \<Rightarrow>
                bind_res (held_lease t2 d1 hotkey prompt slot) (\<lambda>(d2, c2, own).
                  let a2 = the (charge c2 (Some a1))
                  in case own of
                       Some l \<Rightarrow>
                         (case le_price l of
                            Some price \<Rightarrow>
                              let (a3, taken) = take_debit hotkey (price * of_int tokens) a2
                              in Inr ((d2, Some a3), c1 @ c2, Priced \<lparr>pr_price = price, pr_debit = taken\<rparr>)
                          | None \<Rightarrow> Inr ((d2, Some a2), c1 @ c2, if durable then Unpriced else LeaseRequired))
                     | None \<Rightarrow> Inr ((d2, Some a2), c1 @ c2, if durable then Unpriced else LeaseRequired)))"

text \<open>
  Between its pricing and its ledger turn a submission waits for the accepted records and for the claim of its sandbox
  session. It may leave there: the records cannot be read, the same request was accepted before, or the claim is refused
  or fails. Only the second gives the debit back.
\<close>

datatype early_end = StoreFailed | Standing | ClaimRefused

definition leave_early :: "early_end \<Rightarrow> string \<Rightarrow> pricing option \<Rightarrow> token_auction option \<Rightarrow> token_auction option" where
  "leave_early why hotkey pricing auction =
     (case (why, pricing) of (Standing, Some p) \<Rightarrow> map_option (refund_debit hotkey (pr_debit p)) auction | _ \<Rightarrow> auction)"

text \<open>
  The ledger turn has returned a verdict, or raised (not accepted here, whatever it wrote): the debit stays only with an
  accepted submission.
\<close>

definition finish_submission ::
  "bool \<Rightarrow> bool \<Rightarrow> string \<Rightarrow> int \<Rightarrow> int \<Rightarrow> int \<Rightarrow> pricing option \<Rightarrow> draw_leases \<times> token_auction option
   \<Rightarrow> draw_leases \<times> token_auction option" where
  "finish_submission accepted slot_taken hotkey prompt slot tokens pricing m =
     (let auction = (case pricing of
                       None \<Rightarrow> snd m
                     | Some p \<Rightarrow> map_option (if accepted then observe_tokens tokens
                                              else refund_debit hotkey (pr_debit p)) (snd m))
      in (if accepted \<or> slot_taken then settle (fst m) prompt slot else fst m, auction))"


section \<open>Runs of the routes\<close>

datatype phase =
    Checked lease_request rat
  | Gated lease_request
  | Reserved string "terms option"
  | Ungranted "terms option"
  | Pending string int int int pricing

record market =
  mk_nonces :: nonces
  mk_leases :: draw_leases
  mk_auction :: "token_auction option"
  mk_flight :: "phase list"

text \<open>The clock does not run backwards past the round the auction is in.\<close>

definition forward :: "rat \<Rightarrow> token_auction option \<Rightarrow> bool" where
  "forward t auction \<longleftrightarrow>
     (case auction of None \<Rightarrow> True
      | Some a \<Rightarrow> (case ta_round a of None \<Rightarrow> True | Some r \<Rightarrow> r \<le> round_index (ta_params a) t))"

text \<open>What a list of charges adds to the debts.\<close>

definition charged :: "charges \<Rightarrow> token_auction option \<Rightarrow> (string \<times> rat) list" where
  "charged c auction =
     (case auction of None \<Rightarrow> []
      | Some a \<Rightarrow> map (\<lambda>(lease, held). (le_hotkey lease,
          case le_price lease of None \<Rightarrow> 0
          | Some p \<Rightarrow> max 0 (p * ta_mean_tokens a * min 1 (max 0 held)))) c)"

text \<open>
  A step of the routes, with what it charged for unused leases, what it collected on accepted submissions, and the debits
  it lost: taken for a submission that was not judged, and not given back.
\<close>

inductive market_step :: "market \<Rightarrow> (string \<times> rat) list \<Rightarrow> (string \<times> rat) list \<Rightarrow> (string \<times> rat) list \<Rightarrow> market \<Rightarrow> bool" where
  request_refused: "lease_check now rq (mk_nonces m) = (nonces, Some reason)
    \<Longrightarrow> market_step m [] [] [] (m\<lparr>mk_nonces := nonces\<rparr>)"
| request_checked: "lease_check now rq (mk_nonces m) = (nonces, None)
    \<Longrightarrow> market_step m [] [] [] (m\<lparr>mk_nonces := nonces, mk_flight := Checked rq now # mk_flight m\<rparr>)"
| request_gated: "mk_flight m = xs @ Checked rq now # ys \<Longrightarrow> lease_gated now gate rq (mk_nonces m) = (nonces, why)
    \<Longrightarrow> market_step m [] [] [] (m\<lparr>mk_nonces := nonces, mk_flight := (if why = None then Gated rq # xs @ ys else xs @ ys)\<rparr>)"
| request_admitted: "mk_flight m = xs @ Gated rq # ys \<Longrightarrow> forward t1 (mk_auction m) \<Longrightarrow> t1 \<le> t3
    \<Longrightarrow> lease_terms t1 t2 t3 backlog1 backlog2 job_refusal (rq_hotkey rq) (mk_auction m) = Inr (auction, ans)
    \<Longrightarrow> market_step m [] [] [] (m\<lparr>mk_auction := auction,
          mk_flight := (case ans of Inl reason \<Rightarrow> xs @ ys | Inr terms \<Rightarrow> Reserved (rq_hotkey rq) terms # xs @ ys)\<rparr>)"
| request_granted: "mk_flight m = xs @ Reserved hotkey terms # ys \<Longrightarrow> lease_at (mk_leases m) token = None
    \<Longrightarrow> lease_grant t1 t2 t3 now token draw hotkey free terms (mk_leases m, mk_auction m) = Inr (d, auction, c, ans)
    \<Longrightarrow> market_step m (charged c (mk_auction m)) [] [] (m\<lparr>mk_leases := d, mk_auction := auction,
          mk_flight := (case ans of Granted l \<Rightarrow> xs @ ys | _ \<Rightarrow> Ungranted terms # xs @ ys)\<rparr>)"
| request_ungranted: "mk_flight m = xs @ Ungranted terms # ys
    \<Longrightarrow> market_step m [] [] [] (m\<lparr>mk_auction := give_back terms (mk_auction m), mk_flight := xs @ ys\<rparr>)"
| released: "release_lease now hotkey lease_id (mk_leases m, mk_auction m) = ((d, auction), c, ok)
    \<Longrightarrow> market_step m (charged c (mk_auction m)) [] [] (m\<lparr>mk_leases := d, mk_auction := auction\<rparr>)"
| submitted: "price_submission t1 t2 durable hotkey p s tokens (mk_leases m, mk_auction m) = Inr ((d, auction), c, ans)
    \<Longrightarrow> market_step m (charged c (mk_auction m)) [] [] (m\<lparr>mk_leases := d, mk_auction := auction,
          mk_flight := (case ans of Priced pr \<Rightarrow> Pending hotkey p s tokens pr # mk_flight m | _ \<Rightarrow> mk_flight m)\<rparr>)"
| finished: "mk_flight m = xs @ Pending hotkey p s tokens pr # ys
    \<Longrightarrow> finish_submission accepted slot_taken hotkey p s tokens (Some pr) (mk_leases m, mk_auction m) = (d, auction)
    \<Longrightarrow> market_step m [] (if accepted then [(hotkey, pr_debit pr)] else []) []
          (m\<lparr>mk_leases := d, mk_auction := auction, mk_flight := xs @ ys\<rparr>)"
| left_early: "mk_flight m = xs @ Pending hotkey p s tokens pr # ys
    \<Longrightarrow> market_step m [] [] (if why = Standing then [] else [(hotkey, pr_debit pr)])
          (m\<lparr>mk_auction := leave_early why hotkey (Some pr) (mk_auction m), mk_flight := xs @ ys\<rparr>)"
| finished_unpriced: "mk_auction m = None \<Longrightarrow> finish_submission accepted slot_taken hotkey p s tokens None (mk_leases m, None) = (d, auction)
    \<Longrightarrow> market_step m [] [] [] (m\<lparr>mk_leases := d, mk_auction := auction\<rparr>)"
| asked: "mk_auction m = Some a \<Longrightarrow> forward t1 (mk_auction m) \<Longrightarrow> post_ask t1 t2 backlog hotkey v a = (a', why)
    \<Longrightarrow> market_step m [] [] [] (m\<lparr>mk_auction := Some a'\<rparr>)"

definition market_init :: "market \<Rightarrow> bool" where
  "market_init m \<longleftrightarrow> mk_nonces m = [] \<and> dl_init (mk_leases m) \<and> mk_flight m = []
     \<and> (case mk_auction m of None \<Rightarrow> True | Some a \<Rightarrow> ta_init a)"

inductive market_run :: "market \<Rightarrow> (string \<times> rat) list \<Rightarrow> (string \<times> rat) list \<Rightarrow> (string \<times> rat) list \<Rightarrow> bool" where
  run_init: "market_init m \<Longrightarrow> market_run m [] [] []"
| run_step: "market_run m ch co lo \<Longrightarrow> market_step m ch' co' lo' m' \<Longrightarrow> market_run m' (ch @ ch') (co @ co') (lo @ lo')"

section \<open>Both parts keep their invariants\<close>

definition auction_ok :: "token_auction option \<Rightarrow> bool" where
  "auction_ok auction \<longleftrightarrow> (case auction of None \<Rightarrow> True | Some a \<Rightarrow> ta_inv a)"

definition debt_of :: "token_auction option \<Rightarrow> string \<Rightarrow> rat" where
  "debt_of auction h = (case auction of None \<Rightarrow> 0 | Some a \<Rightarrow> dget_or (ta_debt a) h 0)"

definition total_of :: "string \<Rightarrow> (string \<times> rat) list \<Rightarrow> rat" where
  "total_of h xs = (\<Sum>(k, v) \<leftarrow> xs. if k = h then v else 0)"

lemma total_of_simps [simp]:
  "total_of h [] = 0" "total_of h ((k, v) # xs) = (if k = h then v else 0) + total_of h xs"
  "total_of h (xs @ ys) = total_of h xs + total_of h ys"
  by (simp_all add: total_of_def)

lemma lease_ended_effect:
  assumes "ta_inv a"
  shows "ta_inv (lease_ended hotkey price held a)"
    and "lease_ended hotkey price held a = a\<lparr>ta_debt := ta_debt (lease_ended hotkey price held a)\<rparr>"
    and "dget_or (ta_debt (lease_ended hotkey price held a)) h 0 = dget_or (ta_debt a) h 0 +
      (if h = hotkey then (case price of None \<Rightarrow> 0 | Some p \<Rightarrow> max 0 (p * ta_mean_tokens a * min 1 (max 0 held))) else 0)"
proof -
  show "ta_inv (lease_ended hotkey price held a)" by (rule ta_step_inv [OF step_ended assms])
  show "lease_ended hotkey price held a = a\<lparr>ta_debt := ta_debt (lease_ended hotkey price held a)\<rparr>"
    "dget_or (ta_debt (lease_ended hotkey price held a)) h 0 = dget_or (ta_debt a) h 0 +
      (if h = hotkey then (case price of None \<Rightarrow> 0 | Some p \<Rightarrow> max 0 (p * ta_mean_tokens a * min 1 (max 0 held))) else 0)"
    by (simp_all add: lease_ended_def Let_def max_def split: option.split)
qed

lemma charge_effect:
  assumes "ta_inv a"
  obtains a' where "charge c (Some a) = Some a'" "ta_inv a'" "a' = a\<lparr>ta_debt := ta_debt a'\<rparr>"
    "\<forall>h. dget_or (ta_debt a') h 0 = dget_or (ta_debt a) h 0 + total_of h (charged c (Some a))"
proof -
  let ?all = "fold (\<lambda>(lease, held) a. lease_ended (le_hotkey lease) (le_price lease) held a)"
  have "ta_inv (?all c a) \<and> ?all c a = a\<lparr>ta_debt := ta_debt (?all c a)\<rparr>
    \<and> (\<forall>h. dget_or (ta_debt (?all c a)) h 0 = dget_or (ta_debt a) h 0 + total_of h (charged c (Some a)))"
    using assms
  proof (induction c arbitrary: a)
    case (Cons x c)
    obtain lease held where x: "x = (lease, held)" by (cases x)
    let ?b = "lease_ended (le_hotkey lease) (le_price lease) held a"
    note eff = lease_ended_effect [OF Cons.prems, of "le_hotkey lease" "le_price lease" held]
    have mean: "ta_mean_tokens ?b = ta_mean_tokens a" by (subst eff(2)) simp
    have same: "charged c (Some ?b) = charged c (Some a)" by (simp only: charged_def option.case mean)
    have debt: "?b\<lparr>ta_debt := d\<rparr> = a\<lparr>ta_debt := d\<rparr>" for d by (subst eff(2)) simp
    from Cons.IH [OF eff(1)] have IH: "ta_inv (?all c ?b)" "?all c ?b = a\<lparr>ta_debt := ta_debt (?all c ?b)\<rparr>"
      "dget_or (ta_debt (?all c ?b)) h 0 = dget_or (ta_debt ?b) h 0 + total_of h (charged c (Some ?b))" for h
      unfolding debt by blast+
    have "total_of h (charged (x # c) (Some a)) = (if h = le_hotkey lease then
        (case le_price lease of None \<Rightarrow> 0 | Some p \<Rightarrow> max 0 (p * ta_mean_tokens a * min 1 (max 0 held))) else 0)
      + total_of h (charged c (Some ?b))" for h
      unfolding same by (simp add: charged_def x)
    moreover have "?all (x # c) a = ?all c ?b" by (simp add: x)
    ultimately show ?case using IH eff(3) by simp
  qed (simp add: charged_def)
  then show ?thesis using that [of "?all c a"] by (simp add: charge_def)
qed


lemma charge_ok:
  assumes "auction_ok A"
  shows "auction_ok (charge c A)" and "debt_of (charge c A) h = debt_of A h + total_of h (charged c A)"
    and "map_option (\<lambda>a. (ta_round a, ta_granted a, ta_leases a, ta_params a)) (charge c A)
       = map_option (\<lambda>a. (ta_round a, ta_granted a, ta_leases a, ta_params a)) A"
    and "charged c' (charge c A) = charged c' A" and "charge c A = None \<longleftrightarrow> A = None"
proof -
  have "auction_ok (charge c A) \<and> debt_of (charge c A) h = debt_of A h + total_of h (charged c A)
    \<and> map_option (\<lambda>a. (ta_round a, ta_granted a, ta_leases a, ta_params a)) (charge c A)
       = map_option (\<lambda>a. (ta_round a, ta_granted a, ta_leases a, ta_params a)) A
    \<and> charged c' (charge c A) = charged c' A \<and> (charge c A = None \<longleftrightarrow> A = None)" for h
  proof (cases A)
    case None
    then show ?thesis by (simp add: charge_def auction_ok_def debt_of_def charged_def)
  next
    case (Some a)
    then have "ta_inv a" using assms by (simp add: auction_ok_def)
    then obtain a' where a': "charge c (Some a) = Some a'" "ta_inv a'" "a' = a\<lparr>ta_debt := ta_debt a'\<rparr>"
      "\<forall>h. dget_or (ta_debt a') h 0 = dget_or (ta_debt a) h 0 + total_of h (charged c (Some a))" by (rule charge_effect [where c = c])
    have "ta_round a' = ta_round a" "ta_granted a' = ta_granted a" "ta_leases a' = ta_leases a" "ta_params a' = ta_params a"
      "ta_mean_tokens a' = ta_mean_tokens a"
      by (subst a'(3), simp)+
    with a' show ?thesis unfolding Some by (simp add: auction_ok_def debt_of_def) (simp only: charged_def option.case)
  qed
  then show "auction_ok (charge c A)" "debt_of (charge c A) h = debt_of A h + total_of h (charged c A)"
    "map_option (\<lambda>a. (ta_round a, ta_granted a, ta_leases a, ta_params a)) (charge c A)
       = map_option (\<lambda>a. (ta_round a, ta_granted a, ta_leases a, ta_params a)) A"
    "charged c' (charge c A) = charged c' A" by blast+
  show "charge c A = None \<longleftrightarrow> A = None" by (simp add: charge_def)
qed

lemma charged_append: "charged (c @ c') A = charged c A @ charged c' A"
  by (simp add: charged_def split: option.split)

section \<open>Loads of a round\<close>

text \<open>How many leases of each round are out or still reserved, and the auction's own count of them.\<close>

definition round_ok :: "token_auction option \<Rightarrow> (int \<Rightarrow> nat) \<Rightarrow> bool" where
  "round_ok A load \<longleftrightarrow>
     (case A of None \<Rightarrow> True
      | Some a \<Rightarrow> \<forall>r. (case ta_round a of None \<Rightarrow> load r = 0
          | Some now \<Rightarrow> (now < r \<longrightarrow> load r = 0) \<and> (now = r \<longrightarrow> int (load r) \<le> ta_granted a)))"

definition of_round :: "int option \<Rightarrow> int \<Rightarrow> nat" where
  "of_round tr r = (if tr = Some r then 1 else 0)"

lemma round_ok_mono: "round_ok A load \<Longrightarrow> (\<And>r. load' r \<le> load r) \<Longrightarrow> round_ok A load'"
  unfolding round_ok_def
  by (auto split: option.splits) (metis le_zero_eq, metis of_nat_mono order_trans)

lemma round_ok_view:
  "map_option (\<lambda>a. (ta_round a, ta_granted a, ta_leases a, ta_params a)) A
     = map_option (\<lambda>a. (ta_round a, ta_granted a, ta_leases a, ta_params a)) B \<Longrightarrow> round_ok A load = round_ok B load"
  by (cases A; cases B) (simp_all add: round_ok_def cong: option.case_cong)

lemma roll_keeps:
  assumes "ta_inv a"
  shows "ta_debt (roll now backlog a) = ta_debt a"
    and "ta_round a \<noteq> Some (round_index (ta_params a) now) \<Longrightarrow> ta_granted (roll now backlog a) = 0"
proof -
  have ok: "dict_ok (ta_asks a)" using assms by (simp add: ta_inv_def asks_ok_def)
  have "fst (live_prices now a) = a\<lparr>ta_asks := live_asks now a\<rparr>" by (rule live_prices_exact(1) [OF ok])
  then have "ta_debt (close_round now backlog a) = ta_debt a"
    by (cases "live_prices now a") (simp add: close_round_def Let_def)
  then show "ta_debt (roll now backlog a) = ta_debt a"
    using ok close_round_target(3) [OF ok, of now backlog] by (simp add: roll_def Let_def open_round_exact)
  show "ta_round a \<noteq> Some (round_index (ta_params a) now) \<Longrightarrow> ta_granted (roll now backlog a) = 0"
    using ok close_round_target(3) [OF ok, of now backlog] by (simp add: roll_def Let_def open_round_exact)
qed

lemma roll_round_ok:
  assumes "ta_inv a" and "forward t (Some a)" and "round_ok (Some a) load"
  shows "round_ok (Some (roll t backlog a)) load"
proof (cases "ta_round a = Some (round_index (ta_params a) t)")
  case True
  then show ?thesis using assms(3) by (simp add: roll_same)
next
  case False
  have r: "ta_round (roll t backlog a) = Some (round_index (ta_params a) t)" using roll_inv [OF assms(1)] by blast
  have "load r' = 0" if "round_index (ta_params a) t \<le> r'" for r'
    using assms(2,3) False that by (auto simp: forward_def round_ok_def split: option.splits)
  then show ?thesis by (simp add: round_ok_def r roll_keeps(2) [OF assms(1) False])
qed


lemma round_index_mono: "params_ok p \<Longrightarrow> t \<le> t' \<Longrightarrow> round_index p t \<le> round_index p t'"
  by (simp add: round_index_def params_ok_def floor_mono divide_right_mono)

lemma admit_effect:
  assumes inv: "ta_inv a" and fwd: "forward t1 (Some a)" and load: "round_ok (Some a) load"
    and admit: "admit t1 t2 backlog hotkey a = (a', ans)"
  shows "ta_inv a'" and "ta_debt a' = ta_debt a" and "ta_round a' = Some (round_index (ta_params a) t1)"
    and "ta_params a' = ta_params a"
    and "round_ok (Some a') (\<lambda>r. load r + (case ans of Admitted terms \<Rightarrow> of_round (tm_round terms) r | _ \<Rightarrow> 0))"
proof -
  let ?b = "roll t1 backlog a"
  have b: "ta_inv ?b" "ta_params ?b = ta_params a" "ta_round ?b = Some (round_index (ta_params a) t1)"
    using roll_inv [OF inv] by blast+
  obtain a2 ask where l: "live_ask hotkey t2 ?b = (a2, ask)" by fastforce
  have a2: "a2 = ?b\<lparr>ta_asks := ta_asks a2\<rparr>" by (rule live_ask_inv(2) [OF b(1) l])
  have same: "ta_debt a2 = ta_debt a" "ta_round a2 = Some (round_index (ta_params a) t1)" "ta_granted a2 = ta_granted ?b"
    "ta_params a2 = ta_params a"
    by (subst a2, simp add: b roll_keeps(1) [OF inv])+
  show "ta_inv a'" by (rule admit_inv [OF inv admit])
  show "ta_debt a' = ta_debt a" "ta_round a' = Some (round_index (ta_params a) t1)" "ta_params a' = ta_params a"
    using admit l same by (auto simp: admit_def Let_def split: option.splits if_splits)
  have "round_ok (Some ?b) load" by (rule roll_round_ok [OF inv fwd load])
  then show "round_ok (Some a') (\<lambda>r. load r + (case ans of Admitted terms \<Rightarrow> of_round (tm_round terms) r | _ \<Rightarrow> 0))"
    using admit l same b(3) by (auto simp: admit_def Let_def round_ok_def of_round_def split: option.splits if_splits)
qed

lemma lease_terms_effect:
  assumes ok: "auction_ok A" and fwd: "forward t1 A" and le: "t1 \<le> t3" and load: "round_ok A load"
    and r: "lease_terms t1 t2 t3 b1 b2 job_refusal hotkey A = Inr (A', ans)"
  shows "auction_ok A'" and "debt_of A' h = debt_of A h"
    and "round_ok A' (\<lambda>r. load r + (case ans of Inr (Some terms) \<Rightarrow> of_round (tm_round terms) r | _ \<Rightarrow> 0))"
proof -
  have "auction_ok A' \<and> debt_of A' h = debt_of A h
    \<and> round_ok A' (\<lambda>r. load r + (case ans of Inr (Some terms) \<Rightarrow> of_round (tm_round terms) r | _ \<Rightarrow> 0))"
  proof (cases "job_refusal = None \<and> A \<noteq> None")
    case False
    then show ?thesis using r ok load by (auto simp: lease_terms_def round_ok_def split: option.splits)
  next
    case True
    then obtain a where a: "A = Some a" by blast
    have inv: "ta_inv a" using ok by (simp add: a auction_ok_def)
    obtain a1 answer where ad: "admit t1 t2 b1 hotkey a = (a1, answer)" by fastforce
    note eff = admit_effect [OF inv fwd [unfolded a] load [unfolded a] ad]
    show ?thesis
    proof (cases answer)
      case (Admitted terms)
      then show ?thesis using r True a ad eff by (auto simp: lease_terms_def auction_ok_def debt_of_def)
    next
      case (Refused reason)
      obtain a2 v where v: "view t3 b2 a1 = Inr (a2, v)" and A': "A' = Some a2" "ans = Inl reason"
        using r True a ad Refused by (auto simp: lease_terms_def bind_res_Inr_iff)
      have a2: "a2 = roll t3 b2 a1" using v by (auto simp: view_def Let_def split: option.splits)
      have "forward t3 (Some a1)"
        using eff(3,4) round_index_mono [OF _ le, of "ta_params a"] inv by (simp add: forward_def ta_inv_def)
      then have "round_ok (Some a2) load"
        unfolding a2 using eff(5) by (intro roll_round_ok [OF eff(1)]) (simp_all add: Refused)
      moreover have "ta_inv a2" "ta_debt a2 = ta_debt a"
        using roll_inv [OF eff(1)] roll_keeps(1) [OF eff(1)] eff(2) by (simp_all add: a2)
      ultimately show ?thesis by (simp add: A' a auction_ok_def debt_of_def)
    qed
  qed
  then show "auction_ok A'" "debt_of A' h = debt_of A h"
    "round_ok A' (\<lambda>r. load r + (case ans of Inr (Some terms) \<Rightarrow> of_round (tm_round terms) r | _ \<Rightarrow> 0))" by blast+
qed

lemma give_back_effect:
  assumes ok: "auction_ok A" and load: "round_ok A load"
    and less: "\<And>r. load r = load' r + (case terms of None \<Rightarrow> 0 | Some tm \<Rightarrow> of_round (tm_round tm) r)"
  shows "auction_ok (give_back terms A)" and "debt_of (give_back terms A) h = debt_of A h"
    and "round_ok (give_back terms A) load'"
proof -
  show "auction_ok (give_back terms A)"
    using ok ta_step_inv [OF step_unreserve] by (auto simp: give_back_def auction_ok_def split: option.splits)
  show "debt_of (give_back terms A) h = debt_of A h"
    by (cases terms; cases A) (simp_all add: give_back_def debt_of_def unreserve_def)
  have le: "round_ok A load'" using load by (rule round_ok_mono) (simp add: less)
  show "round_ok (give_back terms A) load'"
  proof (cases "(\<exists>tm a. terms = Some tm \<and> A = Some a \<and> tm_round tm = ta_round a \<and> 0 < ta_granted a)")
    case True
    then obtain tm a where *: "terms = Some tm" "A = Some a" "tm_round tm = ta_round a" "0 < ta_granted a" by blast
    then show ?thesis
      using load less by (auto simp: give_back_def unreserve_def round_ok_def of_round_def split: option.splits)
        (metis add1_zle_eq)
  next
    case False
    then have "give_back terms A = A"
      by (cases terms; cases A) (auto simp: give_back_def unreserve_def)
    with le show ?thesis by simp
  qed
qed


section \<open>The effect of each part\<close>

definition book_load :: "draw_leases \<Rightarrow> int \<Rightarrow> nat" where
  "book_load d r = length (filter (\<lambda>l. le_round l = Some r) (map snd (dl_by_id d)))"

definition flight_round :: "phase \<Rightarrow> int option" where
  "flight_round p = (case p of Reserved h (Some tm) \<Rightarrow> tm_round tm | Ungranted (Some tm) \<Rightarrow> tm_round tm | _ \<Rightarrow> None)"

definition flight_load :: "phase list \<Rightarrow> int \<Rightarrow> nat" where
  "flight_load fl r = length (filter (\<lambda>p. flight_round p = Some r) fl)"

lemma keeps_load: "keeps P d d' \<Longrightarrow> book_load d' r \<le> book_load d r"
proof -
  assume "keeps P d d'"
  moreover have "length (filter Q (map snd (filter R xs))) \<le> length (filter Q (map snd xs))" for Q R and xs :: "(string, lease) dict"
    by (induction xs) auto
  ultimately show ?thesis by (simp add: keeps_def book_load_def)
qed

lemma added_load:
  assumes "add_lease token hotkey key now price rnd d = (d', l)" and "lease_at d token = None"
  shows "book_load d' r = book_load d r + of_round rnd r"
  using assms by (auto simp: add_lease_def Let_def book_load_def lease_at_def dset_fresh map_of_eq_None_iff of_round_def)

definition part_ok :: "draw_leases \<Rightarrow> token_auction option \<Rightarrow> (string \<times> rat) list \<Rightarrow> draw_leases \<Rightarrow> token_auction option \<Rightarrow> bool" where
  "part_ok d A ch d' A' \<longleftrightarrow> dl_inv d' \<and> auction_ok A' \<and> (\<forall>h. debt_of A' h = debt_of A h + total_of h ch)
     \<and> (\<forall>load. round_ok A load \<longrightarrow> round_ok A' load)"

lemma part_charge:
  assumes "dl_inv d'" "auction_ok A"
  shows "part_ok d A (charged c A) d' (charge c A)"
  using assms charge_ok [OF assms(2)] round_ok_view [OF charge_ok(3) [OF assms(2)]] by (auto simp: part_ok_def)

lemma lease_grant_effect:
  assumes inv: "dl_inv d" and ok: "auction_ok A" and fresh: "lease_at d token = None"
    and g: "lease_grant t1 t2 t3 now token draw hotkey free terms (d, A) = Inr (d', A', c, ans)"
  shows "part_ok d A (charged c A) d' A'"
    and "book_load d' r \<le> book_load d r + (case ans of Granted l \<Rightarrow> (case terms of None \<Rightarrow> 0 | Some tm \<Rightarrow> of_round (tm_round tm) r) | _ \<Rightarrow> 0)"
proof -
  let ?rnd = "case terms of None \<Rightarrow> None | Some tm \<Rightarrow> tm_round tm"
  have gr: "grant t1 t2 t3 now token draw hotkey free (map_option tm_price terms) ?rnd d = Inr (d', c, ans)"
    and A': "A' = charge c A" using g by (auto simp: lease_grant_def bind_res_Inr_iff)
  have "dl_inv d'" by (rule grant_inv [OF inv fresh gr])
  then show "part_ok d A (charged c A) d' A'" unfolding A' using ok by (rule part_charge)
  have rnd: "of_round ?rnd r = (case terms of None \<Rightarrow> 0 | Some tm \<Rightarrow> of_round (tm_round tm) r)"
    by (simp add: of_round_def split: option.split)
  show "book_load d' r \<le> book_load d r + (case ans of Granted l \<Rightarrow> (case terms of None \<Rightarrow> 0 | Some tm \<Rightarrow> of_round (tm_round tm) r) | _ \<Rightarrow> 0)"
    unfolding rnd [symmetric]
    by (rule grant_total [OF inv fresh, of t1 t2 t3 now draw hotkey free "map_option tm_price terms" ?rnd])
      (use gr keeps_load [of _ d] added_load in \<open>auto simp del: split_paired_All\<close>)
qed


lemma expired_load:
  assumes "dl_inv d" "expire now d = (d1, c)"
  shows "dl_inv d1" and "book_load d1 r \<le> book_load d r"
  using assms expire_inv expire_keeps keeps_load unfolding dl_inv_def by blast+

lemma refusal_effect:
  assumes inv: "dl_inv d" and "refusal now d hotkey p s = Inr (d1, c, why)"
  shows "dl_inv d1" and "book_load d1 r \<le> book_load d r"
proof -
  obtain d2 c2 where "expire now d = (d2, c2)" "d1 = d2"
    by (rule holders_exact [OF inv, of now p s]) (use assms(2) in \<open>auto simp: refusal_def\<close>)
  then show "dl_inv d1" "book_load d1 r \<le> book_load d r" using expired_load [OF inv] by auto
qed

lemma held_effect:
  assumes inv: "dl_inv d" and "held_lease now d hotkey p s = Inr (d1, c, own)"
  shows "dl_inv d1" and "book_load d1 r \<le> book_load d r"
proof -
  obtain d2 c2 where "expire now d = (d2, c2)" "d1 = d2"
    by (rule holders_exact [OF inv, of now p s]) (use assms(2) in \<open>auto simp: held_lease_def\<close>)
  then show "dl_inv d1" "book_load d1 r \<le> book_load d r" using expired_load [OF inv] by auto
qed

definition debit_of :: "submission_terms \<Rightarrow> rat" where
  "debit_of ans = (case ans of Priced pr \<Rightarrow> pr_debit pr | _ \<Rightarrow> 0)"

lemma debited:
  assumes "auction_ok (Some a)" and "take_debit hotkey value a = (a', taken)"
  shows "auction_ok (Some a')" "debt_of (Some a') h = debt_of (Some a) h - (if h = hotkey then taken else 0)"
    "0 \<le> taken" "taken \<le> max 0 value" "round_ok (Some a') load = round_ok (Some a) load"
proof -
  have inv: "ta_inv a" using assms(1) by (simp add: auction_ok_def)
  note d = debit_inv [OF inv assms(2)]
  show "auction_ok (Some a')" "0 \<le> taken" "taken \<le> max 0 value" using d by (simp_all add: auction_ok_def)
  show "debt_of (Some a') h = debt_of (Some a) h - (if h = hotkey then taken else 0)" using d by (simp add: debt_of_def)
  have "ta_round a' = ta_round a" "ta_granted a' = ta_granted a"
    using assms(2) by (auto simp: take_debit_def Let_def split: if_splits)
  then show "round_ok (Some a') load = round_ok (Some a) load" by (simp add: round_ok_def cong: option.case_cong)
qed

lemma price_submission_effect:
  assumes inv: "dl_inv d" and ok: "auction_ok A"
    and ps: "price_submission t1 t2 durable hotkey p s tokens (d, A) = Inr ((d', A'), c, ans)"
  shows "dl_inv d'" and "book_load d' r \<le> book_load d r" and "auction_ok A'"
    and "debt_of A' h = debt_of A h + total_of h (charged c A) - (if h = hotkey then debit_of ans else 0)"
    and "round_ok A load \<Longrightarrow> round_ok A' load"
    and "ans = Priced pr \<Longrightarrow> A' \<noteq> None \<and> 0 \<le> pr_debit pr \<and> pr_debit pr \<le> max 0 (pr_price pr * of_int tokens)"
    and "A = None \<longleftrightarrow> A' = None"
proof -
  from ps obtain d1 c1 why where r: "refusal t1 d hotkey p s = Inr (d1, c1, why)"
    by (auto simp: price_submission_def bind_res_Inr_iff)
  note e1 = refusal_effect [OF inv r]
  note ch1 = charge_ok [OF ok, where c = c1]
  have view1: "round_ok (charge c1 A) load = round_ok A load" for load by (rule round_ok_view [OF ch1(3)])
  have "dl_inv d' \<and> book_load d' r \<le> book_load d r \<and> auction_ok A'
    \<and> debt_of A' h = debt_of A h + total_of h (charged c A) - (if h = hotkey then debit_of ans else 0)
    \<and> (round_ok A load \<longrightarrow> round_ok A' load)
    \<and> (ans = Priced pr \<longrightarrow> A' \<noteq> None \<and> 0 \<le> pr_debit pr \<and> pr_debit pr \<le> max 0 (pr_price pr * of_int tokens))
    \<and> ((A = None) = (A' = None))"
  proof (cases "why = None \<and> A \<noteq> None")
    case False
    then have "d' = d1 \<and> A' = charge c1 A \<and> c = c1 \<and> (ans = SlotLeased \<or> ans = Unpriced)"
      using ps r ch1(5) by (auto simp: price_submission_def charge_def split: option.splits if_splits)
    then show ?thesis using e1 ch1 view1 by (auto simp: debit_of_def)
  next
    case True
    then obtain a1 where a1: "charge c1 A = Some a1" using ch1(5) by auto
    from ps r True a1 obtain d2 c2 own where h: "held_lease t2 d1 hotkey p s = Inr (d2, c2, own)"
      by (auto simp: price_submission_def bind_res_Inr_iff)
    note e2 = held_effect [OF e1(1) h]
    have ok1: "auction_ok (Some a1)" using ch1(1) by (simp add: a1)
    note ch2 = charge_ok [OF ok1, where c = c2]
    obtain a2 where a2: "charge c2 (Some a1) = Some a2" using ch2(5) by auto
    have ok2: "auction_ok (Some a2)" using ch2(1) by (simp add: a2)
    have debt2: "debt_of (Some a2) h = debt_of A h + total_of h (charged (c1 @ c2) A)" for h
      using ch1(2) [of h] ch2(2) [of h] ch1(4) [of c2] by (simp add: a1 a2 charged_append)
    have view2: "round_ok (Some a2) load = round_ok A load" for load
      using view1 round_ok_view [OF ch2(3)] by (simp add: a1 a2)
    have load2: "book_load d2 r \<le> book_load d r" using e1(2) e2(2) order_trans by blast
    show ?thesis
    proof (cases "\<exists>l price. own = Some l \<and> le_price l = Some price")
      case False
      then have "d' = d2 \<and> A' = Some a2 \<and> c = c1 @ c2 \<and> (ans = Unpriced \<or> ans = LeaseRequired)"
        using ps r h True a1 a2 by (auto simp: price_submission_def Let_def split: option.splits if_splits)
      then show ?thesis using e2(1) load2 ok2 debt2 view2 True by (auto simp: debit_of_def)
    next
      case owned: True
      then obtain l price where own: "own = Some l" "le_price l = Some price" by blast
      obtain a3 taken where td: "take_debit hotkey (price * of_int tokens) a2 = (a3, taken)" by fastforce
      note deb = debited [OF ok2 td]
      have "d' = d2 \<and> A' = Some a3 \<and> c = c1 @ c2 \<and> ans = Priced \<lparr>pr_price = price, pr_debit = taken\<rparr>"
        using ps r h True a1 a2 own td by (auto simp: price_submission_def Let_def)
      then show ?thesis using e2(1) load2 deb debt2 view2 True by (auto simp: debit_of_def)
    qed
  qed
  then show "dl_inv d'" "book_load d' r \<le> book_load d r" "auction_ok A'"
    "debt_of A' h = debt_of A h + total_of h (charged c A) - (if h = hotkey then debit_of ans else 0)"
    "round_ok A load \<Longrightarrow> round_ok A' load"
    "ans = Priced pr \<Longrightarrow> A' \<noteq> None \<and> 0 \<le> pr_debit pr \<and> pr_debit pr \<le> max 0 (pr_price pr * of_int tokens)"
    "A = None \<longleftrightarrow> A' = None" by simp_all
qed


lemma finish_effect:
  assumes inv: "dl_inv d" and ok: "auction_ok A" and A: "A \<noteq> None" and pr: "0 \<le> pr_debit pr"
    and f: "finish_submission accepted slot_taken hotkey p s tokens (Some pr) (d, A) = (d', A')"
  shows "dl_inv d'" and "book_load d' r \<le> book_load d r" and "auction_ok A'" and "A' \<noteq> None"
    and "debt_of A' h = debt_of A h + (if h = hotkey \<and> \<not> accepted then pr_debit pr else 0)"
    and "round_ok A' load = round_ok A load"
proof -
  have d': "d' = (if accepted \<or> slot_taken then settle d p s else d)"
    and A': "A' = map_option (if accepted then observe_tokens tokens else refund_debit hotkey (pr_debit pr)) A"
    using f by (auto simp: finish_submission_def Let_def)
  have k: "keeps (\<lambda>i l. slot_of l \<noteq> (p, s)) d (settle d p s)" using inv by (simp add: settle_keeps dl_inv_def)
  show "dl_inv d'" using inv keeps_inv [OF inv k] by (simp add: d')
  show "book_load d' r \<le> book_load d r" using keeps_load [OF k] by (simp add: d')
  obtain a where a: "A = Some a" using A by blast
  show "auction_ok A'"
    using ok ta_step_inv [OF step_observe] ta_step_inv [OF step_refund] by (simp add: A' a auction_ok_def)
  show "A' \<noteq> None" by (simp add: A' a)
  show "debt_of A' h = debt_of A h + (if h = hotkey \<and> \<not> accepted then pr_debit pr else 0)"
    using pr by (simp add: A' a debt_of_def observe_tokens_def refund_debit_def)
  show "round_ok A' load = round_ok A load"
    by (simp add: A' a round_ok_def observe_tokens_def refund_debit_def cong: option.case_cong)
qed

section \<open>The invariant of a run\<close>

definition flight_debit :: "string \<Rightarrow> phase \<Rightarrow> rat" where
  "flight_debit h p = (case p of Pending k q s n pr \<Rightarrow> if k = h then pr_debit pr else 0 | _ \<Rightarrow> 0)"

definition phase_ok :: "token_auction option \<Rightarrow> phase \<Rightarrow> bool" where
  "phase_ok A p \<longleftrightarrow> (case p of
     Pending k q s n pr \<Rightarrow> A \<noteq> None \<and> 0 \<le> pr_debit pr \<and> pr_debit pr \<le> max 0 (pr_price pr * of_int n) | _ \<Rightarrow> True)"

definition market_load :: "market \<Rightarrow> int \<Rightarrow> nat" where
  "market_load m r = book_load (mk_leases m) r + flight_load (mk_flight m) r"

definition market_inv :: "market \<Rightarrow> (string \<times> rat) list \<Rightarrow> (string \<times> rat) list \<Rightarrow> (string \<times> rat) list \<Rightarrow> bool" where
  "market_inv m ch co lo \<longleftrightarrow> dl_inv (mk_leases m) \<and> auction_ok (mk_auction m) \<and> list_all (phase_ok (mk_auction m)) (mk_flight m)
     \<and> (\<forall>h. debt_of (mk_auction m) h + (\<Sum>p \<leftarrow> mk_flight m. flight_debit h p) = total_of h ch - total_of h co - total_of h lo)
     \<and> round_ok (mk_auction m) (market_load m)"

lemma flight_load_simps [simp]:
  "flight_load [] r = 0" "flight_load (p # ps) r = of_round (flight_round p) r + flight_load ps r"
  "flight_load (ps @ qs) r = flight_load ps r + flight_load qs r"
  by (simp_all add: flight_load_def of_round_def)

lemma phase_simps [simp]:
  "flight_debit h (Checked rq t) = 0" "flight_debit h (Gated rq) = 0" "flight_debit h (Reserved k tt) = 0"
  "flight_debit h (Ungranted tt) = 0" "flight_debit h (Pending k q s n pr) = (if k = h then pr_debit pr else 0)"
  "phase_ok A (Checked rq t)" "phase_ok A (Gated rq)" "phase_ok A (Reserved k tt)" "phase_ok A (Ungranted tt)"
  "flight_round (Checked rq t) = None" "flight_round (Gated rq) = None" "flight_round (Pending k q s n pr) = None"
  "flight_round (Reserved k None) = None" "flight_round (Ungranted None) = None"
  "flight_round (Reserved k (Some tm)) = tm_round tm" "flight_round (Ungranted (Some tm)) = tm_round tm"
  "of_round None r = 0"
  by (simp_all add: flight_debit_def phase_ok_def flight_round_def of_round_def)

lemma phase_ok_None: "phase_ok A p \<Longrightarrow> (A = None \<longleftrightarrow> A' = None) \<Longrightarrow> phase_ok A' p"
  by (auto simp: phase_ok_def split: phase.splits)

lemma phases_ok_None: "list_all (phase_ok A) ps \<Longrightarrow> (A = None \<longleftrightarrow> A' = None) \<Longrightarrow> list_all (phase_ok A') ps"
  using phase_ok_None by (metis (no_types, lifting) list.pred_mono_strong)

lemma market_init_inv: "market_init m \<Longrightarrow> market_inv m [] [] []"
proof -
  assume init: "market_init m"
  then have "dl_inv (mk_leases m)" "auction_ok (mk_auction m)"
    by (auto simp: market_init_def auction_ok_def dl_init_inv ta_init_inv split: option.splits)
  moreover have "debt_of (mk_auction m) h = 0" for h
  proof (cases "mk_auction m")
    case (Some a)
    then have "ta_init a" using init by (simp add: market_init_def)
    then obtain p mt where "a = TokenAuction p mt" by (rule ta_init_cases)
    then have "ta_debt a = []" by (simp add: TokenAuction_def)
    then show ?thesis by (simp add: Some debt_of_def)
  qed (simp add: debt_of_def)
  moreover have "round_ok (mk_auction m) (market_load m)"
  proof -
    have "market_load m r = 0" for r
      using init by (auto simp: market_load_def market_init_def dl_init_def DrawLeases_def book_load_def)
    then show ?thesis using \<open>auction_ok (mk_auction m)\<close> by (auto simp: round_ok_def auction_ok_def ta_inv_def split: option.splits)
  qed
  ultimately show ?thesis using init by (simp add: market_inv_def market_init_def)
qed


lemma lease_terms_None:
  "lease_terms t1 t2 t3 b1 b2 why hotkey A = Inr (A', ans) \<Longrightarrow> (A = None \<longleftrightarrow> A' = None)"
  by (auto simp: lease_terms_def bind_res_Inr_iff split: option.splits prod.splits admission.splits)

lemma post_ask_effect:
  assumes inv: "ta_inv a" and fwd: "forward t1 (Some a)" and load: "round_ok (Some a) load"
    and ask: "post_ask t1 t2 backlog hotkey v a = (a', why)"
  shows "ta_inv a'" and "ta_debt a' = ta_debt a" and "round_ok (Some a') load"
proof -
  show "ta_inv a'" by (rule ta_step_inv [OF step_ask [OF ask] inv])
  have "round_ok (Some (b\<lparr>ta_asks := x\<rparr>)) load = round_ok (Some b) load" for b x
    by (simp add: round_ok_def cong: option.case_cong)
  then show "ta_debt a' = ta_debt a" "round_ok (Some a') load"
    using ask load roll_keeps(1) [OF inv] roll_round_ok [OF inv fwd load]
    by (auto simp: post_ask_def Let_def split: sum.splits if_splits)
qed

lemma leave_early_effect:
  assumes "auction_ok A" "phase_ok A (Pending hotkey p s tokens pr)"
  shows "auction_ok (leave_early why hotkey (Some pr) A)" and "A = None \<longleftrightarrow> leave_early why hotkey (Some pr) A = None"
    and "debt_of (leave_early why hotkey (Some pr) A) h = debt_of A h + (if h = hotkey \<and> why = Standing then pr_debit pr else 0)"
    and "round_ok (leave_early why hotkey (Some pr) A) load = round_ok A load"
proof -
  obtain a where a: "A = Some a" and pr: "0 \<le> pr_debit pr" using assms(2) by (auto simp: phase_ok_def)
  show "auction_ok (leave_early why hotkey (Some pr) A)"
    using assms(1) ta_step_inv [OF step_refund] by (cases why) (simp_all add: leave_early_def a auction_ok_def)
  show "A = None \<longleftrightarrow> leave_early why hotkey (Some pr) A = None" by (cases why) (simp_all add: leave_early_def a)
  show "debt_of (leave_early why hotkey (Some pr) A) h = debt_of A h + (if h = hotkey \<and> why = Standing then pr_debit pr else 0)"
    using pr by (cases why) (simp_all add: leave_early_def a debt_of_def refund_debit_def)
  show "round_ok (leave_early why hotkey (Some pr) A) load = round_ok A load"
    by (cases why) (simp_all add: leave_early_def a round_ok_def refund_debit_def cong: option.case_cong)
qed

lemma market_step_inv: "market_step m ch' co' lo' m' \<Longrightarrow> market_inv m ch co lo \<Longrightarrow> market_inv m' (ch @ ch') (co @ co') (lo @ lo')"
proof (induction rule: market_step.induct)
  case (request_refused now rq m nonces reason)
  then show ?case by (simp add: market_inv_def market_load_def [abs_def])
next
  case (request_checked now rq m nonces)
  then show ?case by (simp add: market_inv_def market_load_def [abs_def])
next
  case (request_gated m xs rq now ys gate nonces why)
  then show ?case by (simp add: market_inv_def market_load_def [abs_def])
next
  case (request_admitted m xs rq ys t1 t3 t2 b1 b2 refusal auction ans)
  then have inv: "auction_ok (mk_auction m)" "round_ok (mk_auction m) (market_load m)" by (simp_all add: market_inv_def)
  note eff = lease_terms_effect [OF inv(1) request_admitted(2,3) inv(2) request_admitted(4)]
  let ?m' = "m\<lparr>mk_auction := auction,
      mk_flight := (case ans of Inl reason \<Rightarrow> xs @ ys | Inr terms \<Rightarrow> Reserved (rq_hotkey rq) terms # xs @ ys)\<rparr>"
  have load: "market_load ?m' = (\<lambda>r. market_load m r + (case ans of Inr (Some terms) \<Rightarrow> of_round (tm_round terms) r | _ \<Rightarrow> 0))"
    using request_admitted(1) by (auto simp: market_load_def fun_eq_iff split: sum.splits option.splits)
  have "round_ok (mk_auction ?m') (market_load ?m')" unfolding load using eff(3) by simp
  moreover have "list_all (phase_ok auction) (mk_flight m)"
    using request_admitted(5) lease_terms_None [OF request_admitted(4)] phases_ok_None by (auto simp: market_inv_def)
  ultimately show ?case
    using request_admitted(1,5) eff(1,2) by (auto simp: market_inv_def split: sum.splits)
next
  case (request_granted m xs hotkey terms ys token t1 t2 t3 now draw free d auction c ans)
  then have inv: "dl_inv (mk_leases m)" "auction_ok (mk_auction m)" "round_ok (mk_auction m) (market_load m)"
    by (simp_all add: market_inv_def)
  note eff = lease_grant_effect [OF inv(1,2) request_granted(2,3)]
  let ?m' = "m\<lparr>mk_leases := d, mk_auction := auction,
      mk_flight := (case ans of Granted l \<Rightarrow> xs @ ys | _ \<Rightarrow> Ungranted terms # xs @ ys)\<rparr>"
  have "market_load ?m' r \<le> market_load m r" for r
    using eff(2) [of r] request_granted(1)
    by (cases terms) (auto simp: market_load_def split: grant_answer.splits)
  moreover have "round_ok auction (market_load m)" using eff(1) inv(3) by (simp add: part_ok_def)
  ultimately have "round_ok auction (market_load ?m')" using round_ok_mono by blast
  moreover have "auction = charge c (mk_auction m)" using request_granted(3) by (auto simp: lease_grant_def bind_res_Inr_iff)
  then have "list_all (phase_ok auction) (mk_flight m)"
    using request_granted(4) charge_ok(5) [OF inv(2)] phases_ok_None by (auto simp: market_inv_def)
  ultimately show ?case
    using request_granted(1,4) eff(1) by (auto simp: market_inv_def part_ok_def split: grant_answer.splits)
next
  case (request_ungranted m xs terms ys)
  then have inv: "auction_ok (mk_auction m)" "round_ok (mk_auction m) (market_load m)" by (simp_all add: market_inv_def)
  let ?m' = "m\<lparr>mk_auction := give_back terms (mk_auction m), mk_flight := xs @ ys\<rparr>"
  have "market_load m r = market_load ?m' r + (case terms of None \<Rightarrow> 0 | Some tm \<Rightarrow> of_round (tm_round tm) r)" for r
    using request_ungranted(1) by (cases terms) (simp_all add: market_load_def)
  note eff = give_back_effect [OF inv this]
  have "mk_auction m = None \<longleftrightarrow> give_back terms (mk_auction m) = None" by (cases terms) (simp_all add: give_back_def)
  then have "list_all (phase_ok (give_back terms (mk_auction m))) (mk_flight m)"
    using request_ungranted(2) phases_ok_None by (auto simp: market_inv_def)
  then show ?case using request_ungranted eff by (simp add: market_inv_def)
next
  case (released now hotkey lease_id m d auction c ok)
  then have inv: "dl_inv (mk_leases m)" "auction_ok (mk_auction m)" "round_ok (mk_auction m) (market_load m)"
    by (simp_all add: market_inv_def)
  have rel: "release now (mk_leases m) hotkey lease_id = (d, c, ok)" and A: "auction = charge c (mk_auction m)"
    using released(1) by (auto simp: release_lease_def split: prod.splits)
  have k: "keeps (\<lambda>i l. \<not> (ok \<and> i = lease_id)) (mk_leases m) d"
    using release_keeps(1) rel inv(1) unfolding dl_inv_def by blast
  have "part_ok (mk_leases m) (mk_auction m) (charged c (mk_auction m)) d auction"
    unfolding A by (rule part_charge [OF keeps_inv [OF inv(1) k] inv(2)])
  moreover have "market_load (m\<lparr>mk_leases := d, mk_auction := auction\<rparr>) r \<le> market_load m r" for r
    using keeps_load [OF k, of r] by (simp add: market_load_def)
  ultimately have "round_ok auction (market_load (m\<lparr>mk_leases := d, mk_auction := auction\<rparr>))"
    using inv(3) round_ok_mono unfolding part_ok_def by blast
  moreover have "list_all (phase_ok auction) (mk_flight m)"
    using released(2) charge_ok(5) [OF inv(2)] phases_ok_None unfolding A by (auto simp: market_inv_def)
  ultimately show ?case
    using released(2) \<open>part_ok (mk_leases m) (mk_auction m) (charged c (mk_auction m)) d auction\<close>
    by (simp add: market_inv_def part_ok_def)
next
  case (submitted t1 t2 durable hotkey p s tokens m d auction c ans)
  then have inv: "dl_inv (mk_leases m)" "auction_ok (mk_auction m)" "round_ok (mk_auction m) (market_load m)"
    by (simp_all add: market_inv_def)
  note eff = price_submission_effect [OF inv(1,2) submitted(1)]
  let ?m' = "m\<lparr>mk_leases := d, mk_auction := auction,
      mk_flight := (case ans of Priced pr \<Rightarrow> Pending hotkey p s tokens pr # mk_flight m | _ \<Rightarrow> mk_flight m)\<rparr>"
  have "market_load ?m' r \<le> market_load m r" for r
    using eff(2) [of r] by (auto simp: market_load_def split: submission_terms.splits)
  then have round: "round_ok auction (market_load ?m')" using eff(5) [OF inv(3)] round_ok_mono by blast
  note none = eff(7)
  have flight: "list_all (phase_ok auction) (mk_flight m)"
    using submitted(2) none phases_ok_None by (auto simp: market_inv_def)
  have debts: "debt_of auction h + (\<Sum>p \<leftarrow> mk_flight m. flight_debit h p) + (if h = hotkey then debit_of ans else 0)
      = total_of h (ch @ charged c (mk_auction m)) - total_of h co - total_of h lo" for h
  proof -
    have "debt_of (mk_auction m) h + (\<Sum>p \<leftarrow> mk_flight m. flight_debit h p) = total_of h ch - total_of h co - total_of h lo"
      using submitted(2) unfolding market_inv_def by blast
    then show ?thesis using eff(4) [of h] by simp
  qed
  have "debt_of auction h + (\<Sum>p \<leftarrow> mk_flight ?m'. flight_debit h p) = total_of h (ch @ charged c (mk_auction m)) - total_of h co - total_of h lo" for h
    using debts [of h] by (cases ans; cases "h = hotkey") (simp_all add: debit_of_def add.assoc add.commute)
  moreover have "list_all (phase_ok auction) (mk_flight ?m')"
    using flight eff(6) by (cases ans) (simp_all add: phase_ok_def)
  ultimately show ?case using eff(1,3) round by (simp add: market_inv_def)
next
  case (finished m xs hotkey p s tokens pr ys accepted slot_taken d auction)
  then have inv: "dl_inv (mk_leases m)" "auction_ok (mk_auction m)" "round_ok (mk_auction m) (market_load m)"
    and ok: "phase_ok (mk_auction m) (Pending hotkey p s tokens pr)"
    by (simp_all add: market_inv_def)
  then have A: "mk_auction m \<noteq> None" and pr: "0 \<le> pr_debit pr" by (simp_all add: phase_ok_def)
  note eff = finish_effect [OF inv(1,2) A pr finished(2)]
  let ?m' = "m\<lparr>mk_leases := d, mk_auction := auction, mk_flight := xs @ ys\<rparr>"
  have "market_load ?m' r \<le> market_load m r" for r using eff(2) [of r] finished(1) by (simp add: market_load_def)
  then have "round_ok auction (market_load ?m')" using eff(6) inv(3) round_ok_mono by blast
  moreover have "list_all (phase_ok auction) (mk_flight m)"
    using finished(3) A eff(4) phases_ok_None by (auto simp: market_inv_def)
  moreover have "debt_of auction h + (\<Sum>p \<leftarrow> xs @ ys. flight_debit h p)
      = total_of h ch - total_of h (co @ (if accepted then [(hotkey, pr_debit pr)] else [])) - total_of h lo" for h
  proof -
    have "debt_of (mk_auction m) h + (\<Sum>p \<leftarrow> mk_flight m. flight_debit h p) = total_of h ch - total_of h co - total_of h lo"
      using finished(3) unfolding market_inv_def by blast
    then show ?thesis using eff(5) [of h] by (cases "h = hotkey"; cases accepted) (simp_all add: finished(1))
  qed
  ultimately show ?case using finished(1) eff(1,3) by (simp add: market_inv_def)
next
  case (left_early m xs hotkey p s tokens pr ys why)
  let ?A = "leave_early why hotkey (Some pr) (mk_auction m)"
  have inv: "auction_ok (mk_auction m)" "round_ok (mk_auction m) (market_load m)"
    and ok: "phase_ok (mk_auction m) (Pending hotkey p s tokens pr)" using left_early by (simp_all add: market_inv_def)
  note eff = leave_early_effect [OF inv(1) ok, of why]
  have "market_load (m\<lparr>mk_auction := ?A, mk_flight := xs @ ys\<rparr>) = market_load m" using left_early(1) by (simp add: market_load_def fun_eq_iff)
  then have "round_ok ?A (market_load (m\<lparr>mk_auction := ?A, mk_flight := xs @ ys\<rparr>))" using eff(4) inv(2) by simp
  moreover have "list_all (phase_ok ?A) (mk_flight m)" using left_early(2) eff(2) phases_ok_None by (auto simp: market_inv_def)
  moreover have "debt_of ?A h + (\<Sum>p \<leftarrow> xs @ ys. flight_debit h p)
      = total_of h ch - total_of h co - total_of h (lo @ (if why = Standing then [] else [(hotkey, pr_debit pr)]))" for h
  proof -
    have "debt_of (mk_auction m) h + (\<Sum>p \<leftarrow> mk_flight m. flight_debit h p) = total_of h ch - total_of h co - total_of h lo"
      using left_early(2) unfolding market_inv_def by blast
    then show ?thesis using eff(3) [of h] by (cases "h = hotkey"; cases "why = Standing") (simp_all add: left_early(1))
  qed
  ultimately show ?case using left_early eff(1) by (simp add: market_inv_def)
next
  case (finished_unpriced m accepted slot_taken hotkey p s tokens d auction)
  have d: "d = (if accepted \<or> slot_taken then settle (mk_leases m) p s else mk_leases m)" "auction = None"
    using finished_unpriced(2) by (auto simp: finish_submission_def)
  have inv: "dl_inv (mk_leases m)" using finished_unpriced(3) by (simp add: market_inv_def)
  have k: "keeps (\<lambda>i l. slot_of l \<noteq> (p, s)) (mk_leases m) (settle (mk_leases m) p s)" using inv by (simp add: settle_keeps dl_inv_def)
  have "dl_inv d" using inv keeps_inv [OF inv k] by (simp add: d)
  then show ?case using finished_unpriced(1,3) by (simp add: market_inv_def d(2) round_ok_def)
next
  case (asked m a t1 t2 backlog hotkey v a' why)
  then have inv: "ta_inv a" "round_ok (Some a) (market_load m)" by (simp_all add: market_inv_def auction_ok_def)
  note eff = post_ask_effect [OF inv(1) _ inv(2) asked(3)]
  have "market_load (m\<lparr>mk_auction := Some a'\<rparr>) = market_load m" by (simp add: market_load_def fun_eq_iff)
  moreover have "list_all (phase_ok (Some a')) (mk_flight m)"
    using asked(1,4) phases_ok_None [of "mk_auction m"] by (auto simp: market_inv_def)
  ultimately show ?case
    using asked eff by (simp add: market_inv_def auction_ok_def debt_of_def)
qed

lemma market_run_inv: "market_run m ch co lo \<Longrightarrow> market_inv m ch co lo"
  by (induction rule: market_run.induct) (auto intro: market_init_inv market_step_inv)

section \<open>Correctness of the market\<close>


text \<open>
  C15. No round hands out more leases than it has, in every interleaving of the routes with a clock that does not
  run backwards: the live leases of the auction's current round, and the requests that still hold a reservation of
  it, are together at most the leases the auction counts as granted, and so at most the round's leases.
\<close>

theorem market_round_leases:
  assumes "market_run m ch co lo" and "mk_auction m = Some a" and "ta_round a = Some r"
  shows "int (book_load (mk_leases m) r + flight_load (mk_flight m) r) \<le> ta_granted a \<and> ta_granted a \<le> ta_leases a"
proof -
  have "market_inv m ch co lo" by (rule market_run_inv [OF assms(1)])
  then have "round_ok (Some a) (market_load m)" "ta_inv a"
    using assms(2) by (simp_all add: market_inv_def auction_ok_def)
  then show ?thesis using assms(3) by (simp add: round_ok_def market_load_def ta_inv_def)
qed


text \<open>A run: a hotkey asks, leases a slot at the round's price, and releases it at half its time.\<close>

definition example_rq :: lease_request where
  "example_rq = \<lparr>rq_hotkey = ''h'', rq_issued_at = 0, rq_nonce = ''n''\<rparr>"

definition example_market :: "nonces \<Rightarrow> draw_leases \<Rightarrow> token_auction \<Rightarrow> phase list \<Rightarrow> market" where
  "example_market nonces d a fl = \<lparr>mk_nonces = nonces, mk_leases = d, mk_auction = Some a, mk_flight = fl\<rparr>"

definition example_book :: draw_leases where
  "example_book = DrawLeases 5 1 2 False 256 100"

definition leased_book :: draw_leases where
  "leased_book = example_book\<lparr>dl_by_id := [(''a'', (example_lease ''a'' ''h'' 0 0)\<lparr>le_price := Some 1, le_round := Some 0\<rparr>)],
     dl_by_slot := [((5, 0), [''a''])]\<rparr>"

definition admitted_auction :: token_auction where
  "admitted_auction = example_auction\<lparr>ta_granted := 1\<rparr>"

lemmas example_defs = example_market_def example_rq_def example_book_def leased_book_def admitted_auction_def
  example_auction_def TokenAuction_def example_terms_def DrawLeases_def example_lease_def

lemma example_admitted:
  "market_run (example_market [(''n'', 240)] example_book admitted_auction
     [Reserved ''h'' (Some \<lparr>tm_price = 1, tm_round = Some 0\<rparr>)]) [] [] []"
proof -
  let ?a0 = "TokenAuction example_terms 1000"
  have "dl_init example_book" unfolding dl_init_def example_book_def by blast
  then have "market_init (example_market [] example_book ?a0 [])"
    using example_auction_init by (simp add: market_init_def example_market_def)
  then have r0: "market_run (example_market [] example_book ?a0 []) [] [] []" by (rule run_init)
  have "market_step (example_market [] example_book ?a0 []) [] [] [] (example_market [] example_book example_auction [])"
    using asked [of "example_market [] example_book ?a0 []" ?a0 0 0 None "''h''" "PInt 500000" example_auction None]
    by (simp add: example_market_def forward_def example_ask) (simp add: TokenAuction_def)
  from run_step [OF r0 this] have r1: "market_run (example_market [] example_book example_auction []) [] [] []" by simp
  have "market_step (example_market [] example_book example_auction []) [] [] []
      (example_market [] example_book example_auction [Checked example_rq 0])"
    using request_checked [of 0 example_rq "example_market [] example_book example_auction []" "[]"]
    by (simp add: example_market_def example_rq_def lease_check_def LEASE_REQUEST_SKEW_SECONDS_def)
  from run_step [OF r1 this] have r2: "market_run (example_market [] example_book example_auction [Checked example_rq 0]) [] [] []"
    by simp
  have "market_step (example_market [] example_book example_auction [Checked example_rq 0]) [] [] []
      (example_market [(''n'', 240)] example_book example_auction [Gated example_rq])"
    using request_gated [of "example_market [] example_book example_auction [Checked example_rq 0]" "[]" example_rq 0 "[]" None
        "[(''n'', 240)]" None]
    by (simp add: example_market_def example_rq_def lease_gated_def LEASE_REQUEST_SKEW_SECONDS_def)
  from run_step [OF r2 this] have r3: "market_run (example_market [(''n'', 240)] example_book example_auction [Gated example_rq]) [] [] []"
    by simp
  have "lease_terms 0 0 0 None None None ''h'' (Some example_auction)
      = Inr (Some admitted_auction, Inr (Some \<lparr>tm_price = 1, tm_round = Some 0\<rparr>))"
    by (simp add: lease_terms_def admit_def roll_def round_index_def live_ask_def ASK_TTL_SECONDS_def example_defs Let_def)
  then have "market_step (example_market [(''n'', 240)] example_book example_auction [Gated example_rq]) [] [] []
      (example_market [(''n'', 240)] example_book admitted_auction [Reserved ''h'' (Some \<lparr>tm_price = 1, tm_round = Some 0\<rparr>)])"
    using request_admitted [of "example_market [(''n'', 240)] example_book example_auction [Gated example_rq]" "[]" example_rq "[]"
        0 0 0 None None None "Some admitted_auction" "Inr (Some \<lparr>tm_price = 1, tm_round = Some 0\<rparr>)"]
    by (simp add: example_market_def example_rq_def forward_def)
      (simp add: round_index_def example_defs)
  from run_step [OF r3 this] show ?thesis by simp
qed

lemma example_granted: "market_run (example_market [(''n'', 240)] leased_book admitted_auction []) [] [] []"
proof -
  let ?terms = "Some \<lparr>tm_price = 1, tm_round = Some 0\<rparr>"
  have "lease_grant 0 0 0 0 ''a'' 0 ''h'' (\<lambda>start. [(5, 0)]) ?terms (example_book, Some admitted_auction)
      = Inr (leased_book, Some admitted_auction, [], Granted ((example_lease ''a'' ''h'' 0 0)\<lparr>le_price := Some 1, le_round := Some 0\<rparr>))"
    by (simp add: lease_grant_def charge_def grant_def expire_def held_by_def cap_def cap_of_def leases_held_def ids_at_def
        dget_or_def add_lease_def Let_def example_defs)
  then have "market_step (example_market [(''n'', 240)] example_book admitted_auction [Reserved ''h'' ?terms])
      (charged [] (Some admitted_auction)) [] [] (example_market [(''n'', 240)] leased_book admitted_auction [])"
    using request_granted [of "example_market [(''n'', 240)] example_book admitted_auction [Reserved ''h'' ?terms]" "[]" "''h''" ?terms "[]"
        "''a''" 0 0 0 0 0 "\<lambda>start. [(5, 0)]"]
    by (simp add: example_market_def) (simp add: lease_at_def example_book_def DrawLeases_def)
  from run_step [OF example_admitted this] show ?thesis by (simp add: charged_def)
qed

theorem market_round_leases_witness:
  "int (book_load leased_book 0 + flight_load [] 0) \<le> ta_granted admitted_auction \<and> book_load leased_book 0 = 1"
proof -
  have "mk_auction (example_market [(''n'', 240)] leased_book admitted_auction []) = Some admitted_auction"
    and "ta_round admitted_auction = Some 0" by (simp_all add: example_defs)
  from market_round_leases [OF example_granted this]
  have "int (book_load leased_book 0 + flight_load [] 0) \<le> ta_granted admitted_auction" by (simp add: example_market_def)
  moreover have "book_load leased_book 0 = 1" by (simp add: book_load_def example_defs)
  ultimately show ?thesis ..
qed


section \<open>Single use of a request\<close>

text \<open>
  Once a request's nonce is recorded, the same request is refused for as long as its age is accepted: the nonce is
  kept for twice the accepted age (a request checked at the very first instant it is accepted could come back at the
  very last one, so the first check is taken strictly inside the span).
\<close>

lemma recorded_nonce_refused:
  assumes gated: "lease_gated now None rq nonces = (nonces', None)"
    and fresh: "\<bar>now - of_int (rq_issued_at rq)\<bar> < LEASE_REQUEST_SKEW_SECONDS"
  shows "snd (lease_check later rq nonces') \<noteq> None"
proof (cases "LEASE_REQUEST_SKEW_SECONDS < \<bar>later - of_int (rq_issued_at rq)\<bar>")
  case True
  then show ?thesis by (simp add: lease_check_def)
next
  case False
  have n: "nonces' = dset (rq_nonce rq) (now + 2 * LEASE_REQUEST_SKEW_SECONDS) nonces"
    using gated by (simp add: lease_gated_def)
  show ?thesis
  proof (cases "now + 2 * LEASE_REQUEST_SKEW_SECONDS \<le> later")
    case True
    then show ?thesis using False fresh by (simp add: LEASE_REQUEST_SKEW_SECONDS_def abs_if split: if_splits)
  next
    case live: False
    have "(rq_nonce rq, now + 2 * LEASE_REQUEST_SKEW_SECONDS) \<in> set nonces'"
      unfolding n by (induction nonces) auto
    then have "has_key (filter (\<lambda>(n, until). \<not> until \<le> later) nonces') (rq_nonce rq)"
      using live by (force simp: has_key_def)
    with False show ?thesis by (simp add: lease_check_def Let_def)
  qed
qed

text \<open>
  Between the check of a nonce and its recording the route waits for the gate. Two copies of one signed request that
  arrive within that wait are both admitted: the run below reaches a state in which one request holds two
  reservations.
\<close>

theorem lease_request_used_twice:
  "\<exists>m. market_run m [] [] [] \<and> mk_flight m = [Gated example_rq, Gated example_rq]"
proof -
  let ?m = "\<lambda>n fl. example_market n example_book (TokenAuction example_terms 1000) fl"
  have "dl_init example_book" unfolding dl_init_def example_book_def by blast
  then have "market_init (?m [] [])" using example_auction_init by (simp add: market_init_def example_market_def)
  then have r0: "market_run (?m [] []) [] [] []" by (rule run_init)
  have "market_step (?m [] []) [] [] [] (?m [] [Checked example_rq 0])"
    using request_checked [of 0 example_rq "?m [] []" "[]"]
    by (simp add: example_market_def example_rq_def lease_check_def LEASE_REQUEST_SKEW_SECONDS_def)
  from run_step [OF r0 this] have r1: "market_run (?m [] [Checked example_rq 0]) [] [] []" by simp
  have "market_step (?m [] [Checked example_rq 0]) [] [] [] (?m [] [Checked example_rq 0, Checked example_rq 0])"
    using request_checked [of 0 example_rq "?m [] [Checked example_rq 0]" "[]"]
    by (simp add: example_market_def example_rq_def lease_check_def LEASE_REQUEST_SKEW_SECONDS_def)
  from run_step [OF r1 this] have r2: "market_run (?m [] [Checked example_rq 0, Checked example_rq 0]) [] [] []" by simp
  have "market_step (?m [] [Checked example_rq 0, Checked example_rq 0]) [] [] []
      (?m [(''n'', 240)] [Gated example_rq, Checked example_rq 0])"
    using request_gated [of "?m [] [Checked example_rq 0, Checked example_rq 0]" "[]" example_rq 0 "[Checked example_rq 0]" None
        "[(''n'', 240)]" None]
    by (simp add: example_market_def example_rq_def lease_gated_def LEASE_REQUEST_SKEW_SECONDS_def)
  from run_step [OF r2 this] have r3: "market_run (?m [(''n'', 240)] [Gated example_rq, Checked example_rq 0]) [] [] []" by simp
  have "market_step (?m [(''n'', 240)] [Gated example_rq, Checked example_rq 0]) [] [] []
      (?m [(''n'', 240)] [Gated example_rq, Gated example_rq])"
    using request_gated [of "?m [(''n'', 240)] [Gated example_rq, Checked example_rq 0]" "[Gated example_rq]" example_rq 0 "[]" None
        "[(''n'', 240)]" None]
    by (simp add: example_market_def example_rq_def lease_gated_def LEASE_REQUEST_SKEW_SECONDS_def)
  from run_step [OF r3 this] show ?thesis by (auto simp: example_market_def)
qed

end
