(* ===== verification/Lease_Quota.thy ===== *)
theory Lease_Quota
  imports Python_Values
begin

text \<open>
  The quota of open leases a hotkey earns, \<^verbatim>\<open>reliquary/validator/rl_lease_quota.py\<close>: additive-increase
  multiplicative-decrease on measured deliveries. The controller is the dictionary of its entries; saving an entry
  to the database keeps a copy of it and has no part in the model.
\<close>

section \<open>Configuration and entries\<close>

definition BUCKET_S :: rat where "BUCKET_S = 10"
definition MIN_SAMPLES :: int where "MIN_SAMPLES = 8"

record quota_config =
  qc_initial :: int
  qc_floor :: int
  qc_ceiling :: int
  qc_headroom :: rat
  qc_window_s :: rat

definition QuotaConfig :: "int \<Rightarrow> int \<Rightarrow> int \<Rightarrow> rat \<Rightarrow> rat \<Rightarrow> quota_config res" where
  "QuotaConfig initial low high headroom window_s =
     (if \<not> (1 \<le> low \<and> low \<le> initial \<and> initial \<le> high)
      then Inl (ValueError ''quota bounds must satisfy 1 <= floor <= initial <= ceiling'')
      else if \<not> 1 \<le> headroom then Inl (ValueError ''quota headroom must be >= 1'')
      else if \<not> BUCKET_S \<le> window_s then Inl (ValueError ''quota window must be at least 10.0 s'')
      else Inr \<lparr>qc_initial = initial, qc_floor = low, qc_ceiling = high, qc_headroom = headroom,
                qc_window_s = window_s\<rparr>)"

datatype quota_phase = SlowStart | Steady

record quota_entry =
  qe_cap :: int
  qe_phase :: quota_phase
  qe_reason :: string
  qe_in_use :: int
  qe_since :: "rat option"
  qe_round_quota :: int
  qe_delivered :: int
  qe_saturated :: bool
  qe_counters :: "(string, int) dict"
  qe_buckets :: "(int, rat \<times> rat) dict"

definition counters :: "(string, int) dict" where
  "counters = map (\<lambda>name. (name, 0))
     [''leased'', ''submitted'', ''in_zone'', ''out_of_zone'', ''paid'', ''expired'', ''rejected'', ''released'']"

definition Hotkey :: "int \<Rightarrow> quota_entry" where
  "Hotkey start_cap =
     \<lparr>qe_cap = start_cap, qe_phase = SlowStart, qe_reason = ''new hotkey: initial quota'', qe_in_use = 0, qe_since = None,
      qe_round_quota = 0, qe_delivered = 0, qe_saturated = False, qe_counters = counters, qe_buckets = []\<rparr>"

type_synonym quota_book = "(string, quota_entry) dict"

definition quota_entry_of :: "quota_config \<Rightarrow> quota_book \<Rightarrow> string \<Rightarrow> quota_entry" where
  "quota_entry_of cfg q hotkey =
     (case dget q hotkey of
        Some entry \<Rightarrow> entry
      | None \<Rightarrow> (Hotkey (qc_initial cfg))\<lparr>qe_round_quota := qc_initial cfg\<rparr>)"

section \<open>Reading\<close>

definition clamp :: "quota_config \<Rightarrow> int \<Rightarrow> int" where
  "clamp cfg n = max (qc_floor cfg) (min (qc_ceiling cfg) n)"

definition measure_rate :: "quota_config \<Rightarrow> quota_entry \<Rightarrow> rat option \<Rightarrow> int \<times> (rat \<times> rat) option" where
  "measure_rate cfg entry now =
     (if qe_buckets entry = [] then (0, None)
      else let final = Max (set (dkeys (qe_buckets entry)));
               t0 = (case now of None \<Rightarrow> of_int (final + 1) * BUCKET_S | Some t \<Rightarrow> t);
               first = \<lfloor>(t0 - qc_window_s cfg) / BUCKET_S\<rfloor>;
               live = map snd (filter (\<lambda>(b, v). first < b) (qe_buckets entry));
               n = sum_list (map fst live)
           in if n = 0 then (0, None)
              else let span = max (case qe_since entry of None \<Rightarrow> qc_window_s cfg
                                     | Some s \<Rightarrow> min (qc_window_s cfg) (t0 - s)) BUCKET_S
                   in (py_trunc n, Some (n / span, sum_list (map snd live) / n)))"

definition target_of :: "quota_config \<Rightarrow> quota_entry \<Rightarrow> rat option \<Rightarrow> rat option" where
  "target_of cfg entry now =
     (case measure_rate cfg entry now of
        (n, None) \<Rightarrow> None
      | (n, Some (rate, latency)) \<Rightarrow> if n < MIN_SAMPLES then None else Some (qc_headroom cfg * rate * latency))"

definition quota_of :: "quota_config \<Rightarrow> quota_entry \<Rightarrow> rat option \<Rightarrow> int" where
  "quota_of cfg entry now =
     (if qe_phase entry = SlowStart then clamp cfg (qe_cap entry)
      else case target_of cfg entry now of
             None \<Rightarrow> clamp cfg (qe_cap entry)
           | Some target \<Rightarrow> clamp cfg (min (qe_cap entry) \<lceil>target\<rceil>))"

definition quota :: "quota_config \<Rightarrow> quota_book \<Rightarrow> string \<Rightarrow> rat option \<Rightarrow> int" where
  "quota cfg q hotkey now = quota_of cfg (dget_or q hotkey (Hotkey (qc_initial cfg))) now"

definition quota_in_use :: "quota_book \<Rightarrow> string \<Rightarrow> int" where
  "quota_in_use q hotkey = (case dget q hotkey of None \<Rightarrow> 0 | Some entry \<Rightarrow> qe_in_use entry)"

section \<open>Events\<close>

definition reconcile_one :: "quota_config \<Rightarrow> (string, int) dict \<Rightarrow> string \<Rightarrow> quota_book \<Rightarrow> quota_book" where
  "reconcile_one cfg open_counts hotkey q =
     (let entry = quota_entry_of cfg q hotkey
      in dset hotkey (entry\<lparr>qe_in_use := dget_or open_counts hotkey 0\<rparr>) q)"

text \<open>The set of hotkeys is visited in some order; each visit touches its own entry only.\<close>

definition reconcile :: "quota_config \<Rightarrow> (string, int) dict \<Rightarrow> quota_book \<Rightarrow> quota_book" where
  "reconcile cfg open_counts q =
     fold (reconcile_one cfg open_counts)
       (remdups (dkeys open_counts @ map fst (filter (\<lambda>(h, e). qe_in_use e \<noteq> 0) q))) q"

definition count_event :: "string \<Rightarrow> quota_entry \<Rightarrow> quota_entry" where
  "count_event name entry =
     entry\<lparr>qe_counters := dset name (dget_or (qe_counters entry) name 0 + 1) (qe_counters entry)\<rparr>"

definition new_round :: "quota_config \<Rightarrow> rat \<Rightarrow> quota_entry \<Rightarrow> quota_entry" where
  "new_round cfg now entry =
     (let n = quota_of cfg entry (Some now)
      in entry\<lparr>qe_round_quota := n, qe_delivered := 0, qe_saturated := n \<le> qe_in_use entry\<rparr>)"

definition free_slot :: "quota_entry \<Rightarrow> quota_entry" where
  "free_slot entry = entry\<lparr>qe_in_use := max 0 (qe_in_use entry - 1)\<rparr>"

definition record_lease :: "quota_config \<Rightarrow> string \<Rightarrow> rat \<Rightarrow> quota_book \<Rightarrow> quota_book" where
  "record_lease cfg hotkey now q =
     (let e0 = quota_entry_of cfg q hotkey;
          e1 = (if qe_since e0 = None then e0\<lparr>qe_since := Some now\<rparr> else e0);
          e2 = count_event ''leased'' (e1\<lparr>qe_in_use := qe_in_use e1 + 1\<rparr>)
      in dset hotkey (if quota_of cfg e2 (Some now) \<le> qe_in_use e2 then e2\<lparr>qe_saturated := True\<rparr> else e2) q)"

definition record_submission :: "quota_config \<Rightarrow> string \<Rightarrow> bool \<Rightarrow> quota_book \<Rightarrow> quota_book" where
  "record_submission cfg hotkey in_zone q =
     dset hotkey (count_event (if in_zone then ''in_zone'' else ''out_of_zone'')
       (count_event ''submitted'' (free_slot (quota_entry_of cfg q hotkey)))) q"

definition add_sample :: "quota_config \<Rightarrow> rat \<Rightarrow> rat \<Rightarrow> rat \<Rightarrow> quota_entry \<Rightarrow> quota_entry" where
  "add_sample cfg issued_at submitted_at now entry =
     (let b = \<lfloor>now / BUCKET_S\<rfloor>; v = dget_or (qe_buckets entry) b (0, 0);
          buckets = dset b (fst v + 1, snd v + max 0 (submitted_at - issued_at)) (qe_buckets entry);
          oldest = \<lfloor>(now - qc_window_s cfg) / BUCKET_S\<rfloor>
      in entry\<lparr>qe_buckets := filter (\<lambda>(b, v). \<not> b \<le> oldest) buckets\<rparr>)"

definition end_round :: "quota_config \<Rightarrow> rat \<Rightarrow> quota_entry \<Rightarrow> quota_entry" where
  "end_round cfg now entry =
     new_round cfg now
       (if qe_saturated entry
        then entry\<lparr>qe_cap := clamp cfg (max (qe_cap entry) (2 * qe_round_quota entry)),
                   qe_reason := (if qe_phase entry = SlowStart then ''slow start'' else ''growth'') @ '': full quota ''
                     @ int_str (qe_round_quota entry) @ '' used and delivered on time, cap doubled''\<rparr>
        else if qe_phase entry = SlowStart
        then entry\<lparr>qe_phase := Steady,
                   qe_reason := ''steady: delivered '' @ int_str (qe_round_quota entry)
                     @ '' without using the full quota''\<rparr>
        else entry)"

definition record_paid :: "quota_config \<Rightarrow> string \<Rightarrow> rat \<Rightarrow> rat \<Rightarrow> rat \<Rightarrow> quota_book \<Rightarrow> quota_book" where
  "record_paid cfg hotkey issued_at submitted_at now q =
     (let e1 = add_sample cfg issued_at submitted_at now (count_event ''paid'' (quota_entry_of cfg q hotkey));
          e2 = e1\<lparr>qe_delivered := qe_delivered e1 + 1\<rparr>
      in dset hotkey (if max 1 (qe_round_quota e2) \<le> qe_delivered e2 then end_round cfg now e2 else e2) q)"

definition record_release :: "quota_config \<Rightarrow> string \<Rightarrow> quota_book \<Rightarrow> quota_book" where
  "record_release cfg hotkey q =
     dset hotkey (count_event ''released'' (free_slot (quota_entry_of cfg q hotkey))) q"

definition record_expiry :: "quota_config \<Rightarrow> string \<Rightarrow> rat \<Rightarrow> string \<Rightarrow> quota_book \<Rightarrow> quota_book res" where
  "record_expiry cfg hotkey now cause q =
     (if cause \<noteq> ''expired'' \<and> cause \<noteq> ''rejected'' then Inl (ValueError ''cause must be expired or rejected'')
      else let e0 = quota_entry_of cfg q hotkey; before = quota_of cfg e0 (Some now);
               e1 = count_event cause (free_slot e0);
               e2 = (if cause = ''rejected''
                     then e1\<lparr>qe_cap := clamp cfg (before div 2),
                             qe_reason := cause @ '' lease: quota halved from '' @ int_str before\<rparr>
                     else e1\<lparr>qe_cap := clamp cfg (min (before - 1) \<lfloor>of_int before * (9 / 10 :: rat)\<rfloor>),
                             qe_reason := cause @ '' lease: quota cut from '' @ int_str before\<rparr>)
           in Inr (dset hotkey (new_round cfg now (e2\<lparr>qe_phase := Steady\<rparr>)) q))"


section \<open>The invariant\<close>

definition config_ok :: "quota_config \<Rightarrow> bool" where
  "config_ok cfg \<longleftrightarrow> 1 \<le> qc_floor cfg \<and> qc_floor cfg \<le> qc_initial cfg \<and> qc_initial cfg \<le> qc_ceiling cfg
     \<and> 1 \<le> qc_headroom cfg \<and> BUCKET_S \<le> qc_window_s cfg"

lemma QuotaConfig_ok: "QuotaConfig initial low high headroom window_s = Inr cfg \<Longrightarrow> config_ok cfg"
  by (auto simp: QuotaConfig_def config_ok_def split: if_splits)

definition in_bounds :: "quota_config \<Rightarrow> int \<Rightarrow> bool" where
  "in_bounds cfg n \<longleftrightarrow> qc_floor cfg \<le> n \<and> n \<le> qc_ceiling cfg"

definition entry_ok :: "quota_config \<Rightarrow> quota_entry \<Rightarrow> bool" where
  "entry_ok cfg e \<longleftrightarrow> in_bounds cfg (qe_cap e) \<and> in_bounds cfg (qe_round_quota e) \<and> 0 \<le> qe_in_use e
     \<and> 0 \<le> qe_delivered e \<and> qe_delivered e < qe_round_quota e"

definition quotas_ok :: "quota_config \<Rightarrow> quota_book \<Rightarrow> bool" where
  "quotas_ok cfg q \<longleftrightarrow> dict_ok q \<and> (\<forall>h e. dget q h = Some e \<longrightarrow> entry_ok cfg e)"

lemma clamp_within: "config_ok cfg \<Longrightarrow> in_bounds cfg (clamp cfg n)"
  by (auto simp: config_ok_def in_bounds_def clamp_def)

lemma clamp_mono: "m \<le> n \<Longrightarrow> clamp cfg m \<le> clamp cfg n"
  by (auto simp: clamp_def)

lemma quota_of_within: "config_ok cfg \<Longrightarrow> in_bounds cfg (quota_of cfg e now)"
  by (auto simp: quota_of_def clamp_within split: option.split)

lemma quota_of_le_cap: "quota_of cfg e now \<le> clamp cfg (qe_cap e)"
  by (auto simp: quota_of_def clamp_mono split: option.split)

lemma new_round_ok: "config_ok cfg \<Longrightarrow> in_bounds cfg (qe_cap e) \<Longrightarrow> 0 \<le> qe_in_use e \<Longrightarrow> entry_ok cfg (new_round cfg now e)"
  using quota_of_within [of cfg e "Some now"] by (auto simp: new_round_def entry_ok_def in_bounds_def config_ok_def Let_def)

lemma quota_entry_ok: "config_ok cfg \<Longrightarrow> quotas_ok cfg q \<Longrightarrow> entry_ok cfg (quota_entry_of cfg q hotkey)"
  by (auto simp: quota_entry_of_def quotas_ok_def Hotkey_def entry_ok_def in_bounds_def config_ok_def split: option.split)

lemma quotas_ok_set: "quotas_ok cfg q \<Longrightarrow> entry_ok cfg e \<Longrightarrow> quotas_ok cfg (dset hotkey e q)"
  by (auto simp: quotas_ok_def update_conv' split: if_splits)

lemma event_simps [simp]:
  "qe_cap (count_event n e) = qe_cap e" "qe_in_use (count_event n e) = qe_in_use e"
  "qe_round_quota (count_event n e) = qe_round_quota e" "qe_delivered (count_event n e) = qe_delivered e"
  "qe_saturated (count_event n e) = qe_saturated e" "qe_phase (count_event n e) = qe_phase e"
  "entry_ok cfg (count_event n e) = entry_ok cfg e"
  by (simp_all add: count_event_def entry_ok_def)

lemma free_slot_ok: "entry_ok cfg e \<Longrightarrow> entry_ok cfg (free_slot e)"
  by (simp add: free_slot_def entry_ok_def)

lemma sample_simps [simp]:
  "qe_cap (add_sample cfg i s t e) = qe_cap e" "qe_in_use (add_sample cfg i s t e) = qe_in_use e"
  "qe_round_quota (add_sample cfg i s t e) = qe_round_quota e" "qe_delivered (add_sample cfg i s t e) = qe_delivered e"
  "qe_saturated (add_sample cfg i s t e) = qe_saturated e" "qe_phase (add_sample cfg i s t e) = qe_phase e"
  by (simp_all add: add_sample_def Let_def)

lemma end_round_ok:
  "config_ok cfg \<Longrightarrow> in_bounds cfg (qe_cap e) \<Longrightarrow> 0 \<le> qe_in_use e \<Longrightarrow> entry_ok cfg (end_round cfg now e)"
  unfolding end_round_def by (intro new_round_ok) (auto simp: clamp_within)

inductive quota_step :: "quota_config \<Rightarrow> quota_book \<Rightarrow> quota_book \<Rightarrow> bool" for cfg where
  step_lease: "quota_step cfg q (record_lease cfg hotkey now q)"
| step_submission: "quota_step cfg q (record_submission cfg hotkey in_zone q)"
| step_paid: "quota_step cfg q (record_paid cfg hotkey issued submitted now q)"
| step_release: "quota_step cfg q (record_release cfg hotkey q)"
| step_expiry: "record_expiry cfg hotkey now cause q = Inr q' \<Longrightarrow> quota_step cfg q q'"
| step_reconcile: "list_all (\<lambda>(h, n). 0 \<le> n) counts \<Longrightarrow> quota_step cfg q (reconcile cfg counts q)"

lemma reconcile_ok:
  assumes "config_ok cfg" "quotas_ok cfg q" "list_all (\<lambda>(h, n). 0 \<le> n) counts"
  shows "quotas_ok cfg (reconcile cfg counts q)"
proof -
  have count: "0 \<le> dget_or counts h 0" for h
    using assms(3) by (auto simp: dget_or_def list_all_iff dest!: map_of_SomeD split: option.splits)
  have "quotas_ok cfg (fold (reconcile_one cfg counts) hs q)" for hs
    using assms(2)
  proof (induction hs arbitrary: q)
    case (Cons h hs)
    have "quotas_ok cfg (reconcile_one cfg counts h q)"
      unfolding reconcile_one_def Let_def using quota_entry_ok [OF assms(1) Cons.prems, of h] count [of h]
      by (intro quotas_ok_set [OF Cons.prems]) (simp add: entry_ok_def)
    from Cons.IH [OF this] show ?case by simp
  qed simp
  then show ?thesis by (simp add: reconcile_def)
qed

lemma quota_step_ok:
  assumes cfg: "config_ok cfg"
  shows "quota_step cfg q q' \<Longrightarrow> quotas_ok cfg q \<Longrightarrow> quotas_ok cfg q'"
proof (induction rule: quota_step.induct)
  case (step_lease q hotkey now)
  have "entry_ok cfg (quota_entry_of cfg q hotkey)" by (rule quota_entry_ok [OF cfg step_lease])
  then show ?case
    unfolding record_lease_def Let_def
    by (intro quotas_ok_set [OF step_lease]) (simp add: entry_ok_def)
next
  case (step_paid q hotkey issued submitted now)
  have e: "entry_ok cfg (quota_entry_of cfg q hotkey)" by (rule quota_entry_ok [OF cfg step_paid])
  then show ?case
    unfolding record_paid_def Let_def
    by (intro quotas_ok_set [OF step_paid]) (auto simp: entry_ok_def intro!: end_round_ok [OF cfg, unfolded entry_ok_def])
next
  case (step_expiry hotkey now cause q q')
  have e: "entry_ok cfg (quota_entry_of cfg q hotkey)" by (rule quota_entry_ok [OF cfg step_expiry(2)])
  show ?case
    using step_expiry(1) e
    by (auto simp: record_expiry_def Let_def free_slot_def split: if_splits
        intro!: quotas_ok_set [OF step_expiry(2)] new_round_ok [OF cfg] clamp_within [OF cfg])
next
  case (step_reconcile counts q)
  then show ?case using reconcile_ok [OF cfg] by blast
qed (auto simp: record_submission_def record_release_def intro!: quotas_ok_set free_slot_ok quota_entry_ok [OF cfg])

text \<open>A controller is its configuration and its entries.\<close>

definition qc_init :: "quota_config \<times> quota_book \<Rightarrow> bool" where
  "qc_init c \<longleftrightarrow> snd c = [] \<and> (\<exists>i l h r w. QuotaConfig i l h r w = Inr (fst c))"

definition qc_step :: "quota_config \<times> quota_book \<Rightarrow> quota_config \<times> quota_book \<Rightarrow> bool" where
  "qc_step c c' \<longleftrightarrow> fst c' = fst c \<and> quota_step (fst c) (snd c) (snd c')"

definition qc_inv :: "quota_config \<times> quota_book \<Rightarrow> bool" where
  "qc_inv c \<longleftrightarrow> config_ok (fst c) \<and> quotas_ok (fst c) (snd c)"

interpretation quotas: step_invariant qc_init qc_step qc_inv
proof
  show "qc_inv c" if "qc_init c" for c
    using that QuotaConfig_ok by (auto simp: qc_init_def qc_inv_def quotas_ok_def)
  show "qc_inv c'" if "qc_inv c" "qc_step c c'" for c c'
    using that quota_step_ok unfolding qc_inv_def qc_step_def by metis
qed

section \<open>Properties\<close>

text \<open>
  C26. In every state the controller reaches, a hotkey's quota lies between the floor and the ceiling, whether it is
  known or not and at every time, as do its cap and the quota its round started at; its slots in use are never
  negative, and a round never outlives its deliveries.
\<close>

theorem quota_within_bounds:
  assumes "reach qc_init qc_step (cfg, q)"
  shows "qc_floor cfg \<le> quota cfg q hotkey now \<and> quota cfg q hotkey now \<le> qc_ceiling cfg \<and> 1 \<le> quota cfg q hotkey now
    \<and> 0 \<le> quota_in_use q hotkey
    \<and> (\<forall>e. dget q hotkey = Some e \<longrightarrow> qc_floor cfg \<le> qe_cap e \<and> qe_cap e \<le> qc_ceiling cfg
         \<and> 0 \<le> qe_delivered e \<and> qe_delivered e < qe_round_quota e \<and> qe_round_quota e \<le> qc_ceiling cfg)"
proof -
  have inv: "config_ok cfg" "quotas_ok cfg q" using quotas.inv_reach [OF assms] by (simp_all add: qc_inv_def)
  then show ?thesis
    using quota_of_within [OF inv(1), of "dget_or q hotkey (Hotkey (qc_initial cfg))" now]
    by (auto simp: quota_def in_bounds_def config_ok_def quotas_ok_def entry_ok_def quota_in_use_def split: option.split)
qed

lemma default_config: "QuotaConfig 4 1 2048 (3 / 2) 900
    = Inr \<lparr>qc_initial = 4, qc_floor = 1, qc_ceiling = 2048, qc_headroom = 3 / 2, qc_window_s = 900\<rparr>"
  by (simp add: QuotaConfig_def BUCKET_S_def)

definition example_cfg :: quota_config where
  "example_cfg = \<lparr>qc_initial = 4, qc_floor = 1, qc_ceiling = 2048, qc_headroom = 3 / 2, qc_window_s = 900\<rparr>"

lemma example_quota_reach: "reach qc_init qc_step (example_cfg, record_lease example_cfg ''h'' 0 [])"
proof -
  have "qc_init (example_cfg, [])" unfolding qc_init_def example_cfg_def fst_conv snd_conv using default_config by blast
  then have "reach qc_init qc_step (example_cfg, [])" by (rule reach_init)
  moreover have "qc_step (example_cfg, []) (example_cfg, record_lease example_cfg ''h'' 0 [])"
    by (simp add: qc_step_def step_lease)
  ultimately show ?thesis by (rule reach_step)
qed

theorem quota_within_bounds_witness:
  "1 \<le> quota example_cfg (record_lease example_cfg ''h'' 0 []) ''h'' (Some 5)
   \<and> quota example_cfg (record_lease example_cfg ''h'' 0 []) ''h'' (Some 5) \<le> 2048"
  using quota_within_bounds [OF example_quota_reach, of "''h''" "Some 5"] by (simp add: example_cfg_def)

text \<open>What the events that only move slots leave alone, and what a round's end does.\<close>

definition same_standing :: "quota_entry \<Rightarrow> quota_entry \<Rightarrow> bool" where
  "same_standing e e' \<longleftrightarrow> qe_cap e' = qe_cap e \<and> qe_phase e' = qe_phase e \<and> qe_round_quota e' = qe_round_quota e
     \<and> qe_delivered e' = qe_delivered e"

definition fresh_round :: "quota_config \<Rightarrow> rat \<Rightarrow> quota_entry \<Rightarrow> bool" where
  "fresh_round cfg now e \<longleftrightarrow> qe_round_quota e = quota_of cfg e (Some now) \<and> qe_delivered e = 0
     \<and> (qe_saturated e \<longleftrightarrow> quota_of cfg e (Some now) \<le> qe_in_use e)"

lemma quota_of_same:
  "qe_cap e' = qe_cap e \<Longrightarrow> qe_phase e' = qe_phase e \<Longrightarrow> qe_buckets e' = qe_buckets e \<Longrightarrow> qe_since e' = qe_since e
     \<Longrightarrow> quota_of cfg e' now = quota_of cfg e now"
  unfolding quota_of_def target_of_def measure_rate_def by (simp only:)

lemma quota_of_saturated [simp]: "quota_of cfg (e\<lparr>qe_saturated := b\<rparr>) now = quota_of cfg e now"
  by (rule quota_of_same) simp_all

lemma new_round_fresh: "fresh_round cfg now (new_round cfg now e)"
proof -
  have "quota_of cfg (new_round cfg now e) (Some now) = quota_of cfg e (Some now)"
    by (rule quota_of_same) (simp_all add: new_round_def Let_def)
  then show ?thesis by (simp add: fresh_round_def) (simp add: new_round_def Let_def)
qed

lemma entry_dset [simp]: "quota_entry_of cfg (dset hotkey e q) hotkey = e"
  by (simp add: quota_entry_of_def update_conv')

lemma quota_entry: "quota cfg q hotkey now = quota_of cfg (quota_entry_of cfg q hotkey) now"
  by (auto simp: quota_def dget_or_def quota_entry_of_def Hotkey_def intro: quota_of_same split: option.split)

text \<open>A delivery, by whether it ends the round.\<close>

lemma paid_entry:
  assumes "entry_ok cfg (quota_entry_of cfg q hotkey)"
  shows "let e = quota_entry_of cfg q hotkey; e' = quota_entry_of cfg (record_paid cfg hotkey issued submitted now q) hotkey
    in qe_in_use e' = qe_in_use e
      \<and> (if qe_delivered e + 1 < qe_round_quota e
         then qe_cap e' = qe_cap e \<and> qe_phase e' = qe_phase e \<and> qe_round_quota e' = qe_round_quota e
           \<and> qe_delivered e' = qe_delivered e + 1 \<and> qe_saturated e' = qe_saturated e
         else qe_cap e' = (if qe_saturated e then clamp cfg (max (qe_cap e) (2 * qe_round_quota e)) else qe_cap e)
           \<and> qe_phase e' = (if qe_saturated e then qe_phase e else Steady) \<and> fresh_round cfg now e')"
proof -
  let ?e = "quota_entry_of cfg q hotkey"
  define x where "x = add_sample cfg issued submitted now (count_event ''paid'' ?e)\<lparr>qe_delivered := qe_delivered ?e + 1\<rparr>"
  have x: "qe_cap x = qe_cap ?e" "qe_phase x = qe_phase ?e" "qe_round_quota x = qe_round_quota ?e" "qe_saturated x = qe_saturated ?e"
    "qe_in_use x = qe_in_use ?e" "qe_delivered x = qe_delivered ?e + 1" by (simp_all add: x_def)
  have e': "quota_entry_of cfg (record_paid cfg hotkey issued submitted now q) hotkey
      = (if max 1 (qe_round_quota x) \<le> qe_delivered x then end_round cfg now x else x)"
    by (simp add: record_paid_def Let_def x_def)
  have ends: "max 1 (qe_round_quota x) \<le> qe_delivered x \<longleftrightarrow> \<not> qe_delivered ?e + 1 < qe_round_quota ?e"
    using assms by (auto simp: x entry_ok_def)
  have "fresh_round cfg now (end_round cfg now x)" unfolding end_round_def by (rule new_round_fresh)
  moreover have "qe_in_use (end_round cfg now x) = qe_in_use ?e"
    "qe_cap (end_round cfg now x) = (if qe_saturated ?e then clamp cfg (max (qe_cap ?e) (2 * qe_round_quota ?e)) else qe_cap ?e)"
    "qe_phase (end_round cfg now x) = (if qe_saturated ?e then qe_phase ?e else Steady)"
    using x by (cases "qe_phase ?e"; simp add: end_round_def new_round_def Let_def)+
  ultimately show ?thesis unfolding Let_def e' ends using x by simp
qed

text \<open>A cut, with its cap.\<close>

lemma expiry_entry:
  assumes "record_expiry cfg hotkey now cause q = Inr q'"
  shows "let e' = quota_entry_of cfg q' hotkey; before = quota cfg q hotkey (Some now)
    in qe_cap e' = clamp cfg (if cause = ''rejected'' then before div 2 else min (before - 1) \<lfloor>of_int before * (9 / 10 :: rat)\<rfloor>)
      \<and> qe_phase e' = Steady \<and> qe_in_use e' = max 0 (qe_in_use (quota_entry_of cfg q hotkey) - 1) \<and> fresh_round cfg now e'"
proof -
  let ?e = "quota_entry_of cfg q hotkey" and ?before = "quota cfg q hotkey (Some now)"
  let ?cap = "clamp cfg (if cause = ''rejected'' then ?before div 2 else min (?before - 1) \<lfloor>of_int ?before * (9 / 10 :: rat)\<rfloor>)"
  have "\<exists>r. q' = dset hotkey (new_round cfg now (count_event cause (free_slot ?e)\<lparr>qe_cap := ?cap, qe_reason := r, qe_phase := Steady\<rparr>)) q"
    using assms unfolding quota_entry record_expiry_def Let_def by (auto split: if_splits)
  then obtain r where "quota_entry_of cfg q' hotkey = new_round cfg now (count_event cause (free_slot ?e)\<lparr>qe_cap := ?cap, qe_reason := r, qe_phase := Steady\<rparr>)"
    by auto
  then show ?thesis unfolding Let_def using new_round_fresh
    by (auto simp: free_slot_def intro: new_round_fresh) (simp_all add: new_round_def free_slot_def Let_def)
qed

lemma events_frame:
  "h \<noteq> hotkey \<Longrightarrow> dget (record_lease cfg hotkey now q) h = dget q h"
  "h \<noteq> hotkey \<Longrightarrow> dget (record_submission cfg hotkey in_zone q) h = dget q h"
  "h \<noteq> hotkey \<Longrightarrow> dget (record_release cfg hotkey q) h = dget q h"
  "h \<noteq> hotkey \<Longrightarrow> dget (record_paid cfg hotkey issued submitted now q) h = dget q h"
  "h \<noteq> hotkey \<Longrightarrow> record_expiry cfg hotkey now cause q = Inr q' \<Longrightarrow> dget q' h = dget q h"
  by (auto simp: record_lease_def record_submission_def record_release_def record_paid_def record_expiry_def update_conv' Let_def
      split: if_splits)

lemma expiry_rule:
  "case record_expiry cfg hotkey now cause q of
     Inl x \<Rightarrow> cause \<notin> {''expired'', ''rejected''}
   | Inr q' \<Rightarrow>
       let e' = quota_entry_of cfg q' hotkey; before = quota cfg q hotkey (Some now);
           cut = (if cause = ''rejected'' then before div 2 else min (before - 1) \<lfloor>of_int before * (9 / 10 :: rat)\<rfloor>)
       in cause \<in> {''expired'', ''rejected''} \<and> qe_cap e' = clamp cfg cut \<and> qe_phase e' = Steady
         \<and> qe_in_use e' = max 0 (qe_in_use (quota_entry_of cfg q hotkey) - 1) \<and> fresh_round cfg now e'
         \<and> quota cfg q' hotkey later \<le> max (qc_floor cfg) cut
         \<and> (\<forall>h. h \<noteq> hotkey \<longrightarrow> dget q' h = dget q h)"
proof (cases "record_expiry cfg hotkey now cause q")
  case (Inl x)
  then show ?thesis by (auto simp: record_expiry_def Let_def split: if_splits)
next
  case (Inr q')
  note cut = expiry_entry [OF Inr, unfolded Let_def]
  have "cause \<in> {''expired'', ''rejected''}" using Inr by (auto simp: record_expiry_def split: if_splits)
  moreover have "quota cfg q' hotkey later \<le> clamp cfg (qe_cap (quota_entry_of cfg q' hotkey))"
    unfolding quota_entry by (rule quota_of_le_cap)
  moreover have "clamp cfg (clamp cfg n) \<le> max (qc_floor cfg) n" for n by (auto simp: clamp_def)
  ultimately show ?thesis
    unfolding Inr sum.case Let_def using cut events_frame(5) [OF _ Inr] by (intro conjI) (auto intro: order_trans)
qed

text \<open>
  C27. The quota follows its rule, exactly. A lease, a submission and a release move the slots in use by one and leave cap,
  phase and round as they were; a lease that fills the quota marks the round as full. A delivery counts one; the one that
  completes the round doubles the round's quota into the cap if the round was full, and else ends the slow start, and a
  new round starts at the quota of that moment. An expiry cuts the cap to nine tenths of the quota and by at least one, a
  rejection to half, never under the floor; both end the slow start and start a new round, and no later quota exceeds the
  cut one. No event of one hotkey touches another's entry, and only an expiry of another cause is refused.
\<close>

theorem quota_rule:
  assumes "reach qc_init qc_step (cfg, q)"
  shows "(let e = quota_entry_of cfg q hotkey; e' = quota_entry_of cfg (record_lease cfg hotkey now q) hotkey
       in same_standing e e' \<and> qe_in_use e' = qe_in_use e + 1 \<and> (qe_saturated e' \<longleftrightarrow> qe_saturated e \<or> quota_of cfg e' (Some now) \<le> qe_in_use e'))
    \<and> (\<forall>q' \<in> {record_submission cfg hotkey in_zone q, record_release cfg hotkey q}.
       let e = quota_entry_of cfg q hotkey; e' = quota_entry_of cfg q' hotkey
       in same_standing e e' \<and> qe_in_use e' = max 0 (qe_in_use e - 1) \<and> qe_saturated e' = qe_saturated e)
    \<and> (let e = quota_entry_of cfg q hotkey; e' = quota_entry_of cfg (record_paid cfg hotkey issued submitted now q) hotkey
       in qe_in_use e' = qe_in_use e
         \<and> (if qe_delivered e + 1 < qe_round_quota e
            then qe_cap e' = qe_cap e \<and> qe_phase e' = qe_phase e \<and> qe_round_quota e' = qe_round_quota e
              \<and> qe_delivered e' = qe_delivered e + 1 \<and> qe_saturated e' = qe_saturated e
            else qe_cap e' = (if qe_saturated e then clamp cfg (max (qe_cap e) (2 * qe_round_quota e)) else qe_cap e)
              \<and> qe_phase e' = (if qe_saturated e then qe_phase e else Steady) \<and> fresh_round cfg now e'))
    \<and> (\<forall>cause. case record_expiry cfg hotkey now cause q of
         Inl x \<Rightarrow> cause \<notin> {''expired'', ''rejected''}
       | Inr q' \<Rightarrow>
           let e' = quota_entry_of cfg q' hotkey; before = quota cfg q hotkey (Some now);
               cut = (if cause = ''rejected'' then before div 2 else min (before - 1) \<lfloor>of_int before * (9 / 10 :: rat)\<rfloor>)
           in cause \<in> {''expired'', ''rejected''} \<and> qe_cap e' = clamp cfg cut \<and> qe_phase e' = Steady
             \<and> qe_in_use e' = max 0 (qe_in_use (quota_entry_of cfg q hotkey) - 1) \<and> fresh_round cfg now e'
             \<and> quota cfg q' hotkey later \<le> max (qc_floor cfg) cut
             \<and> (\<forall>h. h \<noteq> hotkey \<longrightarrow> dget q' h = dget q h))
    \<and> (\<forall>q' \<in> {record_lease cfg hotkey now q, record_submission cfg hotkey in_zone q, record_release cfg hotkey q,
          record_paid cfg hotkey issued submitted now q}. \<forall>h. h \<noteq> hotkey \<longrightarrow> dget q' h = dget q h)"
    (is "?lease \<and> ?free \<and> ?paid \<and> ?expiry \<and> ?frame")
proof -
  have inv: "config_ok cfg" "quotas_ok cfg q" using quotas.inv_reach [OF assms] by (simp_all add: qc_inv_def)
  let ?e = "quota_entry_of cfg q hotkey"
  have ?lease
    by (auto simp: record_lease_def same_standing_def Let_def)
  moreover have ?free by (simp add: record_submission_def record_release_def same_standing_def free_slot_def)
  moreover have ?paid by (rule paid_entry [OF quota_entry_ok [OF inv]])
  moreover have ?expiry by (intro allI expiry_rule)
  moreover have ?frame by (simp add: events_frame)
  ultimately show ?thesis by (intro conjI)
qed

theorem quota_rule_witness:
  "\<exists>q'. record_expiry example_cfg ''h'' 10 ''expired'' (record_lease example_cfg ''h'' 0 []) = Inr q'
     \<and> quota example_cfg q' ''h'' (Some 10) \<le> 3 \<and> qe_phase (quota_entry_of example_cfg q' ''h'') = Steady"
proof -
  let ?q = "record_lease example_cfg ''h'' 0 []"
  have "quota example_cfg ?q ''h'' (Some 10) = 4"
    by (simp add: quota_def record_lease_def quota_entry_of_def Hotkey_def example_cfg_def count_event_def quota_of_def
        clamp_def dget_or_def Let_def)
  moreover obtain q' where "record_expiry example_cfg ''h'' 10 ''expired'' ?q = Inr q'"
    by (simp add: record_expiry_def Let_def)
  ultimately show ?thesis
    using quota_rule [OF example_quota_reach, of "''h''" 10 True 0 0 "Some 10"]
    by (auto simp: example_cfg_def Let_def dest!: spec [of _ "''expired''"])
qed

end
