(* ===== verification/Prompt_Rows.thy ===== *)
theory Prompt_Rows
  imports Python_Values "HOL-Library.Product_Lexorder"
begin

text \<open>
  The rows of an environment's train split that may be drawn from,
  \<^verbatim>\<open>reliquary/protocol/rl_prompt_ranges.py\<close>: a slice minus sorted, disjoint excluded intervals, its parser, the
  per-environment table of slices, and the rows left once some worlds of an environment are excluded. A loaded
  environment is a package of its own: it is here its length and the world of each row. The table's \<^verbatim>\<open>why\<close> texts
  are documentation and left out.
\<close>

section \<open>Rows\<close>

record prompt_rows =
  pr_start :: int
  pr_end :: int
  pr_exclude :: "(int \<times> int) list"

text \<open>\<^verbatim>\<open>len\<close> of an object whose \<^verbatim>\<open>__len__\<close> returned \<open>n\<close>.\<close>

definition py_len :: "int \<Rightarrow> int res" where
  "py_len n = (if n < 0 then Inl (ValueError ''__len__() should return >= 0'') else if 2 ^ 63 \<le> n then Inl OverflowError else Inr n)"

definition rows_len :: "prompt_rows \<Rightarrow> int" where
  "rows_len r = pr_end r - pr_start r - sum_list (map (\<lambda>(a, b). b - a) (pr_exclude r))"

fun exclude_ok :: "int \<Rightarrow> int \<Rightarrow> (int \<times> int) list \<Rightarrow> bool" where
  "exclude_ok low high [] = True"
| "exclude_ok low high ((a, b) # xs) = (low \<le> a \<and> a < b \<and> b \<le> high \<and> exclude_ok b high xs)"

definition PromptRows :: "int \<Rightarrow> int \<Rightarrow> (int \<times> int) list \<Rightarrow> prompt_rows res" where
  "PromptRows start end exclude =
     (let r = \<lparr>pr_start = start, pr_end = end, pr_exclude = exclude\<rparr>
      in if \<not> (0 \<le> start \<and> start < end) then Inl (ValueError ''prompt rows must be a non-empty [start, end)'')
         else if \<not> exclude_ok start end exclude
         then Inl (ValueError ''excluded rows must be sorted, disjoint intervals inside [start, end)'')
         else bind_res (py_len (rows_len r)) (\<lambda>n.
           if n = 0 then Inl (ValueError ''every row of [start, end) is excluded'') else Inr r))"

text \<open>What a configuration holds for an environment: \<^verbatim>\<open>PromptRows | tuple[int, int]\<close>.\<close>

datatype rows_value = Rows prompt_rows | Slice int int

fun rows_of :: "rows_value \<Rightarrow> prompt_rows res" where
  "rows_of (Rows r) = Inr r"
| "rows_of (Slice start end) = PromptRows start end []"

text \<open>
  \<^verbatim>\<open>bisect.bisect_right\<close> between \<open>lo\<close> and \<open>hi\<close>: \<open>before mid\<close> says that the value sought comes before the entry at
  \<open>mid\<close>.
\<close>

function bisect_right :: "(nat \<Rightarrow> bool) \<Rightarrow> nat \<Rightarrow> nat \<Rightarrow> nat" where
  "bisect_right before lo hi =
     (if lo < hi
      then let mid = (lo + hi) div 2 in if before mid then bisect_right before lo mid else bisect_right before (mid + 1) hi
      else lo)"
  by pat_completeness auto
termination by (relation "measure (\<lambda>(before, lo, hi). hi - lo)") auto

declare bisect_right.simps [simp del]

definition rows_contains :: "prompt_rows \<Rightarrow> pyval \<Rightarrow> bool" where
  "rows_contains r v =
     (case v of
        PInt row \<Rightarrow>
          if \<not> (pr_start r \<le> row \<and> row < pr_end r) then False
          else let n = bisect_right (\<lambda>j. row < fst (pr_exclude r ! j)) 0 (length (pr_exclude r))
               in n = 0 \<or> \<not> (fst (pr_exclude r ! (n - 1)) \<le> row \<and> row < snd (pr_exclude r ! (n - 1)))
      | _ \<Rightarrow> False)"

section \<open>Parsing a block's rows\<close>

definition MAX_EXCLUDED_ENTRIES :: nat where "MAX_EXCLUDED_ENTRIES = 4096"

definition row_integer :: "string \<Rightarrow> pyval \<Rightarrow> string \<Rightarrow> int res" where
  "row_integer place v label =
     (case v of
        PInt n \<Rightarrow> if n < 0 then Inl (ValueError (place @ ''.'' @ label @ '' must be a non-negative integer'')) else Inr n
      | _ \<Rightarrow> Inl (ValueError (place @ ''.'' @ label @ '' must be a non-negative integer'')))"

definition item_span :: "string \<Rightarrow> pyval \<Rightarrow> (int \<times> int) res" where
  "item_span place item =
     (case item of
        PList vs \<Rightarrow>
          if length vs \<noteq> 2 then Inl (ValueError (place @ ''.exclude: an interval is [a, b)''))
          else bind_res (row_integer place (vs ! 0) ''exclude'') (\<lambda>a.
               bind_res (row_integer place (vs ! 1) ''exclude'') (\<lambda>b. Inr (a, b)))
      | _ \<Rightarrow> bind_res (row_integer place item ''exclude'') (\<lambda>a. Inr (a, a + 1)))"

text \<open>The item as the message prints it: its span was read, so it is an integer or a list of two.\<close>

definition item_str :: "pyval \<Rightarrow> int \<times> int \<Rightarrow> string" where
  "item_str item s =
     (case item of PList vs \<Rightarrow> ''['' @ int_str (fst s) @ '', '' @ int_str (snd s) @ '']'' | _ \<Rightarrow> int_str (fst s))"

definition read_item :: "string \<Rightarrow> int \<Rightarrow> int \<Rightarrow> pyval \<Rightarrow> (int \<times> int) list \<Rightarrow> (int \<times> int) list res" where
  "read_item place start end item spans =
     bind_res (item_span place item) (\<lambda>s.
       if \<not> (start \<le> fst s \<and> fst s < snd s \<and> snd s \<le> end)
       then Inl (ValueError (place @ ''.exclude: '' @ item_str item s @ '' is empty or outside ['' @ int_str start @ '', ''
              @ int_str end @ '')''))
       else Inr (spans @ [s]))"

fun first_overlap :: "(int \<times> int) list \<Rightarrow> int option" where
  "first_overlap (s # t # spans) = (if fst t < snd s then Some (fst t) else first_overlap (t # spans))"
| "first_overlap spans = None"

definition parse_prompt_rows :: "pyval \<Rightarrow> string \<Rightarrow> prompt_rows res" where
  "parse_prompt_rows v place =
     (case v of
        PDict d \<Rightarrow>
          if \<not> ({PStr ''start'', PStr ''end''} \<subseteq> set (dkeys d)
                \<and> set (dkeys d) \<subseteq> {PStr ''start'', PStr ''end'', PStr ''exclude''})
          then Inl (ValueError (place @ '' is {start, end, exclude?}''))
          else bind_res (row_integer place (dget_or d (PStr ''start'') PNone) ''start'') (\<lambda>start.
               bind_res (row_integer place (dget_or d (PStr ''end'') PNone) ''end'') (\<lambda>end.
               case dget_or d (PStr ''exclude'') (PList []) of
                 PList raw \<Rightarrow>
                   if MAX_EXCLUDED_ENTRIES < length raw
                   then Inl (ValueError (place @ ''.exclude must be a list of at most 4096 rows or [a, b) intervals''))
                   else bind_res (fold_res (read_item place start end) raw []) (\<lambda>spans.
                        case first_overlap (sort spans) of
                          Some a \<Rightarrow> Inl (ValueError (place @ ''.exclude: overlapping entries at row '' @ int_str a))
                        | None \<Rightarrow>
                            (case PromptRows start end (sort spans) of
                               Inl (ValueError e) \<Rightarrow> Inl (ValueError (place @ '': '' @ e))
                             | r \<Rightarrow> r))
               | _ \<Rightarrow> Inl (ValueError (place @ ''.exclude must be a list of at most 4096 rows or [a, b) intervals''))))
      | _ \<Rightarrow> Inl (ValueError (place @ '' is {start, end, exclude?}'')))"

section \<open>The slices of the known environments\<close>

record rl_prompt_slice =
  rp_start :: int
  rp_end :: "int option"
  rp_source_length :: int

definition RL_PROMPT_RANGES :: "(string, rl_prompt_slice) dict" where
  "RL_PROMPT_RANGES =
     [(''reliquary_hard_math_v1'', \<lparr>rp_start = 15749, rp_end = None, rp_source_length = 23227\<rparr>),
      (''reliquary_instruction_following_v1'', \<lparr>rp_start = 20000, rp_end = None, rp_source_length = 29435\<rparr>),
      (''reliquary_code_v1'', \<lparr>rp_start = 200000, rp_end = Some 2381806, rp_source_length = 2481806\<rparr>),
      (''reliquary_competitive_code_v1'', \<lparr>rp_start = 4181, rp_end = Some 6899, rp_source_length = 8792\<rparr>),
      (''envscaler_tools_v2'', \<lparr>rp_start = 0, rp_end = Some 1296, rp_source_length = 7825\<rparr>)]"

definition rl_prompt_range :: "string \<Rightarrow> int \<Rightarrow> (int \<times> int) res" where
  "rl_prompt_range environment universe_n =
     (case dget RL_PROMPT_RANGES environment of
        None \<Rightarrow> Inr (0, universe_n)
      | Some entry \<Rightarrow>
          if universe_n \<noteq> rp_source_length entry
          then Inl (ValueError (environment @ '': the RL prompt range was cut against '' @ int_str (rp_source_length entry)
                 @ '' rows, the installed train split has '' @ int_str universe_n))
          else let end = (case rp_end entry of None \<Rightarrow> universe_n | Some e \<Rightarrow> e)
               in if \<not> (0 \<le> rp_start entry \<and> rp_start entry < end \<and> end \<le> universe_n)
                  then Inl (ValueError (environment @ '': empty or invalid RL prompt range''))
                  else Inr (rp_start entry, end))"

definition RL_EXCLUDED_WORLDS :: "(string, string list) dict" where
  "RL_EXCLUDED_WORLDS =
     [(''envscaler_tools_v2'', [''env_147_rl'', ''env_153_rl'', ''env_161_rl'', ''env_163_rl'', ''env_169_rl'', ''env_173_rl'',
        ''env_181_rl'', ''env_187_rl''])]"

text \<open>The excluded rows, as \<^verbatim>\<open>sorted\<close> lists the set: \<open>world row\<close> is \<^verbatim>\<open>env.scenario(row).env_id\<close>.\<close>

definition rl_excluded_prompts :: "string \<Rightarrow> int \<Rightarrow> (int \<Rightarrow> string) \<Rightarrow> int list res" where
  "rl_excluded_prompts environment env_len world =
     (case dget RL_EXCLUDED_WORLDS environment of
        None \<Rightarrow> Inr []
      | Some worlds \<Rightarrow> bind_res (rl_prompt_range environment env_len) (\<lambda>(start, end).
          Inr (filter (\<lambda>row. world row \<in> set worlds) [start..end - 1])))"

definition merge_row :: "int \<Rightarrow> (int \<times> int) list \<Rightarrow> (int \<times> int) list" where
  "merge_row row spans =
     (if spans \<noteq> [] \<and> snd (List.last spans) = row then butlast spans @ [(fst (List.last spans), row + 1)]
      else spans @ [(row, row + 1)])"

definition rl_prompt_rows :: "string \<Rightarrow> int \<Rightarrow> (int \<Rightarrow> string) \<Rightarrow> rows_value res" where
  "rl_prompt_rows environment env_len world =
     bind_res (rl_prompt_range environment env_len) (\<lambda>(start, end).
     bind_res (rl_excluded_prompts environment env_len world) (\<lambda>excluded.
       if excluded = [] then Inr (Slice start end)
       else bind_res (PromptRows start end (fold merge_row excluded [])) (\<lambda>r. Inr (Rows r))))"

section \<open>What rows denote\<close>

definition excluded :: "(int \<times> int) list \<Rightarrow> int set" where
  "excluded spans = (\<Union>(a, b) \<in> set spans. {a..<b})"

text \<open>The abstract value of a \<^verbatim>\<open>PromptRows\<close>: the set of rows on offer.\<close>

definition offered :: "prompt_rows \<Rightarrow> int set" where
  "offered r = {pr_start r..<pr_end r} - excluded (pr_exclude r)"

definition rows_ok :: "prompt_rows \<Rightarrow> bool" where
  "rows_ok r \<longleftrightarrow> 0 \<le> pr_start r \<and> pr_start r < pr_end r \<and> exclude_ok (pr_start r) (pr_end r) (pr_exclude r)"

lemma excluded_simps [simp]: "excluded [] = {}" "excluded ((a, b) # xs) = {a..<b} \<union> excluded xs"
  "excluded (xs @ ys) = excluded xs \<union> excluded ys"
  by (auto simp: excluded_def)

lemma exclude_ok_within: "exclude_ok low high xs \<Longrightarrow> excluded xs \<subseteq> {low..<high}"
proof (induction low high xs rule: exclude_ok.induct)
  case (2 low high a b xs)
  then have "excluded xs \<subseteq> {b..<high}" by simp
  with 2(2) show ?case by fastforce
qed simp

lemma exclude_ok_card:
  "exclude_ok low high xs \<Longrightarrow> sum_list (map (\<lambda>(a, b). b - a) xs) = int (card (excluded xs))"
proof (induction low high xs rule: exclude_ok.induct)
  case (2 low high a b xs)
  then have "excluded xs \<subseteq> {b..<high}" using exclude_ok_within [of b high xs] by simp
  then have "{a..<b} \<inter> excluded xs = {}" "finite (excluded xs)" using finite_subset by fastforce+
  then have "card ({a..<b} \<union> excluded xs) = card {a..<b} + card (excluded xs)" by (intro card_Un_disjoint) auto
  with 2 show ?case by simp
qed simp

lemma rows_len_card:
  assumes "rows_ok r"
  shows "rows_len r = int (card (offered r))"
proof -
  have sub: "excluded (pr_exclude r) \<subseteq> {pr_start r..<pr_end r}"
    using assms exclude_ok_within by (simp add: rows_ok_def)
  then have "card (offered r) = card {pr_start r..<pr_end r} - card (excluded (pr_exclude r))"
    unfolding offered_def by (intro card_Diff_subset) (auto intro: finite_subset)
  moreover have "card (excluded (pr_exclude r)) \<le> card {pr_start r..<pr_end r}" by (rule card_mono [OF _ sub]) simp
  ultimately show ?thesis
    using assms exclude_ok_card [of "pr_start r" "pr_end r" "pr_exclude r"] by (simp add: rows_len_def rows_ok_def of_nat_diff)
qed

lemma PromptRows_Inr:
  "PromptRows start end exclude = Inr r \<longleftrightarrow>
     r = \<lparr>pr_start = start, pr_end = end, pr_exclude = exclude\<rparr> \<and> rows_ok r \<and> 0 < rows_len r \<and> rows_len r < 2 ^ 63"
  by (auto simp: PromptRows_def rows_ok_def py_len_def Let_def split: if_splits)

text \<open>Binary search returns the number of entries the value sought does not come before.\<close>

definition splits_at :: "(nat \<Rightarrow> bool) \<Rightarrow> nat \<Rightarrow> nat \<Rightarrow> nat \<Rightarrow> bool" where
  "splits_at before lo hi n \<longleftrightarrow> lo \<le> n \<and> n \<le> hi \<and> (\<forall>j. lo \<le> j \<and> j < n \<longrightarrow> \<not> before j) \<and> (\<forall>j. n \<le> j \<and> j < hi \<longrightarrow> before j)"

lemma splits_left: "splits_at before lo mid n \<Longrightarrow> mid \<le> hi \<Longrightarrow> (\<And>j. mid \<le> j \<Longrightarrow> j < hi \<Longrightarrow> before j) \<Longrightarrow> splits_at before lo hi n"
  unfolding splits_at_def by (meson le_trans not_le)

lemma splits_right: "splits_at before (mid + 1) hi n \<Longrightarrow> lo \<le> mid \<Longrightarrow> (\<And>j. j \<le> mid \<Longrightarrow> \<not> before j) \<Longrightarrow> splits_at before lo hi n"
  unfolding splits_at_def by (auto simp: Suc_le_eq) (meson not_le)

lemma bisect_right_splits:
  assumes "\<And>i j. i \<le> j \<Longrightarrow> j < hi \<Longrightarrow> before i \<Longrightarrow> before j" "lo \<le> hi"
  shows "splits_at before lo hi (bisect_right before lo hi)"
  using assms
proof (induction before lo hi rule: bisect_right.induct)
  case (1 before lo hi)
  let ?mid = "(lo + hi) div 2"
  show ?case
  proof (cases "lo < hi")
    case True
    then have mid: "lo \<le> ?mid" "?mid < hi" "?mid + 1 \<le> hi" "?mid \<le> hi" by auto
    show ?thesis
    proof (cases "before ?mid")
      case yes: True
      have "splits_at before lo ?mid (bisect_right before lo ?mid)"
        by (rule 1(1) [OF True refl yes _ mid(1)]) (rule 1(3), assumption, use mid in linarith, assumption)
      then have "splits_at before lo hi (bisect_right before lo ?mid)"
        by (rule splits_left [OF _ mid(4)]) (rule 1(3) [OF _ _ yes])
      then show ?thesis using True yes by (subst bisect_right.simps) (simp add: Let_def)
    next
      case no: False
      have "splits_at before (?mid + 1) hi (bisect_right before (?mid + 1) hi)"
        by (rule 1(2) [OF True refl no _ mid(3)]) (rule 1(3))
      then have "splits_at before lo hi (bisect_right before (?mid + 1) hi)"
        by (rule splits_right [OF _ mid(1)]) (use 1(3) mid(2) no in blast)
      then show ?thesis using True no by (subst bisect_right.simps) (simp add: Let_def)
    qed
  next
    case False
    then show ?thesis using 1(4) by (subst bisect_right.simps) (auto simp: splits_at_def)
  qed
qed

lemma exclude_ok_nth:
  "exclude_ok low high xs \<Longrightarrow> i < j \<Longrightarrow> j < length xs \<Longrightarrow> snd (xs ! i) \<le> fst (xs ! j)"
proof (induction low high xs arbitrary: i j rule: exclude_ok.induct)
  case (2 low high a b xs)
  show ?case
  proof (cases i)
    case 0
    have "xs ! (j - 1) \<in> set xs" using 2(3,4) by (intro nth_mem) auto
    moreover have "fst s \<ge> b" if "s \<in> set xs" for s
    proof -
      have "exclude_ok b high xs \<Longrightarrow> s \<in> set xs \<Longrightarrow> b \<le> fst s" for b
      proof (induction xs arbitrary: b)
        case (Cons t ts)
        then show ?case by (cases t) fastforce
      qed simp
      then show ?thesis using 2(2) that by simp
    qed
    ultimately show ?thesis using 0 2(3) by (cases j) auto
  next
    case (Suc i')
    then show ?thesis using 2 by (cases j) auto
  qed
qed simp

lemma exclude_ok_nth_pos: "exclude_ok low high xs \<Longrightarrow> i < length xs \<Longrightarrow> fst (xs ! i) < snd (xs ! i)"
proof (induction low high xs arbitrary: i rule: exclude_ok.induct)
  case (2 low high a b xs)
  then show ?case by (cases i) auto
qed simp

lemma excluded_nth: "row \<in> excluded xs \<longleftrightarrow> (\<exists>i < length xs. fst (xs ! i) \<le> row \<and> row < snd (xs ! i))"
  unfolding excluded_def by (fastforce simp: in_set_conv_nth)

lemma rows_contains_int: "rows_contains r v \<Longrightarrow> \<exists>row. v = PInt row"
  by (cases v) (simp_all add: rows_contains_def)

text \<open>The membership test, by binary search, is membership in the set on offer.\<close>

lemma rows_contains_offered:
  assumes "rows_ok r"
  shows "rows_contains r (PInt row) \<longleftrightarrow> row \<in> offered r"
proof -
  let ?xs = "pr_exclude r"
  have ok: "exclude_ok (pr_start r) (pr_end r) ?xs" using assms by (simp add: rows_ok_def)
  define n where "n = bisect_right (\<lambda>j. row < fst (?xs ! j)) 0 (length ?xs)"
  have mono: "row < fst (?xs ! j)" if "i \<le> j" "j < length ?xs" "row < fst (?xs ! i)" for i j
    using that exclude_ok_nth [OF ok, of i j] exclude_ok_nth_pos [OF ok, of i] by (cases "i = j") auto
  have s: "splits_at (\<lambda>j. row < fst (?xs ! j)) 0 (length ?xs) n"
    unfolding n_def by (rule bisect_right_splits) (use mono in auto)
  have "row \<in> excluded ?xs \<longleftrightarrow> n \<noteq> 0 \<and> fst (?xs ! (n - 1)) \<le> row \<and> row < snd (?xs ! (n - 1))"
  proof
    assume "row \<in> excluded ?xs"
    then obtain i where i: "i < length ?xs" "fst (?xs ! i) \<le> row" "row < snd (?xs ! i)" by (auto simp: excluded_nth)
    with s have "i < n" unfolding splits_at_def by (meson not_le)
    moreover have "\<not> i < n - 1"
    proof
      assume "i < n - 1"
      then have "n - 1 < n" by simp
      with s have "n - 1 < length ?xs" "fst (?xs ! (n - 1)) \<le> row" unfolding splits_at_def by (auto simp: not_less)
      then show False using exclude_ok_nth [OF ok \<open>i < n - 1\<close>] i(3) by simp
    qed
    ultimately have "i = n - 1" "n \<noteq> 0" by auto
    with i show "n \<noteq> 0 \<and> fst (?xs ! (n - 1)) \<le> row \<and> row < snd (?xs ! (n - 1))" by simp
  next
    assume n: "n \<noteq> 0 \<and> fst (?xs ! (n - 1)) \<le> row \<and> row < snd (?xs ! (n - 1))"
    with s have "n - 1 < length ?xs" by (auto simp: splits_at_def)
    with n show "row \<in> excluded ?xs" unfolding excluded_nth by blast
  qed
  then show ?thesis by (auto simp: rows_contains_def offered_def Let_def simp flip: n_def)
qed

section \<open>What the parser accepts\<close>

text \<open>The rows an item of \<^verbatim>\<open>exclude\<close> names: a row, or the rows of \<open>[a, b)\<close>.\<close>

fun item_rows :: "pyval \<Rightarrow> int set" where
  "item_rows (PInt a) = {a}"
| "item_rows (PList [PInt a, PInt b]) = {a..<b}"
| "item_rows _ = {}"

definition block_exclude :: "(pyval \<times> pyval) list \<Rightarrow> pyval list" where
  "block_exclude d = (case dget_or d (PStr ''exclude'') (PList []) of PList raw \<Rightarrow> raw | _ \<Rightarrow> [])"

lemma row_integer_Inr: "row_integer place v label = Inr n \<longleftrightarrow> v = PInt n \<and> 0 \<le> n"
  by (auto simp: row_integer_def split: pyval.splits)

lemma two_elements: "length vs = 2 \<Longrightarrow> vs = [vs ! 0, vs ! 1]"
  by (cases vs) (auto simp: length_Suc_conv)

lemma item_span_rows:
  assumes "item_span place item = Inr (a, b)"
  shows "item_rows item = {a..<b}"
proof (cases item)
  case (PList vs)
  with assms have "length vs = 2" "vs ! 0 = PInt a" "vs ! 1 = PInt b"
    by (auto simp: item_span_def bind_res_Inr_iff row_integer_Inr split: if_splits)
  then show ?thesis using PList two_elements [of vs] by (metis item_rows.simps(2))
next
  case (PInt n)
  with assms have "a = n" "b = n + 1" by (auto simp: item_span_def bind_res_Inr_iff row_integer_Inr)
  with PInt show ?thesis by auto
qed (use assms in \<open>auto simp: item_span_def bind_res_Inr_iff row_integer_Inr\<close>)

lemma read_item_Inr:
  "read_item place start end item spans = Inr spans' \<longleftrightarrow>
     (\<exists>a b. item_span place item = Inr (a, b) \<and> start \<le> a \<and> a < b \<and> b \<le> end \<and> spans' = spans @ [(a, b)])"
  by (auto simp: read_item_def bind_res_Inr_iff)

lemma read_items_rows:
  "fold_res (read_item place start end) raw spans = Inr spans' \<Longrightarrow>
     excluded spans' = excluded spans \<union> (\<Union>item \<in> set raw. item_rows item)"
proof (induction raw arbitrary: spans)
  case (Cons item raw)
  then obtain a b where "item_span place item = Inr (a, b)"
    "fold_res (read_item place start end) raw (spans @ [(a, b)]) = Inr spans'"
    by (auto simp: bind_res_Inr_iff read_item_Inr)
  then show ?case using Cons.IH item_span_rows by auto
qed simp

lemma excluded_sort [simp]: "excluded (sort spans) = excluded spans"
  by (simp add: excluded_def)

lemma parse_Inr:
  assumes "parse_prompt_rows v place = Inr r"
  obtains d spans where "v = PDict d" "dget_or d (PStr ''start'') PNone = PInt (pr_start r)"
    "dget_or d (PStr ''end'') PNone = PInt (pr_end r)" "PromptRows (pr_start r) (pr_end r) (pr_exclude r) = Inr r"
    "fold_res (read_item place (pr_start r) (pr_end r)) (block_exclude d) [] = Inr spans" "pr_exclude r = sort spans"
proof -
  from assms obtain d where d: "v = PDict d" by (auto simp: parse_prompt_rows_def split: pyval.splits)
  with assms obtain start "end" where se: "dget_or d (PStr ''start'') PNone = PInt start"
      "dget_or d (PStr ''end'') PNone = PInt end"
    by (auto simp: parse_prompt_rows_def bind_res_Inr_iff row_integer_Inr split: if_splits)
  with assms d obtain raw where raw: "dget_or d (PStr ''exclude'') (PList []) = PList raw"
    by (auto simp: parse_prompt_rows_def bind_res_Inr_iff row_integer_Inr split: if_splits pyval.splits)
  from assms d se raw obtain spans where spans: "fold_res (read_item place start end) raw [] = Inr spans"
      "(case PromptRows start end (sort spans) of Inl (ValueError e) \<Rightarrow> Inl (ValueError (place @ '': '' @ e)) | r \<Rightarrow> r) = Inr r"
    by (auto simp: parse_prompt_rows_def bind_res_Inr_iff row_integer_Inr split: if_splits option.splits)
  then have "PromptRows start end (sort spans) = Inr r" by (auto split: sum.splits py_error.splits)
  with that d se raw spans(1) show ?thesis by (auto simp: block_exclude_def PromptRows_Inr)
qed

section \<open>The rows left without some worlds\<close>

lemma exclude_ok_snoc:
  "exclude_ok low high (xs @ [(a, b)]) \<longleftrightarrow> exclude_ok low a xs \<and> low \<le> a \<and> a < b \<and> b \<le> high"
  by (induction low high xs rule: exclude_ok.induct) auto

lemma exclude_ok_mono: "exclude_ok low high xs \<Longrightarrow> high \<le> high' \<Longrightarrow> exclude_ok low high' xs"
  by (induction low high xs rule: exclude_ok.induct) auto

lemma merge_row_ok:
  assumes "exclude_ok low row spans" "low \<le> row"
  shows "exclude_ok low (row + 1) (merge_row row spans) \<and> excluded (merge_row row spans) = insert row (excluded spans)"
proof (cases spans rule: rev_cases)
  case (snoc xs s)
  obtain a b where s: "s = (a, b)" by (cases s)
  show ?thesis
  proof (cases "b = row")
    case True
    then show ?thesis using assms snoc s by (auto simp: merge_row_def exclude_ok_snoc)
  next
    case False
    then have "merge_row row spans = spans @ [(row, row + 1)]" using snoc s by (simp add: merge_row_def)
    then show ?thesis using assms by (auto simp: exclude_ok_snoc)
  qed
qed (use assms in \<open>auto simp: merge_row_def\<close>)

lemma fold_merge_ok:
  assumes "exclude_ok low high spans" "sorted_wrt (<) rows" "\<And>row. row \<in> set rows \<Longrightarrow> high \<le> row \<and> row < limit"
    and "low \<le> high" "high \<le> limit"
  shows "exclude_ok low limit (fold merge_row rows spans) \<and> excluded (fold merge_row rows spans) = excluded spans \<union> set rows"
  using assms
proof (induction rows arbitrary: spans high)
  case Nil
  then show ?case by (auto intro: exclude_ok_mono)
next
  case (Cons row rows)
  have hr: "high \<le> row" "row < limit" using Cons.prems(3) by auto
  have m: "exclude_ok low (row + 1) (merge_row row spans)" "excluded (merge_row row spans) = insert row (excluded spans)"
    using merge_row_ok [of low row spans] exclude_ok_mono [OF Cons.prems(1) hr(1)] Cons.prems(4) hr by auto
  have "exclude_ok low limit (fold merge_row rows (merge_row row spans))
      \<and> excluded (fold merge_row rows (merge_row row spans)) = excluded (merge_row row spans) \<union> set rows"
  proof (rule Cons.IH [OF m(1)])
    show "row + 1 \<le> x \<and> x < limit" if "x \<in> set rows" for x using Cons.prems(2,3) that by auto
    show "low \<le> row + 1" "row + 1 \<le> limit" using Cons.prems(4) hr by linarith+
  qed (use Cons.prems in auto)
  with m(2) show ?case by simp
qed

lemma rl_prompt_range_valid:
  assumes "rl_prompt_range environment n = Inr (start, end)" "environment \<in> set (dkeys RL_PROMPT_RANGES)"
  shows "0 \<le> start \<and> start < end \<and> end \<le> n"
  using assms by (auto simp: rl_prompt_range_def map_of_eq_None_iff Let_def split: option.splits if_splits)

lemma sorted_upto_filter: "sorted_wrt (<) (filter P [i..j])"
  by (intro sorted_wrt_filter) simp

text \<open>The rows of a slice whose world is not excluded.\<close>

definition kept_rows :: "string \<Rightarrow> (int \<Rightarrow> string) \<Rightarrow> int \<Rightarrow> int \<Rightarrow> int set" where
  "kept_rows environment world start end =
     {row \<in> {start..<end}. world row \<notin> set (dget_or RL_EXCLUDED_WORLDS environment [])}"

lemma rl_excluded_prompts_Inr:
  assumes "rl_prompt_range environment n = Inr (start, end)"
  shows "rl_excluded_prompts environment n world
    = Inr (filter (\<lambda>row. world row \<in> set (dget_or RL_EXCLUDED_WORLDS environment [])) [start..end - 1])"
  using assms by (auto simp: rl_excluded_prompts_def dget_or_def split: option.split)

lemma PromptRows_outcome:
  assumes "0 \<le> start" "start < end" "end < 2 ^ 63" "exclude_ok start end spans"
  shows "PromptRows start end spans
    = (if {start..<end} - excluded spans = {} then Inl (ValueError ''every row of [start, end) is excluded'')
       else Inr \<lparr>pr_start = start, pr_end = end, pr_exclude = spans\<rparr>)"
proof -
  let ?r = "\<lparr>pr_start = start, pr_end = end, pr_exclude = spans\<rparr>"
  have ok: "rows_ok ?r" using assms by (simp add: rows_ok_def)
  have len: "rows_len ?r = int (card ({start..<end} - excluded spans))"
    using rows_len_card [OF ok] by (simp add: offered_def)
  have "card ({start..<end} - excluded spans) \<le> card {start..<end}" by (rule card_mono) auto
  then have "rows_len ?r \<le> end - start" using assms(2) unfolding len by simp
  with assms(1,3) have "rows_len ?r < 2 ^ 63" by simp
  moreover have "rows_len ?r = 0 \<longleftrightarrow> {start..<end} - excluded spans = {}" unfolding len by (simp add: card_eq_0_iff)
  moreover have "0 \<le> rows_len ?r" unfolding len by simp
  ultimately have "py_len (rows_len ?r) = Inr (rows_len ?r)" by (simp add: py_len_def)
  then show ?thesis
    using assms \<open>rows_len ?r = 0 \<longleftrightarrow> _\<close> unfolding PromptRows_def Let_def by simp
qed

section \<open>Properties\<close>

text \<open>
  C28. A parsed block denotes the rows it lists. When the parser accepts a block, the integers that pass the
  membership test of its value, a binary search over the sorted intervals, are exactly the rows between \<^verbatim>\<open>start\<close> and
  \<^verbatim>\<open>end\<close> that no item of \<^verbatim>\<open>exclude\<close> names, whatever the order of the items; nothing but an integer passes it; and
  \<^verbatim>\<open>len\<close> counts those rows, of which there is at least one.
\<close>

theorem parsed_rows_refine:
  assumes "parse_prompt_rows (PDict d) place = Inr r"
  shows "\<exists>start end. dget d (PStr ''start'') = Some (PInt start) \<and> dget d (PStr ''end'') = Some (PInt end)
    \<and> (let rows = {start..<end} - (\<Union>item \<in> set (block_exclude d). item_rows item)
       in {v. rows_contains r v} = PInt ` rows \<and> rows_len r = int (card rows) \<and> 0 < rows_len r)"
proof -
  obtain d' spans where "PDict d = PDict d'"
    and d': "dget_or d' (PStr ''start'') PNone = PInt (pr_start r)" "dget_or d' (PStr ''end'') PNone = PInt (pr_end r)"
    and r: "PromptRows (pr_start r) (pr_end r) (pr_exclude r) = Inr r"
    and spans: "fold_res (read_item place (pr_start r) (pr_end r)) (block_exclude d') [] = Inr spans" "pr_exclude r = sort spans"
    by (rule parse_Inr [OF assms])
  then have d: "d' = d" by simp
  let ?rows = "{pr_start r..<pr_end r} - (\<Union>item \<in> set (block_exclude d). item_rows item)"
  have ok: "rows_ok r" "0 < rows_len r" using r by (simp_all add: PromptRows_Inr)
  have off: "offered r = ?rows" using read_items_rows [OF spans(1)] spans(2) d by (simp add: offered_def)
  have "rows_contains r v \<longleftrightarrow> v \<in> PInt ` ?rows" for v
    using rows_contains_int [of r v] rows_contains_offered [OF ok(1)] off by blast
  then have "{v. rows_contains r v} = PInt ` ?rows" by blast
  moreover have "rows_len r = int (card ?rows)" using rows_len_card [OF ok(1)] off by simp
  moreover have "dget d (PStr ''start'') = Some (PInt (pr_start r))" "dget d (PStr ''end'') = Some (PInt (pr_end r))"
    using d d' by (auto simp: dget_or_def split: option.splits)
  ultimately show ?thesis using ok(2) unfolding Let_def by blast
qed

text \<open>
  C29. The rows on offer for a loaded environment are those of its slice whose world is not excluded, and no others:
  the merged intervals are accepted, the membership test agrees, and when every row is excluded the call fails.
\<close>

theorem rl_prompt_rows_exact:
  assumes "rl_prompt_range environment n = Inr (start, end)" "0 \<le> start" "start < end" "end < 2 ^ 63"
  shows "if kept_rows environment world start end = {} then rl_prompt_rows environment n world = Inl (ValueError ''every row of [start, end) is excluded'')
    else \<exists>rows r. rl_prompt_rows environment n world = Inr rows \<and> rows_of rows = Inr r
      \<and> {row. rows_contains r (PInt row)} = kept_rows environment world start end \<and> rows_len r = int (card (kept_rows environment world start end))"
proof -
  define kept where "kept = kept_rows environment world start end"
  define ex where "ex = filter (\<lambda>row. world row \<in> set (dget_or RL_EXCLUDED_WORLDS environment [])) [start..end - 1]"
  define spans where "spans = fold merge_row ex []"
  have ex: "set ex = {start..<end} - kept" "sorted_wrt (<) ex"
    unfolding ex_def kept_def kept_rows_def using sorted_upto_filter by auto
  have "exclude_ok start end spans \<and> excluded spans = excluded [] \<union> set ex"
    unfolding spans_def using assms(3) ex by (intro fold_merge_ok [where high = start]) auto
  moreover have "kept \<subseteq> {start..<end}" by (auto simp: kept_def kept_rows_def)
  ultimately have sp: "exclude_ok start end spans" "{start..<end} - excluded spans = kept" using ex(1) by auto
  define r where "r = \<lparr>pr_start = start, pr_end = end, pr_exclude = spans\<rparr>"
  have ok: "rows_ok r" using assms(2,3) sp by (simp add: rows_ok_def r_def)
  have off: "offered r = kept" using sp(2) by (simp add: offered_def r_def)
  have facts: "{row. rows_contains r (PInt row)} = kept" "rows_len r = int (card kept)"
    unfolding rows_contains_offered [OF ok] rows_len_card [OF ok] off by simp_all
  have out: "PromptRows start end spans = (if kept = {} then Inl (ValueError ''every row of [start, end) is excluded'') else Inr r)"
    unfolding PromptRows_outcome [OF assms(2,3,4) sp(1)] sp(2) r_def by (rule refl)
  have eq: "rl_prompt_rows environment n world = (if ex = [] then Inr (Slice start end)
      else bind_res (PromptRows start end spans) (\<lambda>r. Inr (Rows r)))"
    by (simp add: rl_prompt_rows_def assms(1) rl_excluded_prompts_Inr [OF assms(1)] ex_def spans_def)
  show ?thesis
  proof (cases "kept = {}")
    case True
    then have "ex \<noteq> []" using ex(1) assms(3) by auto
    then show ?thesis using True eq out by (simp add: kept_def)
  next
    case False
    then have "PromptRows start end spans = Inr r" using out by simp
    then have "\<exists>rows. rl_prompt_rows environment n world = Inr rows \<and> rows_of rows = Inr r"
      unfolding eq by (cases "ex = []") (auto simp: spans_def)
    then show ?thesis using False facts by (auto simp: kept_def)
  qed
qed

definition example_block :: "(pyval \<times> pyval) list" where
  "example_block = [(PStr ''start'', PInt 2), (PStr ''end'', PInt 9), (PStr ''exclude'', PList [PInt 7, PList [PInt 3, PInt 5]])]"

theorem parsed_rows_refine_witness:
  "{v. rows_contains \<lparr>pr_start = 2, pr_end = 9, pr_exclude = [(3, 5), (7, 8)]\<rparr> v} = {PInt 2, PInt 5, PInt 6, PInt 8}"
proof -
  have "parse_prompt_rows (PDict example_block) ''rows'' = Inr \<lparr>pr_start = 2, pr_end = 9, pr_exclude = [(3, 5), (7, 8)]\<rparr>"
    by code_simp
  from parsed_rows_refine [OF this]
  have "{v. rows_contains \<lparr>pr_start = 2, pr_end = 9, pr_exclude = [(3, 5), (7, 8)]\<rparr> v} = PInt ` ({2..<9} - ({7} \<union> {3..<5}))"
    by (auto simp: example_block_def block_exclude_def dget_or_def Let_def)
  also have "{2..<9} - ({7} \<union> {3..<5}) = {2, 5, 6, 8 :: int}" by auto
  finally show ?thesis by simp
qed

theorem rl_prompt_rows_exact_witness:
  "\<exists>rows r. rl_prompt_rows ''envscaler_tools_v2'' 7825 (\<lambda>row. if row < 8 then ''env_147_rl'' else ''env_1'') = Inr rows
     \<and> rows_of rows = Inr r \<and> {row. rows_contains r (PInt row)} = {8..<1296} \<and> rows_len r = 1288"
proof -
  let ?world = "\<lambda>row :: int. if row < 8 then ''env_147_rl'' else ''env_1''"
  have range: "rl_prompt_range ''envscaler_tools_v2'' 7825 = Inr (0, 1296)" by code_simp
  have kept: "kept_rows ''envscaler_tools_v2'' ?world 0 1296 = {8..<1296}"
    by (auto simp: kept_rows_def RL_EXCLUDED_WORLDS_def dget_or_def)
  show ?thesis using rl_prompt_rows_exact [OF range, of ?world] kept by simp
qed

end
