(* ===== verification/Rl_Leases.thy ===== *)
theory Rl_Leases
  imports Lease_Quota Prompt_Rows
begin

text \<open>
  The lease book of the asynchronous RL task, \<^verbatim>\<open>reliquary/validator/rl_leases.py\<close>: leases of prompts, the secrets
  their nonces come from, the quota each lease uses, bans, the validator's own downtime and the lifecycle of a
  prompt. The book is its SQLite tables and the few fields it keeps in memory, in one record; an operation is one
  transaction. SHA-256 is the parameter \<open>H\<close>; the time an operation runs at, the ids, secrets and shuffles it draws,
  the order SQLite returns rows in, the buffered groups of the training buffer and the sandbox's verdict on a lease
  are arguments. Digests are kept as bytes, not as the hexadecimal text of the tables.
\<close>

section \<open>Nonces and commitments\<close>

definition NONCE_DOMAIN :: bytes where "NONCE_DOMAIN = encode ''reliquary/rl-lease-nonce/v1''"
definition COMMIT_DOMAIN :: bytes where "COMMIT_DOMAIN = encode ''reliquary/rl-lease-secret-commit/v1''"

text \<open>The bytes hashed by \<^verbatim>\<open>_bound\<close>: each part after its length on four bytes, which raises past them.\<close>

fun bound_input :: "bytes list \<Rightarrow> bytes res" where
  "bound_input [] = Inr []"
| "bound_input (part # parts) =
     (if 2 ^ 32 \<le> int (length part) then Inl OverflowError
      else bind_res (bound_input parts) (\<lambda>bs. Inr (be_bytes 4 (length part) @ part @ bs)))"

definition bound :: "(bytes \<Rightarrow> bytes) \<Rightarrow> bytes \<Rightarrow> bytes list \<Rightarrow> bytes res" where
  "bound H domain parts = bind_res (bound_input parts) (\<lambda>bs. Inr (H (domain @ bs)))"

definition u64 :: "int \<Rightarrow> bytes res" where
  "u64 v = (if v < 0 then Inl (ValueError ''a non-negative integer is required'')
            else if 2 ^ 64 \<le> v then Inl OverflowError else Inr (u64_bytes v))"

definition lease_nonce :: "(bytes \<Rightarrow> bytes) \<Rightarrow> bytes \<Rightarrow> string \<Rightarrow> int \<Rightarrow> int \<Rightarrow> bytes res" where
  "lease_nonce H secret environment prompt_idx checkpoint =
     bind_res (u64 prompt_idx) (\<lambda>p. bind_res (u64 checkpoint) (\<lambda>k.
       bound H NONCE_DOMAIN [secret, encode environment, p, k]))"

definition secret_commitment :: "(bytes \<Rightarrow> bytes) \<Rightarrow> bytes \<Rightarrow> int \<Rightarrow> bytes res" where
  "secret_commitment H secret checkpoint = bind_res (u64 checkpoint) (\<lambda>k. bound H COMMIT_DOMAIN [secret, k])"

text \<open>Only a type or value error is caught: a checkpoint past 64 bits raises through.\<close>

definition verify_reveal :: "(bytes \<Rightarrow> bytes) \<Rightarrow> bytes \<Rightarrow> int \<Rightarrow> bytes \<Rightarrow> bool res" where
  "verify_reveal H commitment checkpoint secret =
     (case secret_commitment H secret checkpoint of
        Inr c \<Rightarrow> Inr (c = commitment)
      | Inl (ValueError e) \<Rightarrow> Inr False
      | Inl (TypeError e) \<Rightarrow> Inr False
      | Inl e \<Rightarrow> Inl e)"

definition lease_expiry_s :: "int \<Rightarrow> rat \<Rightarrow> rat \<Rightarrow> rat res" where
  "lease_expiry_s max_tokens reference_tokens_per_s margin =
     (if \<not> (0 < max_tokens \<and> 0 < reference_tokens_per_s \<and> 1 \<le> margin)
      then Inl (ValueError ''max_tokens and reference speed must be positive, margin >= 1'')
      else Inr (of_int max_tokens / reference_tokens_per_s * margin))"

section \<open>Verdicts\<close>

definition VERDICTS :: "string list" where
  "VERDICTS = [''in_zone'', ''too_easy'', ''too_hard'', ''truncated'']"

definition fmean :: "rat list \<Rightarrow> rat" where
  "fmean xs = sum_list xs / of_nat (length xs)"

definition pvariance :: "rat list \<Rightarrow> rat" where
  "pvariance xs = fmean (map (\<lambda>x. (x - fmean xs)\<^sup>2) xs)"

text \<open>\<open>pstdev xs \<ge> s\<close>, without the square root.\<close>

definition pstdev_at_least :: "rat list \<Rightarrow> rat \<Rightarrow> bool" where
  "pstdev_at_least xs s \<longleftrightarrow> s \<le> 0 \<or> s\<^sup>2 \<le> pvariance xs"

definition MAX_TRUNCATED_PER_SUBMISSION :: nat where "MAX_TRUNCATED_PER_SUBMISSION = 1"
definition SIGMA_MIN_V4 :: rat where "SIGMA_MIN_V4 = 24 / 100"

definition classify_group :: "rat list \<Rightarrow> bool list \<Rightarrow> nat \<Rightarrow> rat \<Rightarrow> string res" where
  "classify_group rewards truncated max_truncated sigma_min =
     (if rewards = [] \<or> length rewards \<noteq> length truncated
      then Inl (ValueError ''one finite reward and one truncation flag per rollout'')
      else if max_truncated < length (filter id truncated) then Inr ''truncated''
      else if pstdev_at_least rewards sigma_min then Inr ''in_zone''
      else if 1 / 2 \<le> fmean rewards then Inr ''too_easy'' else Inr ''too_hard'')"

section \<open>Tables and configuration\<close>

datatype lease_state = LOpen | LSubmitted | LExpired | LReleased

record rl_lease =
  rl_id :: string
  rl_hotkey :: string
  rl_env :: string
  rl_prompt :: int
  rl_k :: int
  rl_nonce :: bytes
  rl_issued :: rat
  rl_expires :: rat
  rl_state :: lease_state
  rl_closed :: "rat option"
  rl_cause :: "string option"

record rl_lease_request =
  rq_hotkey :: string
  rq_env :: string
  rq_prompts :: "int list"
  rq_k :: int

record secret_row =
  sr_k :: int
  sr_secret :: bytes
  sr_commitment :: bytes
  sr_adopted_at :: rat
  sr_revealed_at :: "rat option"

datatype prompt_status = PCooldown | PBlacklisted

record scan_row =
  sc_seq :: int
  sc_env :: string
  sc_prompt :: int
  sc_k :: int
  sc_rewards :: "rat list"
  sc_verdict :: string
  sc_first :: bool
  sc_at :: rat
  sc_state :: prompt_status
  sc_until :: "int option"

record prompt_row =
  ps_status :: prompt_status
  ps_until :: "int option"
  ps_seq :: int
  ps_start :: "int option"
  ps_revised :: bool

record lease_book_config =
  lc_expiry_s :: "(string, rat) dict"
  lc_max_lag :: int
  lc_prompt_range :: "(string, rows_value) dict option"
  lc_max_pending :: "int option"
  lc_lane_reserve :: "(string, int) dict option"
  lc_box_failed :: int

definition or_empty :: "('k, 'v) dict option \<Rightarrow> ('k, 'v) dict" where
  "or_empty d = (case d of None \<Rightarrow> [] | Some d \<Rightarrow> d)"

definition LeaseBookConfig :: "lease_book_config \<Rightarrow> lease_book_config res" where
  "LeaseBookConfig c =
     (let reserve = or_empty (lc_lane_reserve c)
      in if lc_expiry_s c = [] \<or> \<not> list_all (\<lambda>(e, v). 0 < v) (lc_expiry_s c)
         then Inl (ValueError ''every served environment needs a positive lease expiry'')
         else if lc_max_lag c < 0 then Inl (ValueError ''max_lag must be non-negative'')
         else if (case lc_max_pending c of None \<Rightarrow> False | Some n \<Rightarrow> n < 1)
         then Inl (ValueError ''max_pending_groups must be positive'')
         else if \<not> list_all (\<lambda>(e, v). 0 \<le> v) reserve then Inl (ValueError ''lane reserves must be non-negative'')
         else if reserve \<noteq> [] \<and> (case lc_max_pending c of None \<Rightarrow> True | Some n \<Rightarrow> n < dsum reserve)
         then Inl (ValueError ''lane reserves need a global cap at least their sum'')
         else if lc_box_failed c < 0 then Inl (ValueError ''box_failed_releases_per_day must be non-negative'')
         else Inr c)"

record lease_book =
  lb_latest :: "int option"
  lb_secrets :: "secret_row list"
  lb_leases :: "rl_lease list"
  lb_scans :: "scan_row list"
  lb_seq :: "int option"
  lb_prompts :: "(string \<times> int, prompt_row) dict"
  lb_bans :: "(string, rat) dict"
  lb_alive :: "rat option"
  lb_downtime :: "(rat \<times> rat) list"
  lb_quota_table :: quota_book
  lb_quota :: quota_book
  lb_full :: "string list"
  lb_lane_full :: "string list"
  lb_submitting :: "(string, int) dict"
  lb_alive_at :: "rat option"

definition empty_book :: lease_book where
  "empty_book = \<lparr>lb_latest = None, lb_secrets = [], lb_leases = [], lb_scans = [], lb_seq = None, lb_prompts = [],
     lb_bans = [], lb_alive = None, lb_downtime = [], lb_quota_table = [], lb_quota = [], lb_full = [], lb_lane_full = [],
     lb_submitting = [], lb_alive_at = None\<rparr>"

text \<open>
  What an operation reads that is not the book's: the sandbox's verdict on a lease (which may raise), the order
  SQLite returns rows in, the shuffle and the lease ids drawn, the environments of the groups in the training buffer
  (none when its table does not exist), and the per-environment maxima.
\<close>

record lease_inputs =
  li_failure :: "(rl_lease \<Rightarrow> (string \<times> string) option res) option"
  li_rows :: "rl_lease list \<Rightarrow> rl_lease list"
  li_shuffle :: "(nat \<times> int) list \<Rightarrow> (nat \<times> int) list"
  li_token :: "nat \<times> int \<Rightarrow> string"
  li_buffer :: "string list option"
  li_lane_max :: "(string, int) dict option"

definition DAY_S :: rat where "DAY_S = 86400"
definition RESTART_GRACE_S :: rat where "RESTART_GRACE_S = 120"
definition ALIVE_EVERY_S :: rat where "ALIVE_EVERY_S = 30"
definition DOWNTIME_MIN_S :: rat where "DOWNTIME_MIN_S = 90"
definition MAX_PROMPTS_PER_REQUEST :: int where "MAX_PROMPTS_PER_REQUEST = 1024"
definition HOTKEY_MAX_OPEN :: int where "HOTKEY_MAX_OPEN = 64"

text \<open>SQLite refuses a Python integer outside 64 signed bits.\<close>

definition sql_int :: "int \<Rightarrow> bool" where
  "sql_int n \<longleftrightarrow> - (2 ^ 63) \<le> n \<and> n < 2 ^ 63"

abbreviation is_open_lease :: "rl_lease \<Rightarrow> bool" where
  "is_open_lease l \<equiv> rl_state l = LOpen"

definition open_of :: "lease_book \<Rightarrow> string \<Rightarrow> rl_lease list" where
  "open_of s hotkey = filter (\<lambda>l. rl_hotkey l = hotkey \<and> is_open_lease l) (lb_leases s)"

definition book_lease :: "lease_book \<Rightarrow> string \<Rightarrow> rl_lease option" where
  "book_lease s lease_id = find (\<lambda>l. rl_id l = lease_id) (lb_leases s)"

text \<open>\<^verbatim>\<open>UPDATE rl_leases SET ... WHERE lease_id=?\<close>.\<close>

definition update_lease :: "string \<Rightarrow> (rl_lease \<Rightarrow> rl_lease) \<Rightarrow> lease_book \<Rightarrow> lease_book" where
  "update_lease lease_id f s = s\<lparr>lb_leases := map (\<lambda>l. if rl_id l = lease_id then f l else l) (lb_leases s)\<rparr>"

text \<open>A quota event of \<open>hotkey\<close> and its \<^verbatim>\<open>_save\<close>: the controller's entry is written to its table.\<close>

definition save_quota :: "quota_config \<Rightarrow> string \<Rightarrow> quota_book \<Rightarrow> lease_book \<Rightarrow> lease_book" where
  "save_quota qc hotkey q s =
     s\<lparr>lb_quota := q, lb_quota_table := dset hotkey (quota_entry_of qc q hotkey) (lb_quota_table s)\<rparr>"

section \<open>Downtime and the boot\<close>

definition lb_mark_alive :: "rat \<Rightarrow> lease_book \<Rightarrow> lease_book" where
  "lb_mark_alive now s = s\<lparr>lb_alive := Some now, lb_alive_at := Some now\<rparr>"

definition extend_open :: "rat \<Rightarrow> rl_lease \<Rightarrow> rl_lease" where
  "extend_open d l = (if is_open_lease l then l\<lparr>rl_expires := rl_expires l + d\<rparr> else l)"

definition lb_note_downtime :: "rat \<Rightarrow> rat \<Rightarrow> lease_book \<Rightarrow> lease_book" where
  "lb_note_downtime since now s =
     (if now - since \<le> DOWNTIME_MIN_S then s
      else s\<lparr>lb_downtime := lb_downtime s @ [(since, now)], lb_leases := map (extend_open (now - since)) (lb_leases s)\<rparr>)"

definition mark_alive :: "rat \<Rightarrow> lease_book \<Rightarrow> lease_book" where
  "mark_alive now s =
     (case lb_alive_at s of
        None \<Rightarrow> lb_mark_alive now s
      | Some t \<Rightarrow> if 0 \<le> now - t \<and> now - t < ALIVE_EVERY_S then s else lb_mark_alive now (lb_note_downtime t now s))"

definition lived_through_downtime :: "lease_book \<Rightarrow> rl_lease \<Rightarrow> rat \<Rightarrow> bool" where
  "lived_through_downtime s l now \<longleftrightarrow> list_ex (\<lambda>(start, end). rl_issued l \<le> start \<and> start < now) (lb_downtime s)"

definition grace :: "rat \<Rightarrow> rl_lease \<Rightarrow> rl_lease" where
  "grace least l = (if is_open_lease l \<and> rl_expires l < least then l\<lparr>rl_expires := least\<rparr> else l)"

definition open_counts :: "rl_lease list \<Rightarrow> (string, int) dict" where
  "open_counts ls =
     map (\<lambda>h. (h, int (length (filter (\<lambda>l. rl_hotkey l = h \<and> is_open_lease l) ls))))
       (remdups (map rl_hotkey (filter is_open_lease ls)))"

text \<open>The start of a cooldown recorded before revisions: the latest checkpoint adopted by the scan's time, or its own.\<close>

definition old_start :: "lease_book \<Rightarrow> int \<Rightarrow> int option" where
  "old_start s seq =
     map_option (\<lambda>c. fold max (map sr_k (filter (\<lambda>r. sr_adopted_at r \<le> sc_at c) (lb_secrets s))) (sc_k c))
       (find (\<lambda>c. sc_seq c = seq) (lb_scans s))"

definition fill_start :: "lease_book \<Rightarrow> prompt_row \<Rightarrow> prompt_row" where
  "fill_start s r =
     (if ps_status r = PCooldown \<and> ps_start r = None then r\<lparr>ps_start := old_start s (ps_seq r)\<rparr> else r)"

text \<open>
  A start of the validator on the book's file: the memory starts afresh, the quota is loaded from its table
  (\<^verbatim>\<open>QuotaController.attach\<close>), then \<^verbatim>\<open>_boot\<close>.
\<close>

definition boot :: "quota_config \<Rightarrow> rat \<Rightarrow> lease_book \<Rightarrow> lease_book" where
  "boot qc now s0 =
     (let s1 = s0\<lparr>lb_full := [], lb_lane_full := [], lb_submitting := [], lb_alive_at := None, lb_quota := lb_quota_table s0\<rparr>;
          s2 = (case lb_alive s1 of None \<Rightarrow> s1 | Some t \<Rightarrow> lb_note_downtime t now s1);
          s3 = s2\<lparr>lb_downtime := filter (\<lambda>(start, end). \<not> end < now - 7 * DAY_S) (lb_downtime s2)\<rparr>;
          s4 = lb_mark_alive now s3;
          s5 = s4\<lparr>lb_leases := map (grace (now + RESTART_GRACE_S)) (lb_leases s4)\<rparr>;
          q = reconcile qc (open_counts (lb_leases s5)) (lb_quota s5)
      in s5\<lparr>lb_quota := q, lb_quota_table := q, lb_prompts := map (\<lambda>(key, r). (key, fill_start s5 r)) (lb_prompts s5)\<rparr>)"

section \<open>Leases that end unsubmitted\<close>

definition verified_failure :: "lease_inputs \<Rightarrow> rl_lease \<Rightarrow> (string \<times> string) option" where
  "verified_failure inp l =
     (case li_failure inp of None \<Rightarrow> None | Some check \<Rightarrow> (case check l of Inl e \<Rightarrow> None | Inr f \<Rightarrow> f))"

definition box_failed_used :: "lease_book \<Rightarrow> string \<Rightarrow> rat \<Rightarrow> int" where
  "box_failed_used s hotkey now =
     int (length (filter (\<lambda>l. rl_hotkey l = hotkey \<and> rl_state l = LReleased \<and> rl_cause l = Some ''box_failed''
       \<and> (case rl_closed l of None \<Rightarrow> False | Some t \<Rightarrow> now - DAY_S < t)) (lb_leases s)))"

text \<open>Whether the lease is released (with its cause) or charged (with its cause).\<close>

datatype ending = Released string | Charged string

definition ending_of :: "lease_book_config \<Rightarrow> lease_inputs \<Rightarrow> lease_book \<Rightarrow> rl_lease \<Rightarrow> rat \<Rightarrow> string \<Rightarrow> ending" where
  "ending_of cfg inp s l now charged =
     (let failure = map_option fst (verified_failure inp l);
          over = failure = Some ''box_failed'' \<and> lc_box_failed cfg \<le> box_failed_used s (rl_hotkey l) now
      in if over then Charged ''box_failed_over_budget''
         else case failure of
                Some cause \<Rightarrow> Released cause
              | None \<Rightarrow> if charged \<noteq> ''box_failed_over_budget'' \<and> lived_through_downtime s l now
                       then Released ''validator_unavailable'' else Charged charged)"

definition close_lease :: "lease_state \<Rightarrow> rat \<Rightarrow> string \<Rightarrow> rl_lease \<Rightarrow> rl_lease" where
  "close_lease st now cause l = l\<lparr>rl_state := st, rl_closed := Some now, rl_cause := Some cause\<rparr>"

text \<open>\<^verbatim>\<open>record_expiry\<close> raises only on a cause that is neither of the two the book passes.\<close>

definition quota_expiry :: "quota_config \<Rightarrow> string \<Rightarrow> rat \<Rightarrow> string \<Rightarrow> quota_book \<Rightarrow> quota_book" where
  "quota_expiry qc hotkey now cause q = (case record_expiry qc hotkey now cause q of Inr q' \<Rightarrow> q' | Inl e \<Rightarrow> q)"

definition close_unsubmitted ::
  "lease_book_config \<Rightarrow> quota_config \<Rightarrow> lease_inputs \<Rightarrow> rat \<Rightarrow> string \<Rightarrow> rl_lease \<Rightarrow> lease_book \<Rightarrow> lease_book" where
  "close_unsubmitted cfg qc inp now charged l s =
     (case ending_of cfg inp s l now charged of
        Charged cause \<Rightarrow>
          save_quota qc (rl_hotkey l) (quota_expiry qc (rl_hotkey l) now ''expired'' (lb_quota s))
            (update_lease (rl_id l) (close_lease LExpired now cause) s)
      | Released cause \<Rightarrow>
          save_quota qc (rl_hotkey l) (record_release qc (rl_hotkey l) (lb_quota s))
            (update_lease (rl_id l) (close_lease LReleased now cause) s))"

definition due_leases :: "lease_inputs \<Rightarrow> rat \<Rightarrow> lease_book \<Rightarrow> rl_lease list" where
  "due_leases inp now s =
     filter (\<lambda>l. \<not> has_key (lb_submitting s) (rl_id l))
       (li_rows inp (filter (\<lambda>l. is_open_lease l \<and> rl_expires l \<le> now) (lb_leases s)))"

definition expire_leases :: "lease_book_config \<Rightarrow> quota_config \<Rightarrow> lease_inputs \<Rightarrow> rat \<Rightarrow> lease_book \<Rightarrow> lease_book" where
  "expire_leases cfg qc inp now s = fold (close_unsubmitted cfg qc inp now ''expired'') (due_leases inp now s) s"

definition expire_due :: "lease_book_config \<Rightarrow> quota_config \<Rightarrow> lease_inputs \<Rightarrow> rat \<Rightarrow> lease_book \<Rightarrow> lease_book \<times> int" where
  "expire_due cfg qc inp now s = (expire_leases cfg qc inp now s, int (length (due_leases inp now s)))"

definition forfeit ::
  "lease_book_config \<Rightarrow> quota_config \<Rightarrow> lease_inputs \<Rightarrow> string \<Rightarrow> string \<Rightarrow> rat \<Rightarrow> lease_book \<Rightarrow> lease_book \<times> rl_lease res" where
  "forfeit cfg qc inp lease_id hotkey now s =
     (case book_lease s lease_id of
        None \<Rightarrow> (s, Inl (LookupError ''no open lease of this hotkey to forfeit''))
      | Some l \<Rightarrow>
          if rl_hotkey l \<noteq> hotkey \<or> \<not> is_open_lease l \<or> has_key (lb_submitting s) lease_id
          then (s, Inl (LookupError ''no open lease of this hotkey to forfeit''))
          else (close_unsubmitted cfg qc inp now ''forfeited'' l s,
                Inr (l\<lparr>rl_state := (case ending_of cfg inp s l now ''forfeited'' of Charged c \<Rightarrow> LExpired | Released c \<Rightarrow> LReleased)\<rparr>)))"

section \<open>Requests\<close>

definition check_request :: "lease_book_config \<Rightarrow> rl_lease_request \<Rightarrow> unit res" where
  "check_request cfg rq =
     (if rq_hotkey rq = [] then Inl (ValueError ''hotkey required'')
      else if \<not> has_key (lc_expiry_s cfg) (rq_env rq) then Inl (ValueError ''environment not served'')
      else if rq_k rq < 0 then Inl (ValueError ''checkpoint must be a non-negative integer'')
      else if rq_prompts rq = [] \<or> MAX_PROMPTS_PER_REQUEST < int (length (rq_prompts rq))
      then Inl (ValueError ''between 1 and 1024 prompts'')
      else if list_ex (\<lambda>p. p < 0) (rq_prompts rq) \<or> \<not> distinct (rq_prompts rq)
      then Inl (ValueError ''prompt ids must be distinct non-negative integers'')
      else case dget (or_empty (lc_prompt_range cfg)) (rq_env rq) of
             None \<Rightarrow> Inr ()
           | Some bounds \<Rightarrow> bind_res (rows_of bounds) (\<lambda>rows.
               if list_ex (\<lambda>p. \<not> rows_contains rows (PInt p)) (rq_prompts rq)
               then Inl (ValueError ''prompt outside the environment's RL range'') else Inr ()))"

definition open_leases :: "lease_book \<Rightarrow> string \<Rightarrow> rat \<Rightarrow> rl_lease list" where
  "open_leases s hotkey now = sort_key rl_expires (filter (\<lambda>l. now < rl_expires l) (open_of s hotkey))"

definition lb_in_use :: "lease_book \<Rightarrow> string \<Rightarrow> int" where
  "lb_in_use s hotkey = int (length (open_of s hotkey))"

definition lb_banned :: "lease_book \<Rightarrow> string \<Rightarrow> rat \<Rightarrow> bool" where
  "lb_banned s hotkey now \<longleftrightarrow> (case dget (lb_bans s) hotkey of None \<Rightarrow> False | Some until \<Rightarrow> now < until)"

definition buffered_by_env :: "lease_inputs \<Rightarrow> (string, int) dict" where
  "buffered_by_env inp =
     (case li_buffer inp of
        None \<Rightarrow> []
      | Some envs \<Rightarrow> map (\<lambda>e. (e, int (length (filter ((=) e) envs)))) (remdups envs))"

definition buffered :: "lease_inputs \<Rightarrow> int" where
  "buffered inp = (case li_buffer inp of None \<Rightarrow> 0 | Some envs \<Rightarrow> int (length envs))"

definition lane_room :: "string \<Rightarrow> int \<Rightarrow> (string, int) dict \<Rightarrow> (string, int) dict \<Rightarrow> int \<Rightarrow> bool" where
  "lane_room env pending by_env reserve cap =
     (if reserve = [] then pending < cap
      else if dget_or by_env env 0 < dget_or reserve env 0 then True
      else sum_list (map (\<lambda>(e, r). max (dget_or by_env e 0) r) reserve)
           + sum_list (map snd (filter (\<lambda>(e, n). \<not> has_key reserve e) by_env)) < cap)"

section \<open>Granting\<close>

datatype lease_refusal = RTaken | RCooling | RBlacklisted | RQuota | RStale | RBanned | RFull

record lease_answer =
  la_leases :: "rl_lease list"
  la_refused :: "(int, lease_refusal) dict"

text \<open>The local variables of \<^verbatim>\<open>grant\<close>: \<open>granted[i][prompt]\<close> and \<open>answers[i].refused[prompt]\<close> are keyed by both.\<close>

record grant_state =
  gs_book :: lease_book
  gs_room :: "(string, int) dict"
  gs_granted :: "(nat \<times> int, rl_lease) dict"
  gs_refused :: "(nat \<times> int, lease_refusal) dict"
  gs_claims :: "(nat \<times> int) list"

definition room_of :: "lease_book_config \<Rightarrow> quota_config \<Rightarrow> rat \<Rightarrow> lease_book \<Rightarrow> string \<Rightarrow> int" where
  "room_of cfg qc now s hotkey =
     (if lb_banned s hotkey now then - 1
      else let limit = quota qc (lb_quota s) hotkey (Some now);
               limit' = (if lc_max_pending cfg = None then limit else min limit HOTKEY_MAX_OPEN)
           in max 0 (limit' - lb_in_use s hotkey))"

definition held_open :: "lease_book \<Rightarrow> rl_lease_request \<Rightarrow> int \<Rightarrow> rl_lease option" where
  "held_open s rq prompt =
     find (\<lambda>l. rl_env l = rq_env rq \<and> rl_prompt l = prompt \<and> rl_k l = rq_k rq) (rev (open_of s (rq_hotkey rq)))"

definition ask_prompt :: "nat \<Rightarrow> rl_lease_request \<Rightarrow> int \<Rightarrow> int \<times> grant_state \<Rightarrow> int \<times> grant_state" where
  "ask_prompt i rq prompt ag =
     (let asked = fst ag; g = snd ag; room = dget_or (gs_room g) (rq_hotkey rq) 0
      in if room < 0 then (asked, g\<lparr>gs_refused := dset (i, prompt) RBanned (gs_refused g)\<rparr>)
         else case held_open (gs_book g) rq prompt of
                Some l \<Rightarrow> (asked, g\<lparr>gs_granted := dset (i, prompt) l (gs_granted g)\<rparr>)
              | None \<Rightarrow> if room \<le> asked then (asked, g\<lparr>gs_refused := dset (i, prompt) RQuota (gs_refused g)\<rparr>)
                       else (asked + 1, g\<lparr>gs_claims := gs_claims g @ [(i, prompt)]\<rparr>))"

definition ask_request :: "nat \<times> rl_lease_request \<Rightarrow> grant_state \<Rightarrow> grant_state" where
  "ask_request ir g = snd (fold (ask_prompt (fst ir) (snd ir)) (rq_prompts (snd ir)) (0, g))"

record lanes =
  ln_pending :: int
  ln_reserve :: "(string, int) dict"
  ln_max :: "(string, int) dict"
  ln_by_env :: "(string, int) dict"

definition lanes_of :: "lease_book_config \<Rightarrow> lease_inputs \<Rightarrow> bool \<Rightarrow> lanes" where
  "lanes_of cfg inp any_claim =
     (let capped = lc_max_pending cfg \<noteq> None;
          reserve = (if capped then or_empty (lc_lane_reserve cfg) else []);
          most = (if any_claim then or_empty (li_lane_max inp) else [])
      in \<lparr>ln_pending = (if capped then buffered inp else 0), ln_reserve = reserve, ln_max = most,
          ln_by_env = (if reserve \<noteq> [] \<or> most \<noteq> [] then buffered_by_env inp else [])\<rparr>)"

definition leasable_secret :: "lease_book \<Rightarrow> int \<Rightarrow> bytes option" where
  "leasable_secret s k =
     map_option sr_secret (find (\<lambda>r. sr_k r = k \<and> sr_revealed_at r = None) (lb_secrets s))"

datatype claim_verdict = Refuse lease_refusal | RefuseLane | RefuseCap | Grantable bytes

definition claim_taken :: "lease_book \<Rightarrow> rl_lease_request \<Rightarrow> int \<Rightarrow> bool" where
  "claim_taken s rq prompt \<longleftrightarrow>
     list_ex (\<lambda>l. rl_env l = rq_env rq \<and> rl_prompt l = prompt
       \<and> (is_open_lease l \<or> rl_k l = rq_k rq \<and> rl_state l = LSubmitted)) (lb_leases s)"

definition prompt_refusal :: "lease_book \<Rightarrow> string \<Rightarrow> int \<Rightarrow> lease_refusal option res" where
  "prompt_refusal s env prompt =
     (case dget (lb_prompts s) (env, prompt) of
        None \<Rightarrow> Inr None
      | Some row \<Rightarrow>
          if ps_status row = PBlacklisted then Inr (Some RBlacklisted)
          else (case (lb_latest s, ps_until row) of
                  (Some latest, Some until) \<Rightarrow> Inr (if latest < until then Some RCooling else None)
                | _ \<Rightarrow> Inl (TypeError ''<'')))"

definition capacity_verdict :: "lease_book_config \<Rightarrow> lanes \<Rightarrow> string \<Rightarrow> int \<Rightarrow> bytes \<Rightarrow> claim_verdict" where
  "capacity_verdict cfg la env room secret =
     (if room \<le> 0 then Refuse RQuota
      else if has_key (ln_max la) env \<and> dget_or (ln_max la) env 0 \<le> dget_or (ln_by_env la) env 0 then RefuseLane
      else case lc_max_pending cfg of
             None \<Rightarrow> Grantable secret
           | Some cap \<Rightarrow> if lane_room env (ln_pending la) (ln_by_env la) (ln_reserve la) cap then Grantable secret else RefuseCap)"

definition judge_claim ::
  "lease_book_config \<Rightarrow> lanes \<Rightarrow> rl_lease_request \<Rightarrow> int \<Rightarrow> lease_book \<Rightarrow> int \<Rightarrow> claim_verdict res" where
  "judge_claim cfg la rq prompt s room =
     (case leasable_secret s (rq_k rq) of
        None \<Rightarrow> Inr (Refuse RStale)
      | Some secret \<Rightarrow>
          if \<not> sql_int prompt then Inl OverflowError
          else if claim_taken s rq prompt then Inr (Refuse RTaken)
          else bind_res (prompt_refusal s (rq_env rq) prompt) (\<lambda>lifecycle.
            case lifecycle of
              Some r \<Rightarrow> Inr (Refuse r)
            | None \<Rightarrow> Inr (capacity_verdict cfg la (rq_env rq) room secret)))"

text \<open>\<^verbatim>\<open>INSERT INTO rl_leases\<close>: the primary key and the unique index \<^verbatim>\<open>rl_leases_live\<close>.\<close>

abbreviation is_live :: "rl_lease \<Rightarrow> bool" where
  "is_live l \<equiv> rl_state l = LOpen \<or> rl_state l = LSubmitted"

definition insert_lease :: "rl_lease \<Rightarrow> lease_book \<Rightarrow> lease_book res" where
  "insert_lease l s =
     (if list_ex (\<lambda>m. rl_id m = rl_id l \<or> is_live m \<and> rl_env m = rl_env l \<and> rl_prompt m = rl_prompt l \<and> rl_k m = rl_k l) (lb_leases s)
      then Inl IntegrityError else Inr (s\<lparr>lb_leases := lb_leases s @ [l]\<rparr>))"

definition grant_claim ::
  "(bytes \<Rightarrow> bytes) \<Rightarrow> lease_book_config \<Rightarrow> quota_config \<Rightarrow> lease_inputs \<Rightarrow> rl_lease_request list \<Rightarrow> lanes \<Rightarrow> rat
     \<Rightarrow> nat \<times> int \<Rightarrow> grant_state \<Rightarrow> grant_state res" where
  "grant_claim H cfg qc inp requests la now c g =
     (let rq = requests ! fst c; prompt = snd c; s = gs_book g; room = dget_or (gs_room g) (rq_hotkey rq) 0;
          refuse = (\<lambda>r. g\<lparr>gs_refused := dset c r (gs_refused g)\<rparr>)
      in bind_res (judge_claim cfg la rq prompt s room) (\<lambda>verdict.
        case verdict of
          Refuse r \<Rightarrow> Inr (refuse r)
        | RefuseLane \<Rightarrow> Inr ((refuse RFull)\<lparr>gs_book := s\<lparr>lb_lane_full := List.insert (rq_env rq) (lb_lane_full s)\<rparr>\<rparr>)
        | RefuseCap \<Rightarrow> Inr ((refuse RFull)\<lparr>gs_book := s\<lparr>lb_full := List.insert (rq_env rq) (lb_full s)\<rparr>\<rparr>)
        | Grantable secret \<Rightarrow>
            bind_res (lease_nonce H secret (rq_env rq) prompt (rq_k rq)) (\<lambda>nonce.
              let l = \<lparr>rl_id = li_token inp c, rl_hotkey = rq_hotkey rq, rl_env = rq_env rq, rl_prompt = prompt, rl_k = rq_k rq,
                       rl_nonce = nonce, rl_issued = now, rl_expires = now + dget_or (lc_expiry_s cfg) (rq_env rq) 0,
                       rl_state = LOpen, rl_closed = None, rl_cause = None\<rparr>
              in bind_res (insert_lease l s) (\<lambda>s'.
                Inr (g\<lparr>gs_room := dset (rq_hotkey rq) (room - 1) (gs_room g),
                       gs_book := save_quota qc (rq_hotkey rq) (record_lease qc (rq_hotkey rq) now (lb_quota s')) s',
                       gs_granted := dset c l (gs_granted g)\<rparr>)))))"

text \<open>The claims in turn; the error that stopped them, if one did.\<close>

fun grant_claims :: "(nat \<times> int \<Rightarrow> grant_state \<Rightarrow> grant_state res) \<Rightarrow> (nat \<times> int) list \<Rightarrow> grant_state \<Rightarrow> grant_state \<times> py_error option" where
  "grant_claims f [] g = (g, None)"
| "grant_claims f (c # cs) g = (case f c g of Inl e \<Rightarrow> (g, Some e) | Inr g' \<Rightarrow> grant_claims f cs g')"

text \<open>A transaction that raises: the tables are as before it, what was changed in memory stays changed.\<close>

definition rolled_back :: "lease_book \<Rightarrow> lease_book \<Rightarrow> lease_book" where
  "rolled_back s0 s = s0\<lparr>lb_quota := lb_quota s, lb_full := lb_full s, lb_lane_full := lb_lane_full s\<rparr>"

definition answer_of :: "grant_state \<Rightarrow> nat \<times> rl_lease_request \<Rightarrow> lease_answer" where
  "answer_of g ir =
     \<lparr>la_leases = List.map_filter (\<lambda>p. dget (gs_granted g) (fst ir, p)) (rq_prompts (snd ir)),
      la_refused = List.map_filter (\<lambda>((i, p), r). if i = fst ir then Some (p, r) else None) (gs_refused g)\<rparr>"

definition grant_asked :: "lease_book_config \<Rightarrow> quota_config \<Rightarrow> rl_lease_request list \<Rightarrow> rat \<Rightarrow> lease_book \<Rightarrow> grant_state" where
  "grant_asked cfg qc requests now s =
     fold ask_request (enumerate 0 requests)
       \<lparr>gs_book = s, gs_room = map (\<lambda>h. (h, room_of cfg qc now s h)) (remdups (map rq_hotkey requests)),
        gs_granted = [], gs_refused = [], gs_claims = []\<rparr>"

definition rl_grant ::
  "(bytes \<Rightarrow> bytes) \<Rightarrow> lease_book_config \<Rightarrow> quota_config \<Rightarrow> lease_inputs \<Rightarrow> rl_lease_request list \<Rightarrow> rat \<Rightarrow> lease_book
     \<Rightarrow> lease_book \<times> lease_answer list res" where
  "rl_grant H cfg qc inp requests now s0 =
     (case fold_res (\<lambda>rq u. check_request cfg rq) requests () of
        Inl e \<Rightarrow> (s0, Inl e)
      | Inr u \<Rightarrow>
          let g1 = grant_asked cfg qc requests now (expire_leases cfg qc inp now s0);
              claims = li_shuffle inp (gs_claims g1);
              la = lanes_of cfg inp (claims \<noteq> [])
          in (case grant_claims (grant_claim H cfg qc inp requests la now) claims g1 of
                (g2, Some e) \<Rightarrow> (rolled_back s0 (gs_book g2), Inl e)
              | (g2, None) \<Rightarrow> (gs_book g2, Inr (map (answer_of g2) (enumerate 0 requests)))))"

section \<open>Submissions\<close>

definition drain_full :: "lease_book \<Rightarrow> lease_book \<times> string list" where
  "drain_full s = (s\<lparr>lb_full := []\<rparr>, lb_full s)"

definition drain_lane_full :: "lease_book \<Rightarrow> lease_book \<times> string list" where
  "drain_lane_full s = (s\<lparr>lb_lane_full := []\<rparr>, lb_lane_full s)"

definition lanes_view :: "lease_book_config \<Rightarrow> lease_inputs \<Rightarrow> (string \<times> int \<times> int \<times> int option) list" where
  "lanes_view cfg inp =
     (let by_env = buffered_by_env inp; reserve = or_empty (lc_lane_reserve cfg); most = or_empty (li_lane_max inp)
      in map (\<lambda>e. (e, dget_or by_env e 0, dget_or reserve e 0, dget most e))
           (sort (remdups (dkeys by_env @ dkeys reserve @ dkeys most))))"

fun state_text :: "lease_state \<Rightarrow> string" where
  "state_text LOpen = ''open''"
| "state_text LSubmitted = ''submitted''"
| "state_text LExpired = ''expired''"
| "state_text LReleased = ''released''"

definition submittable ::
  "lease_book_config \<Rightarrow> quota_config \<Rightarrow> lease_inputs \<Rightarrow> string \<Rightarrow> string \<Rightarrow> rat \<Rightarrow> lease_book \<Rightarrow> lease_book \<times> rl_lease res" where
  "submittable cfg qc inp lease_id hotkey now s =
     (case book_lease s lease_id of
        None \<Rightarrow> (s, Inl (LookupError ''lease unknown''))
      | Some l \<Rightarrow>
          if rl_hotkey l \<noteq> hotkey then (s, Inl (PermissionError ''lease held by another hotkey''))
          else if \<not> is_open_lease l then (s, Inl (LookupError (''lease '' @ state_text (rl_state l))))
          else if rl_expires l \<le> now then (expire_leases cfg qc inp now s, Inl (LookupError ''lease expired''))
          else if lb_banned s hotkey now then (s, Inl (PermissionError ''hotkey banned''))
          else (s, Inr l))"

definition check_submission ::
  "lease_book_config \<Rightarrow> quota_config \<Rightarrow> lease_inputs \<Rightarrow> string \<Rightarrow> string \<Rightarrow> rat \<Rightarrow> lease_book \<Rightarrow> lease_book \<times> rl_lease res" where
  "check_submission cfg qc inp lease_id hotkey now s = submittable cfg qc inp lease_id hotkey now s"

definition hold_submission ::
  "lease_book_config \<Rightarrow> quota_config \<Rightarrow> lease_inputs \<Rightarrow> string \<Rightarrow> string \<Rightarrow> rat \<Rightarrow> lease_book \<Rightarrow> lease_book \<times> rl_lease res" where
  "hold_submission cfg qc inp lease_id hotkey arrived_at s =
     (case check_submission cfg qc inp lease_id hotkey arrived_at s of
        (s', Inl e) \<Rightarrow> (s', Inl e)
      | (s', Inr l) \<Rightarrow>
          (s'\<lparr>lb_submitting := dset lease_id (dget_or (lb_submitting s') lease_id 0 + 1) (lb_submitting s')\<rparr>, Inr l))"

definition release_submission :: "string \<Rightarrow> lease_book \<Rightarrow> lease_book" where
  "release_submission lease_id s =
     (let left = dget_or (lb_submitting s) lease_id 1 - 1; rest = dpop lease_id (lb_submitting s)
      in s\<lparr>lb_submitting := (if 0 < left then dset lease_id left rest else rest)\<rparr>)"

definition submit ::
  "lease_book_config \<Rightarrow> quota_config \<Rightarrow> lease_inputs \<Rightarrow> string \<Rightarrow> string \<Rightarrow> bool \<Rightarrow> bool \<Rightarrow> rat \<Rightarrow> lease_book
     \<Rightarrow> lease_book \<times> rl_lease res" where
  "submit cfg qc inp lease_id hotkey in_zone delivered now s =
     (case submittable cfg qc inp lease_id hotkey now s of
        (s', Inl e) \<Rightarrow> (s', Inl e)
      | (s', Inr l) \<Rightarrow>
          (save_quota qc hotkey
             (if delivered then record_submission qc hotkey in_zone (lb_quota s') else quota_expiry qc hotkey now ''rejected'' (lb_quota s'))
             (update_lease lease_id (\<lambda>l. l\<lparr>rl_state := LSubmitted, rl_closed := Some now\<rparr>) s'),
           Inr (l\<lparr>rl_state := LSubmitted\<rparr>)))"

definition credit :: "quota_config \<Rightarrow> string \<Rightarrow> rat \<Rightarrow> lease_book \<Rightarrow> lease_book res" where
  "credit qc lease_id now s =
     (case find (\<lambda>l. rl_id l = lease_id \<and> rl_state l = LSubmitted) (lb_leases s) of
        None \<Rightarrow> Inr s
      | Some l \<Rightarrow>
          (case rl_closed l of
             None \<Rightarrow> Inl (TypeError ''float'')
           | Some t \<Rightarrow> Inr (save_quota qc (rl_hotkey l) (record_paid qc (rl_hotkey l) (rl_issued l) t now (lb_quota s)) s)))"

definition ban :: "string \<Rightarrow> rat \<Rightarrow> lease_book \<Rightarrow> lease_book" where
  "ban hotkey until s =
     s\<lparr>lb_bans := dset hotkey (case dget (lb_bans s) hotkey of None \<Rightarrow> until | Some u \<Rightarrow> max u until) (lb_bans s)\<rparr>"

definition banned_until :: "lease_book \<Rightarrow> string \<Rightarrow> rat option" where
  "banned_until s hotkey = dget (lb_bans s) hotkey"

section \<open>The lifecycle of a prompt\<close>

definition next_seq :: "lease_book \<Rightarrow> int" where
  "next_seq s = fold max (map sc_seq (lb_scans s)) (case lb_seq s of None \<Rightarrow> 0 | Some n \<Rightarrow> n) + 1"

text \<open>The status, end and start an outcome moves the prompt to.\<close>

definition outcome_row ::
  "lease_book \<Rightarrow> string \<Rightarrow> int \<Rightarrow> int \<Rightarrow> string \<Rightarrow> int \<Rightarrow> prompt_status \<times> int option \<times> int option" where
  "outcome_row s environment prompt_idx checkpoint verdict cooldown =
     (let prior = dget (lb_prompts s) (environment, prompt_idx);
          easy_before = verdict = ''too_easy'' \<and>
            list_ex (\<lambda>c. sc_env c = environment \<and> sc_prompt c = prompt_idx \<and> sc_verdict c = ''too_easy'') (lb_scans s)
      in if easy_before \<or> (case prior of None \<Rightarrow> False | Some r \<Rightarrow> ps_status r = PBlacklisted) then (PBlacklisted, None, None)
         else let start = max checkpoint (case lb_latest s of None \<Rightarrow> 0 | Some k \<Rightarrow> k);
                  before = (case prior of None \<Rightarrow> 0 | Some r \<Rightarrow> (case ps_until r of None \<Rightarrow> 0 | Some u \<Rightarrow> u))
              in (PCooldown, Some (max (start + cooldown) before), Some start))"

definition record_outcome ::
  "lease_book_config \<Rightarrow> string \<Rightarrow> int \<Rightarrow> int \<Rightarrow> rat list \<Rightarrow> string \<Rightarrow> int res \<Rightarrow> rat \<Rightarrow> lease_book \<Rightarrow> (lease_book \<times> scan_row) res" where
  "record_outcome cfg environment prompt_idx checkpoint rewards verdict cooldown_of now s =
     (if \<not> has_key (lc_expiry_s cfg) environment then Inl (ValueError ''environment not served'')
      else if verdict \<notin> set VERDICTS
      then Inl (ValueError ''verdict must be one of ['in_zone', 'too_easy', 'too_hard', 'truncated']'')
      else bind_res (u64 prompt_idx) (\<lambda>_. bind_res (u64 checkpoint) (\<lambda>_.
        if rewards = [] then Inl (ValueError ''finite rewards required'')
        else bind_res cooldown_of (\<lambda>cooldown. bind_res (u64 cooldown) (\<lambda>_.
          case outcome_row s environment prompt_idx checkpoint verdict cooldown of (status, until, start) \<Rightarrow>
            let seq = next_seq s; first = dget (lb_prompts s) (environment, prompt_idx) = None;
                c = \<lparr>sc_seq = seq, sc_env = environment, sc_prompt = prompt_idx, sc_k = checkpoint, sc_rewards = rewards,
                     sc_verdict = verdict, sc_first = first, sc_at = now, sc_state = status, sc_until = until\<rparr>
            in if \<not> sql_int prompt_idx \<or> \<not> sql_int checkpoint \<or> (case until of None \<Rightarrow> False | Some u \<Rightarrow> \<not> sql_int u)
               then Inl OverflowError
               else Inr (s\<lparr>lb_scans := lb_scans s @ [c], lb_seq := Some seq,
                           lb_prompts := dset (environment, prompt_idx)
                             \<lparr>ps_status = status, ps_until = until, ps_seq = seq, ps_start = start, ps_revised = False\<rparr>
                             (lb_prompts s)\<rparr>, c))))))"

definition reserve_seq :: "lease_book \<Rightarrow> lease_book \<times> int" where
  "reserve_seq s = (let stamp = (case lb_seq s of None \<Rightarrow> 0 | Some n \<Rightarrow> n) + 1 in (s\<lparr>lb_seq := Some stamp\<rparr>, stamp))"

text \<open>The environments whose cooldown could be read, with it.\<close>

definition readable_cooldowns :: "lease_book_config \<Rightarrow> (string \<Rightarrow> int res) \<Rightarrow> (string, int) dict" where
  "readable_cooldowns cfg cooldown_of =
     List.map_filter (\<lambda>env. case bind_res (cooldown_of env) (\<lambda>c. bind_res (u64 c) (\<lambda>_. Inr c)) of Inl e \<Rightarrow> None | Inr c \<Rightarrow> Some (env, c))
       (dkeys (lc_expiry_s cfg))"

definition shortenable :: "int \<Rightarrow> prompt_row \<Rightarrow> bool" where
  "shortenable cooldown r \<longleftrightarrow> ps_status r = PCooldown
     \<and> (case (ps_start r, ps_until r) of (Some a, Some u) \<Rightarrow> a + cooldown < u | _ \<Rightarrow> False)"

definition running_revised :: "int \<Rightarrow> prompt_row \<Rightarrow> bool" where
  "running_revised latest r \<longleftrightarrow> ps_status r = PCooldown \<and> ps_revised r
     \<and> (case ps_until r of Some u \<Rightarrow> latest < u | None \<Rightarrow> False)"

definition shorten :: "int \<Rightarrow> int \<Rightarrow> prompt_row \<Rightarrow> prompt_row" where
  "shorten cooldown stamp r =
     (if shortenable cooldown r
      then r\<lparr>ps_until := map_option (\<lambda>a. a + cooldown) (ps_start r), ps_seq := stamp, ps_revised := True\<rparr> else r)"

definition restamp :: "int \<Rightarrow> int \<Rightarrow> prompt_row \<Rightarrow> prompt_row" where
  "restamp latest stamp r = (if running_revised latest r \<and> ps_seq r \<noteq> stamp then r\<lparr>ps_seq := stamp\<rparr> else r)"

definition revised_rows :: "int \<Rightarrow> string \<times> int \<Rightarrow> int \<Rightarrow> (string \<times> int, prompt_row) dict \<Rightarrow> (string \<times> int, prompt_row) dict" where
  "revised_rows latest ec stamp rows =
     map (\<lambda>(key, r). (key, if fst key = fst ec then restamp latest stamp (shorten (snd ec) stamp r) else r)) rows"

definition revise_env ::
  "int \<Rightarrow> string \<times> int \<Rightarrow> lease_book \<times> int option \<times> (string, int) dict \<Rightarrow> lease_book \<times> int option \<times> (string, int) dict" where
  "revise_env latest ec acc =
     (case acc of (s, stamp0, shortened) \<Rightarrow>
        let mine = (\<lambda>key :: string \<times> int. fst key = fst ec);
            due = list_ex (\<lambda>(key, r). mine key \<and> (shortenable (snd ec) r \<or> ps_start r \<noteq> None \<and> running_revised latest r)) (lb_prompts s);
            n = length (filter (\<lambda>(key, r). mine key \<and> shortenable (snd ec) r) (lb_prompts s))
        in if \<not> due then acc
           else let (s', stamp) = (case stamp0 of None \<Rightarrow> reserve_seq s | Some t \<Rightarrow> (s, t))
                in (s'\<lparr>lb_prompts := revised_rows latest ec stamp (lb_prompts s')\<rparr>,
                    Some stamp, if n = 0 then shortened else dset (fst ec) (int n) shortened))"

text \<open>
  A readable cooldown past SQLite's integers raises in the first query that is given it, and the pass is rolled back.
\<close>

definition revise_cooldowns :: "lease_book_config \<Rightarrow> (string \<Rightarrow> int res) \<Rightarrow> lease_book \<Rightarrow> (lease_book \<times> (string, int) dict) res" where
  "revise_cooldowns cfg cooldown_of s =
     (let cooldowns = readable_cooldowns cfg cooldown_of
      in case lb_latest s of
           None \<Rightarrow> Inr (s, [])
         | Some latest \<Rightarrow>
             if list_ex (\<lambda>(env, cooldown). \<not> sql_int cooldown) cooldowns then Inl OverflowError
             else (case fold (revise_env latest) cooldowns (s, None, []) of (s', stamp, shortened) \<Rightarrow> Inr (s', shortened)))"

definition after_revision :: "lease_book_config \<Rightarrow> (string \<Rightarrow> int res) \<Rightarrow> lease_book \<Rightarrow> lease_book" where
  "after_revision cfg cooldown_of s = (case revise_cooldowns cfg cooldown_of s of Inl e \<Rightarrow> s | Inr (s', shortened) \<Rightarrow> s')"

section \<open>Checkpoints\<close>

definition reveal_secret :: "int \<Rightarrow> rat \<Rightarrow> secret_row \<Rightarrow> secret_row" where
  "reveal_secret retired now r =
     (if sr_k r < retired \<and> sr_revealed_at r = None then r\<lparr>sr_revealed_at := Some now\<rparr> else r)"

text \<open>The transaction of an adoption, and the revision after it: what the transaction wrote stays when the revision raises.\<close>

definition adopt_row ::
  "(bytes \<Rightarrow> bytes) \<Rightarrow> lease_book_config \<Rightarrow> int \<Rightarrow> bytes \<Rightarrow> rat \<Rightarrow> lease_book \<Rightarrow> (lease_book \<times> bytes) res" where
  "adopt_row H cfg k secret now s =
     (if (case lb_latest s of None \<Rightarrow> False | Some latest \<Rightarrow> k < latest)
      then Inl (ValueError (''checkpoint '' @ int_str k @ '' is older than the adopted ''
             @ int_str (case lb_latest s of None \<Rightarrow> 0 | Some latest \<Rightarrow> latest)))
      else bind_res
        (if lb_latest s = Some k then Inr s
         else bind_res (secret_commitment H secret k) (\<lambda>c.
           if \<not> sql_int k then Inl OverflowError
           else if list_ex (\<lambda>r. sr_k r = k) (lb_secrets s) then Inl IntegrityError
           else let row = \<lparr>sr_k = k, sr_secret = secret, sr_commitment = c, sr_adopted_at = now, sr_revealed_at = None\<rparr>;
                    retired = k - lc_max_lag cfg
                in Inr (s\<lparr>lb_secrets := map (reveal_secret retired now) (lb_secrets s @ [row]), lb_latest := Some k,
                          lb_leases := filter (\<lambda>l. \<not> (rl_k l < retired - lc_max_lag cfg \<and> \<not> is_open_lease l)) (lb_leases s)\<rparr>)))
        (\<lambda>s'.
          case find (\<lambda>r. sr_k r = k) (lb_secrets s') of
            None \<Rightarrow> Inl (TypeError ''NoneType'')
          | Some row \<Rightarrow> Inr (s', sr_commitment row)))"

definition adopt_checkpoint ::
  "(bytes \<Rightarrow> bytes) \<Rightarrow> lease_book_config \<Rightarrow> (string \<Rightarrow> int res) \<Rightarrow> int \<Rightarrow> bytes \<Rightarrow> rat \<Rightarrow> lease_book \<Rightarrow> lease_book \<times> bytes res" where
  "adopt_checkpoint H cfg cooldown_of k secret now s =
     (case bind_res (u64 k) (\<lambda>_. adopt_row H cfg k secret now s) of
        Inl e \<Rightarrow> (s, Inl e)
      | Inr (s', c) \<Rightarrow>
          if lb_latest s = Some k then (s', Inr c)
          else case revise_cooldowns cfg cooldown_of s' of
                 Inl e \<Rightarrow> (s', Inl e)
               | Inr (s'', shortened) \<Rightarrow> (s'', Inr c))"

record commitments_view =
  cv_latest :: "int option"
  cv_max_lag :: int
  cv_active :: "(int \<times> bytes) list"
  cv_revealed :: "(int \<times> bytes \<times> bytes) list"

definition MAX_REVEALED_LISTED :: nat where "MAX_REVEALED_LISTED = 64"

definition commitments :: "lease_book_config \<Rightarrow> lease_book \<Rightarrow> commitments_view" where
  "commitments cfg s =
     (let rows = sort_key sr_k (lb_secrets s);
          revealed = map (\<lambda>r. (sr_k r, sr_commitment r, sr_secret r)) (filter (\<lambda>r. sr_revealed_at r \<noteq> None) rows)
      in \<lparr>cv_latest = lb_latest s, cv_max_lag = lc_max_lag cfg,
          cv_active = map (\<lambda>r. (sr_k r, sr_commitment r)) (filter (\<lambda>r. sr_revealed_at r = None) rows),
          cv_revealed = drop (length revealed - MAX_REVEALED_LISTED) revealed\<rparr>)"

section \<open>The miners' view\<close>

record prompt_view =
  pv_latest :: "int option"
  pv_cursor :: int
  pv_more :: bool
  pv_scans :: "scan_row list"
  pv_prompts :: "((string \<times> int) \<times> prompt_row) list"

definition in_view :: "int \<Rightarrow> string option \<Rightarrow> int \<Rightarrow> string \<Rightarrow> bool" where
  "in_view since environment seq env \<longleftrightarrow> since < seq \<and> (case environment of None \<Rightarrow> True | Some e \<Rightarrow> env = e)"

text \<open>\<^verbatim>\<open>_u64(since)\<close> first; a cursor past SQLite's integers is refused by the first query.\<close>

definition rl_prompt_state :: "int \<Rightarrow> string option \<Rightarrow> nat \<Rightarrow> lease_book \<Rightarrow> prompt_view res" where
  "rl_prompt_state since environment limit s =
     bind_res (u64 since) (\<lambda>_.
       if \<not> sql_int since then Inl OverflowError
       else let found = sort_key sc_seq (filter (\<lambda>c. in_view since environment (sc_seq c) (sc_env c)) (lb_scans s));
                more = limit < length found;
                page = take limit found;
                cursor = (if page = [] then since else sc_seq (last page));
                states = filter (\<lambda>(key, r). in_view since environment (ps_seq r) (fst key)) (lb_prompts s);
                cursor' = (if more then cursor else max cursor (fold max (map (\<lambda>(key, r). ps_seq r) states) 0))
            in Inr \<lparr>pv_latest = lb_latest s, pv_cursor = cursor', pv_more = more, pv_scans = page,
                    pv_prompts = sort_key (\<lambda>(key, r). ps_seq r) (filter (\<lambda>(key, r). ps_seq r \<le> cursor') states)\<rparr>)"

end
