(* ===== verification/Rl_Lease_Laws.thy ===== *)
theory Rl_Lease_Laws
  imports Rl_Leases
begin

text \<open>
  The steps of the lease book, the invariant of its tables, and that every step keeps it.
\<close>

section \<open>Steps\<close>

definition inputs_ok :: "lease_inputs \<Rightarrow> bool" where
  "inputs_ok inp \<longleftrightarrow> (\<forall>xs. mset (li_rows inp xs) = mset xs) \<and> (\<forall>xs. mset (li_shuffle inp xs) = mset xs)"

text \<open>
  What a caller may do inside a transaction of its own, which the book's operations join
  (\<^verbatim>\<open>LeaseBook.transaction\<close>): the submission path submits, records the outcome and credits.
\<close>

inductive joined_op :: "lease_book_config \<Rightarrow> quota_config \<Rightarrow> lease_book \<Rightarrow> lease_book \<Rightarrow> bool" for cfg qc where
  joined_submit: "inputs_ok inp \<Longrightarrow> joined_op cfg qc s (fst (submit cfg qc inp lease_id hotkey in_zone delivered now s))"
| joined_outcome: "record_outcome cfg environment prompt_idx checkpoint rewards verdict cooldown now s = Inr (s', c) \<Longrightarrow> joined_op cfg qc s s'"
| joined_credit: "credit qc lease_id now s = Inr s' \<Longrightarrow> joined_op cfg qc s s'"
| joined_ban: "joined_op cfg qc s (ban hotkey until s)"

text \<open>
  The operations of the book, in any order and at any times. The flag marks a transaction that was rolled back after it
  had begun, of a grant that raised or of a caller's: the tables are as before it, its effects in memory stay.
\<close>

inductive lb_step :: "(bytes \<Rightarrow> bytes) \<Rightarrow> lease_book_config \<Rightarrow> quota_config \<Rightarrow> bool \<Rightarrow> lease_book \<Rightarrow> lease_book \<Rightarrow> bool"
  for H cfg qc where
  step_adopt: "lb_step H cfg qc False s (fst (adopt_checkpoint H cfg cooldown_of k secret now s))"
| step_boot: "lb_step H cfg qc False s (boot qc now s)"
| step_alive: "lb_step H cfg qc False s (mark_alive now s)"
| step_expire: "inputs_ok inp \<Longrightarrow> lb_step H cfg qc False s (fst (expire_due cfg qc inp now s))"
| step_forfeit: "lb_step H cfg qc False s (fst (forfeit cfg qc inp lease_id hotkey now s))"
| step_grant: "inputs_ok inp \<Longrightarrow> rl_grant H cfg qc inp requests now s = (s', Inr answers) \<Longrightarrow> lb_step H cfg qc False s s'"
| step_grant_failed: "inputs_ok inp \<Longrightarrow> rl_grant H cfg qc inp requests now s = (s', Inl e) \<Longrightarrow> lb_step H cfg qc True s s'"
| step_undone: "(joined_op cfg qc)\<^sup>*\<^sup>* s t \<Longrightarrow> lb_step H cfg qc True s (rolled_back s t)"
| step_check: "inputs_ok inp \<Longrightarrow> lb_step H cfg qc False s (fst (check_submission cfg qc inp lease_id hotkey now s))"
| step_hold: "inputs_ok inp \<Longrightarrow> lb_step H cfg qc False s (fst (hold_submission cfg qc inp lease_id hotkey now s))"
| step_release: "lb_step H cfg qc False s (release_submission lease_id s)"
| step_submit: "inputs_ok inp \<Longrightarrow> lb_step H cfg qc False s (fst (submit cfg qc inp lease_id hotkey in_zone delivered now s))"
| step_credit: "credit qc lease_id now s = Inr s' \<Longrightarrow> lb_step H cfg qc False s s'"
| step_ban: "lb_step H cfg qc False s (ban hotkey until s)"
| step_outcome: "record_outcome cfg environment prompt_idx checkpoint rewards verdict cooldown now s = Inr (s', c)
    \<Longrightarrow> lb_step H cfg qc False s s'"
| step_revise: "lb_step H cfg qc False s (after_revision cfg cooldown_of s)"
| step_drain: "lb_step H cfg qc False s (fst (drain_full s))"
| step_drain_lane: "lb_step H cfg qc False s (fst (drain_lane_full s))"

section \<open>Lists of rows\<close>

lemma distinct_filter_map:
  assumes "distinct (map key (filter P xs))" "\<And>x. x \<in> set xs \<Longrightarrow> key (f x) = key x" "\<And>x. x \<in> set xs \<Longrightarrow> P (f x) \<Longrightarrow> P x"
  shows "distinct (map key (filter P (map f xs)))"
  using assms
proof (induction xs)
  case (Cons a xs)
  have rest: "distinct (map key (filter P (map f xs)))"
    using Cons.prems by (intro Cons.IH) (auto split: if_splits)
  have "key (f x) \<noteq> key (f a)" if "x \<in> set xs" "P (f x)" "P (f a)" for x
  proof -
    have "P x" "P a" using Cons.prems(3) that by auto
    then have "key x \<noteq> key a" using Cons.prems(1) that(1) by (force simp: image_iff)
    then show ?thesis using Cons.prems(2) that(1) by simp
  qed
  with rest show ?case by (auto simp: image_iff) metis
qed simp

lemma distinct_filter_filter: "distinct (map key (filter P xs)) \<Longrightarrow> distinct (map key (filter P (filter Q xs)))"
  by (induction xs) auto

lemma distinct_filter_snoc:
  "distinct (map key (filter P xs)) \<Longrightarrow> (P x \<Longrightarrow> \<forall>y \<in> set xs. P y \<longrightarrow> key y \<noteq> key x) \<Longrightarrow> distinct (map key (filter P (xs @ [x])))"
  by (auto simp: image_iff)

lemma fold_max_ge: "(m :: 'a :: linorder) \<le> fold max xs m" "x \<in> set xs \<Longrightarrow> x \<le> fold max xs m"
proof -
  show ge: "m \<le> fold max xs m" for m :: 'a and xs
  proof (induction xs arbitrary: m)
    case (Cons y ys)
    show ?case using Cons [of "max y m"] by simp
  qed simp
  show "x \<in> set xs \<Longrightarrow> x \<le> fold max xs m"
  proof (induction xs arbitrary: m)
    case (Cons y ys)
    then show ?case using ge [of "max y m" ys] by auto
  qed simp
qed

lemma fold_max_in: "fold max xs m \<in> insert m (set xs)"
  for m :: "'a :: linorder"
proof (induction xs arbitrary: m)
  case (Cons y ys)
  have "fold max ys (max y m) \<in> insert (max y m) (set ys)" by (rule Cons)
  then show ?case by (cases "y \<le> m") (auto simp: max_absorb1 max_absorb2)
qed simp

lemma set_perm: "mset xs = mset ys \<Longrightarrow> set xs = set ys"
  by (rule mset_eq_setD)

lemma find_some: "find P xs = Some x \<Longrightarrow> x \<in> set xs \<and> P x"
  by (induction xs) (auto split: if_splits)

section \<open>Leases\<close>

abbreviation lease_key :: "rl_lease \<Rightarrow> string \<times> int \<times> int" where
  "lease_key l \<equiv> (rl_env l, rl_prompt l, rl_k l)"

abbreviation prompt_key :: "rl_lease \<Rightarrow> string \<times> int" where
  "prompt_key l \<equiv> (rl_env l, rl_prompt l)"

text \<open>
  Ids are distinct, a key has at most one live lease, a prompt at most one open one, and a submitted lease has
  the time it was closed at.
\<close>

definition leases_ok :: "rl_lease list \<Rightarrow> bool" where
  "leases_ok ls \<longleftrightarrow> distinct (map rl_id ls) \<and> distinct (map lease_key (filter is_live ls))
     \<and> distinct (map prompt_key (filter is_open_lease ls)) \<and> (\<forall>l \<in> set ls. rl_state l = LSubmitted \<longrightarrow> rl_closed l \<noteq> None)"

lemma leases_ok_Nil [simp]: "leases_ok []"
  by (simp add: leases_ok_def)

text \<open>A row-wise change that keeps keys and revives nothing keeps the invariant.\<close>

lemma leases_ok_map:
  assumes "leases_ok ls" "\<And>l. l \<in> set ls \<Longrightarrow> rl_id (f l) = rl_id l \<and> lease_key (f l) = lease_key l"
    and "\<And>l. l \<in> set ls \<Longrightarrow> is_live (f l) \<Longrightarrow> is_live l" "\<And>l. l \<in> set ls \<Longrightarrow> is_open_lease (f l) \<Longrightarrow> is_open_lease l"
    and "\<And>l. l \<in> set ls \<Longrightarrow> rl_state (f l) = LSubmitted \<Longrightarrow> rl_closed (f l) \<noteq> None"
  shows "leases_ok (map f ls)"
proof -
  have "map rl_id (map f ls) = map rl_id ls" using assms(2) by simp
  then have "distinct (map rl_id (map f ls))" using assms(1) by (simp only: leases_ok_def)
  moreover have "distinct (map lease_key (filter is_live (map f ls)))"
    using assms(1-3) by (intro distinct_filter_map) (auto simp: leases_ok_def)
  moreover have "distinct (map prompt_key (filter is_open_lease (map f ls)))"
    using assms(1,2,4) by (intro distinct_filter_map) (auto simp: leases_ok_def)
  ultimately show ?thesis using assms(5) unfolding leases_ok_def by auto
qed

lemma leases_ok_filter: "leases_ok ls \<Longrightarrow> leases_ok (filter P ls)"
  unfolding leases_ok_def by (intro conjI) (simp_all add: distinct_map_filter distinct_filter_filter del: filter_filter)

lemma leases_ok_unique:
  assumes "leases_ok ls" "l \<in> set ls" "m \<in> set ls" "rl_id l = rl_id m"
  shows "l = m"
  using assms by (auto simp: leases_ok_def distinct_map inj_on_def)

lemma update_lease_simps [simp]:
  "lb_quota (update_lease i f s) = lb_quota s" "lb_quota_table (update_lease i f s) = lb_quota_table s"
  "lb_submitting (update_lease i f s) = lb_submitting s" "lb_bans (update_lease i f s) = lb_bans s"
  "lb_latest (update_lease i f s) = lb_latest s" "lb_secrets (update_lease i f s) = lb_secrets s"
  "lb_prompts (update_lease i f s) = lb_prompts s" "lb_scans (update_lease i f s) = lb_scans s"
  "lb_seq (update_lease i f s) = lb_seq s" "lb_downtime (update_lease i f s) = lb_downtime s"
  "lb_leases (update_lease i f s) = map (\<lambda>l. if rl_id l = i then f l else l) (lb_leases s)"
  by (simp_all add: update_lease_def)

lemma save_quota_simps [simp]:
  "lb_quota (save_quota qc h q s) = q"
  "lb_quota_table (save_quota qc h q s) = dset h (quota_entry_of qc q h) (lb_quota_table s)"
  "lb_submitting (save_quota qc h q s) = lb_submitting s" "lb_bans (save_quota qc h q s) = lb_bans s"
  "lb_latest (save_quota qc h q s) = lb_latest s" "lb_secrets (save_quota qc h q s) = lb_secrets s"
  "lb_prompts (save_quota qc h q s) = lb_prompts s" "lb_scans (save_quota qc h q s) = lb_scans s"
  "lb_seq (save_quota qc h q s) = lb_seq s" "lb_downtime (save_quota qc h q s) = lb_downtime s"
  "lb_leases (save_quota qc h q s) = lb_leases s"
  by (simp_all add: save_quota_def)

lemma close_lease_simps [simp]:
  "rl_id (close_lease st now c l) = rl_id l" "rl_env (close_lease st now c l) = rl_env l"
  "rl_prompt (close_lease st now c l) = rl_prompt l" "rl_k (close_lease st now c l) = rl_k l"
  "rl_hotkey (close_lease st now c l) = rl_hotkey l" "rl_nonce (close_lease st now c l) = rl_nonce l"
  "rl_state (close_lease st now c l) = st" "rl_closed (close_lease st now c l) = Some now"
  by (simp_all add: close_lease_def)

text \<open>The tables other than the leases and the quota, and the submissions held.\<close>

definition same_rest :: "lease_book \<Rightarrow> lease_book \<Rightarrow> bool" where
  "same_rest s t \<longleftrightarrow> lb_submitting t = lb_submitting s \<and> lb_bans t = lb_bans s \<and> lb_latest t = lb_latest s
     \<and> lb_secrets t = lb_secrets s \<and> lb_prompts t = lb_prompts s \<and> lb_scans t = lb_scans s \<and> lb_seq t = lb_seq s"

lemma same_rest_refl [simp]: "same_rest s s"
  by (simp add: same_rest_def)

lemma same_rest_trans: "same_rest s t \<Longrightarrow> same_rest t u \<Longrightarrow> same_rest s u"
  by (simp add: same_rest_def)

text \<open>A lease closed without a submission.\<close>

lemma close_unsubmitted_cases:
  obtains st cause q where "st = LExpired \<or> st = LReleased"
    "q = quota_expiry qc (rl_hotkey l) now ''expired'' (lb_quota s) \<or> q = record_release qc (rl_hotkey l) (lb_quota s)"
    "close_unsubmitted cfg qc inp now charged l s = save_quota qc (rl_hotkey l) q (update_lease (rl_id l) (close_lease st now cause) s)"
  by (cases "ending_of cfg inp s l now charged") (auto simp: close_unsubmitted_def)

lemma close_unsubmitted_rest: "same_rest s (close_unsubmitted cfg qc inp now charged l s)"
  by (rule close_unsubmitted_cases [of qc l now s cfg inp charged]) (simp add: same_rest_def)

lemma close_unsubmitted_leases:
  assumes "leases_ok (lb_leases s)"
  shows "leases_ok (lb_leases (close_unsubmitted cfg qc inp now charged l s))"
proof -
  obtain st cause q where c: "st = LExpired \<or> st = LReleased"
    "close_unsubmitted cfg qc inp now charged l s = save_quota qc (rl_hotkey l) q (update_lease (rl_id l) (close_lease st now cause) s)"
    by (rule close_unsubmitted_cases [of qc l now s cfg inp charged])
  show ?thesis unfolding c(2) save_quota_simps update_lease_simps
    using assms c(1) by (intro leases_ok_map [OF assms]) (auto simp: leases_ok_def split: if_splits)
qed

lemma expire_leases_rest: "same_rest s (expire_leases cfg qc inp now s)"
proof -
  have "same_rest s (fold (close_unsubmitted cfg qc inp now charged) ls s)" for charged ls
  proof (induction ls arbitrary: s)
    case (Cons l ls)
    show ?case using same_rest_trans [OF close_unsubmitted_rest Cons.IH] by simp
  qed simp
  then show ?thesis by (simp add: expire_leases_def)
qed

lemma expire_leases_ok:
  assumes "leases_ok (lb_leases s)"
  shows "leases_ok (lb_leases (expire_leases cfg qc inp now s))"
proof -
  have "leases_ok (lb_leases s) \<Longrightarrow> leases_ok (lb_leases (fold (close_unsubmitted cfg qc inp now charged) ls s))" for charged ls
    by (induction ls arbitrary: s) (simp_all add: close_unsubmitted_leases)
  then show ?thesis using assms by (simp add: expire_leases_def)
qed

section \<open>Claims\<close>

text \<open>What the guards of a claim leave when they let it through.\<close>

lemma not_blacklisted: "st \<noteq> PBlacklisted \<longleftrightarrow> st = PCooldown"
  by (cases st) auto

lemma judge_Grantable:
  assumes "judge_claim cfg la rq prompt s room = Inr (Grantable secret)"
  shows "leasable_secret s (rq_k rq) = Some secret" "sql_int prompt" "0 < room"
    "\<And>l. l \<in> set (lb_leases s) \<Longrightarrow> rl_env l = rq_env rq \<Longrightarrow> rl_prompt l = prompt
       \<Longrightarrow> \<not> is_open_lease l \<and> \<not> (rl_k l = rq_k rq \<and> rl_state l = LSubmitted)"
    "case dget (lb_prompts s) (rq_env rq, prompt) of None \<Rightarrow> True
      | Some r \<Rightarrow> ps_status r = PCooldown \<and> (\<exists>latest until. lb_latest s = Some latest \<and> ps_until r = Some until \<and> until \<le> latest)"
proof -
  from assms show "leasable_secret s (rq_k rq) = Some secret" "sql_int prompt" "0 < room"
    by (auto simp: judge_claim_def capacity_verdict_def bind_res_Inr_iff split: option.splits if_splits)
  from assms show "\<not> is_open_lease l \<and> \<not> (rl_k l = rq_k rq \<and> rl_state l = LSubmitted)"
    if "l \<in> set (lb_leases s)" "rl_env l = rq_env rq" "rl_prompt l = prompt" for l
    using that by (auto simp: judge_claim_def claim_taken_def list_ex_iff split: option.splits if_splits)
  from assms have "prompt_refusal s (rq_env rq) prompt = Inr None"
    by (auto simp: judge_claim_def bind_res_Inr_iff split: option.splits if_splits)
  then show "case dget (lb_prompts s) (rq_env rq, prompt) of None \<Rightarrow> True
      | Some r \<Rightarrow> ps_status r = PCooldown \<and> (\<exists>latest until. lb_latest s = Some latest \<and> ps_until r = Some until \<and> until \<le> latest)"
    by (auto simp: prompt_refusal_def not_less not_blacklisted split: option.splits if_splits)
qed

definition new_lease :: "lease_book_config \<Rightarrow> rl_lease_request \<Rightarrow> int \<Rightarrow> bytes \<Rightarrow> string \<Rightarrow> rat \<Rightarrow> rl_lease" where
  "new_lease cfg rq prompt nonce token now =
     \<lparr>rl_id = token, rl_hotkey = rq_hotkey rq, rl_env = rq_env rq, rl_prompt = prompt, rl_k = rq_k rq, rl_nonce = nonce,
      rl_issued = now, rl_expires = now + dget_or (lc_expiry_s cfg) (rq_env rq) 0, rl_state = LOpen, rl_closed = None, rl_cause = None\<rparr>"

lemma new_lease_simps [simp]:
  "rl_id (new_lease cfg rq prompt nonce token now) = token" "rl_hotkey (new_lease cfg rq prompt nonce token now) = rq_hotkey rq"
  "rl_env (new_lease cfg rq prompt nonce token now) = rq_env rq" "rl_prompt (new_lease cfg rq prompt nonce token now) = prompt"
  "rl_k (new_lease cfg rq prompt nonce token now) = rq_k rq" "rl_nonce (new_lease cfg rq prompt nonce token now) = nonce"
  "rl_state (new_lease cfg rq prompt nonce token now) = LOpen"
  by (simp_all add: new_lease_def)

text \<open>A claim that does not raise is refused, or granted.\<close>

definition refuse_claim :: "nat \<times> int \<Rightarrow> lease_refusal \<Rightarrow> string list \<Rightarrow> string list \<Rightarrow> grant_state \<Rightarrow> grant_state" where
  "refuse_claim c r full lane g =
     g\<lparr>gs_refused := dset c r (gs_refused g), gs_book := (gs_book g)\<lparr>lb_full := full, lb_lane_full := lane\<rparr>\<rparr>"

definition give_claim :: "quota_config \<Rightarrow> nat \<times> int \<Rightarrow> rl_lease \<Rightarrow> rat \<Rightarrow> grant_state \<Rightarrow> grant_state" where
  "give_claim qc c l now g =
     (let s = (gs_book g)\<lparr>lb_leases := lb_leases (gs_book g) @ [l]\<rparr>; h = rl_hotkey l
      in g\<lparr>gs_room := dset h (dget_or (gs_room g) h 0 - 1) (gs_room g),
           gs_book := save_quota qc h (record_lease qc h now (lb_quota s)) s, gs_granted := dset c l (gs_granted g)\<rparr>)"

lemma grant_claim_cases:
  assumes "grant_claim H cfg qc inp requests la now c g = Inr g'"
  obtains (refused) r full lane where "g' = refuse_claim c r full lane g"
      "r = RFull \<or> judge_claim cfg la (requests ! fst c) (snd c) (gs_book g) (dget_or (gs_room g) (rq_hotkey (requests ! fst c)) 0) = Inr (Refuse r)"
  | (granted) secret nonce l where "judge_claim cfg la (requests ! fst c) (snd c) (gs_book g) (dget_or (gs_room g) (rq_hotkey (requests ! fst c)) 0)
        = Inr (Grantable secret)"
      "lease_nonce H secret (rq_env (requests ! fst c)) (snd c) (rq_k (requests ! fst c)) = Inr nonce"
      "l = new_lease cfg (requests ! fst c) (snd c) nonce (li_token inp c) now"
      "\<forall>m \<in> set (lb_leases (gs_book g)). rl_id m \<noteq> rl_id l" "g' = give_claim qc c l now g"
proof -
  from assms obtain v where v: "judge_claim cfg la (requests ! fst c) (snd c) (gs_book g) (dget_or (gs_room g) (rq_hotkey (requests ! fst c)) 0) = Inr v"
    by (auto simp: grant_claim_def Let_def bind_res_Inr_iff)
  show thesis
  proof (cases v)
    case (Refuse r)
    then have "g' = refuse_claim c r (lb_full (gs_book g)) (lb_lane_full (gs_book g)) g"
      using assms v by (cases g) (auto simp: grant_claim_def Let_def refuse_claim_def)
    then show ?thesis using v Refuse by (intro refused) auto
  next
    case RefuseLane
    then have "g' = refuse_claim c RFull (lb_full (gs_book g)) (List.insert (rq_env (requests ! fst c)) (lb_lane_full (gs_book g))) g"
      using assms v by (simp add: grant_claim_def Let_def refuse_claim_def)
    then show ?thesis by (rule refused) simp
  next
    case RefuseCap
    then have "g' = refuse_claim c RFull (List.insert (rq_env (requests ! fst c)) (lb_full (gs_book g))) (lb_lane_full (gs_book g)) g"
      using assms v by (simp add: grant_claim_def Let_def refuse_claim_def)
    then show ?thesis by (rule refused) simp
  next
    case (Grantable secret)
    with assms v obtain nonce where n: "lease_nonce H secret (rq_env (requests ! fst c)) (snd c) (rq_k (requests ! fst c)) = Inr nonce"
      by (auto simp: grant_claim_def Let_def bind_res_Inr_iff)
    define l where "l = new_lease cfg (requests ! fst c) (snd c) nonce (li_token inp c) now"
    from assms v Grantable n obtain s' where s': "insert_lease l (gs_book g) = Inr s'"
        "g' = g\<lparr>gs_room := dset (rl_hotkey l) (dget_or (gs_room g) (rl_hotkey l) 0 - 1) (gs_room g),
                gs_book := save_quota qc (rl_hotkey l) (record_lease qc (rl_hotkey l) now (lb_quota s')) s', gs_granted := dset c l (gs_granted g)\<rparr>"
      by (auto simp: grant_claim_def Let_def bind_res_Inr_iff l_def new_lease_def)
    then have "\<forall>m \<in> set (lb_leases (gs_book g)). rl_id m \<noteq> rl_id l" "s' = (gs_book g)\<lparr>lb_leases := lb_leases (gs_book g) @ [l]\<rparr>"
      by (auto simp: insert_lease_def list_ex_iff split: if_splits)
    with s'(2) show ?thesis using v Grantable n l_def by (intro granted) (auto simp: give_claim_def Let_def)
  qed
qed

lemma grant_claims_invariant:
  assumes "P g" "\<And>c g g'. c \<in> set cs \<Longrightarrow> P g \<Longrightarrow> f c g = Inr g' \<Longrightarrow> P g'"
  shows "P (fst (grant_claims f cs g))"
  using assms
proof (induction cs arbitrary: g)
  case (Cons c cs)
  show ?case
  proof (cases "f c g")
    case (Inr g')
    then have "P g'" using Cons.prems by (meson list.set_intros(1))
    then have "P (fst (grant_claims f cs g'))"
    proof (rule Cons.IH)
      show "P g3" if "c2 \<in> set cs" "P g2" "f c2 g2 = Inr g3" for c2 g2 g3
        using Cons.prems(2) [of c2 g2 g3] that by simp
    qed
    then show ?thesis using Inr by simp
  qed (use Cons.prems in simp)
qed simp

lemma refuse_claim_simps [simp]:
  "lb_leases (gs_book (refuse_claim c r full lane g)) = lb_leases (gs_book g)"
  "lb_quota (gs_book (refuse_claim c r full lane g)) = lb_quota (gs_book g)"
  "lb_quota_table (gs_book (refuse_claim c r full lane g)) = lb_quota_table (gs_book g)"
  "lb_prompts (gs_book (refuse_claim c r full lane g)) = lb_prompts (gs_book g)"
  "lb_secrets (gs_book (refuse_claim c r full lane g)) = lb_secrets (gs_book g)"
  "lb_latest (gs_book (refuse_claim c r full lane g)) = lb_latest (gs_book g)"
  "lb_submitting (gs_book (refuse_claim c r full lane g)) = lb_submitting (gs_book g)"
  "gs_room (refuse_claim c r full lane g) = gs_room g" "gs_granted (refuse_claim c r full lane g) = gs_granted g"
  "gs_refused (refuse_claim c r full lane g) = dset c r (gs_refused g)" "gs_claims (refuse_claim c r full lane g) = gs_claims g"
  "same_rest s (gs_book (refuse_claim c r full lane g)) = same_rest s (gs_book g)"
  by (simp_all add: refuse_claim_def same_rest_def)

lemma give_claim_simps [simp]:
  "lb_leases (gs_book (give_claim qc c l now g)) = lb_leases (gs_book g) @ [l]"
  "lb_quota (gs_book (give_claim qc c l now g)) = record_lease qc (rl_hotkey l) now (lb_quota (gs_book g))"
  "lb_quota_table (gs_book (give_claim qc c l now g)) = dset (rl_hotkey l)
     (quota_entry_of qc (record_lease qc (rl_hotkey l) now (lb_quota (gs_book g))) (rl_hotkey l)) (lb_quota_table (gs_book g))"
  "gs_room (give_claim qc c l now g) = dset (rl_hotkey l) (dget_or (gs_room g) (rl_hotkey l) 0 - 1) (gs_room g)"
  "gs_granted (give_claim qc c l now g) = dset c l (gs_granted g)" "gs_refused (give_claim qc c l now g) = gs_refused g"
  "gs_claims (give_claim qc c l now g) = gs_claims g"
  "same_rest s (gs_book (give_claim qc c l now g)) = same_rest s (gs_book g)"
  "lb_secrets (gs_book (give_claim qc c l now g)) = lb_secrets (gs_book g)"
  by (simp_all add: give_claim_def Let_def same_rest_def)

text \<open>The unique index is never violated: a claim let through is the only live lease of its key.\<close>

lemma grant_claim_leases:
  assumes "grant_claim H cfg qc inp requests la now c g = Inr g'" "leases_ok (lb_leases (gs_book g))"
  shows "leases_ok (lb_leases (gs_book g'))"
  using assms(1)
proof (cases rule: grant_claim_cases)
  case (granted secret nonce l)
  note free = judge_Grantable(4) [OF granted(1)]
  have "distinct (map lease_key (filter is_live (lb_leases (gs_book g) @ [l])))"
    using assms(2) free granted(3) by (intro distinct_filter_snoc) (auto simp: leases_ok_def)
  moreover have "distinct (map prompt_key (filter is_open_lease (lb_leases (gs_book g) @ [l])))"
    using assms(2) free granted(3) by (intro distinct_filter_snoc) (auto simp: leases_ok_def)
  ultimately show ?thesis
    using assms(2) granted(3,4) unfolding leases_ok_def granted(5) give_claim_simps by auto
qed (use assms(2) in simp)

section \<open>A grant as a whole\<close>

lemma ask_prompt_frame: "gs_book (snd (ask_prompt i rq p ag)) = gs_book (snd ag) \<and> gs_room (snd (ask_prompt i rq p ag)) = gs_room (snd ag)"
  by (auto simp: ask_prompt_def Let_def split: option.split)

lemma ask_request_frame: "gs_book (ask_request ir g) = gs_book g \<and> gs_room (ask_request ir g) = gs_room g"
proof -
  have "gs_book (snd (fold (ask_prompt i rq) ps ag)) = gs_book (snd ag) \<and> gs_room (snd (fold (ask_prompt i rq) ps ag)) = gs_room (snd ag)"
    for i rq ps ag
    by (induction ps arbitrary: ag) (simp_all add: ask_prompt_frame)
  then show ?thesis by (simp add: ask_request_def)
qed

lemma grant_asked_frame:
  "gs_book (grant_asked cfg qc requests now s) = s"
  "gs_room (grant_asked cfg qc requests now s) = map (\<lambda>h. (h, room_of cfg qc now s h)) (remdups (map rq_hotkey requests))"
proof -
  have "gs_book (fold ask_request irs g) = gs_book g \<and> gs_room (fold ask_request irs g) = gs_room g" for irs g
    by (induction irs arbitrary: g) (simp_all add: ask_request_frame)
  then show "gs_book (grant_asked cfg qc requests now s) = s"
    "gs_room (grant_asked cfg qc requests now s) = map (\<lambda>h. (h, room_of cfg qc now s h)) (remdups (map rq_hotkey requests))"
    by (simp_all add: grant_asked_def)
qed

text \<open>The state the claims of a grant end in, whether one raised or not.\<close>

definition claimed ::
  "(bytes \<Rightarrow> bytes) \<Rightarrow> lease_book_config \<Rightarrow> quota_config \<Rightarrow> lease_inputs \<Rightarrow> rl_lease_request list \<Rightarrow> rat \<Rightarrow> lease_book
     \<Rightarrow> grant_state \<times> py_error option" where
  "claimed H cfg qc inp requests now s0 =
     (let g1 = grant_asked cfg qc requests now (expire_leases cfg qc inp now s0); claims = li_shuffle inp (gs_claims g1)
      in grant_claims (grant_claim H cfg qc inp requests (lanes_of cfg inp (claims \<noteq> [])) now) claims g1)"

lemma grant_Inr:
  assumes "rl_grant H cfg qc inp requests now s = (s', Inr answers)"
  obtains g where "claimed H cfg qc inp requests now s = (g, None)" "s' = gs_book g"
    "answers = map (answer_of g) (enumerate 0 requests)" "fold_res (\<lambda>rq u. check_request cfg rq) requests () = Inr ()"
  using assms
  by (auto simp: rl_grant_def claimed_def Let_def split: sum.splits prod.splits option.splits)

lemma grant_Inl:
  assumes "rl_grant H cfg qc inp requests now s = (s', Inl e)"
  obtains "s' = s" | "s' = rolled_back s (gs_book (fst (claimed H cfg qc inp requests now s)))"
  using assms
  by (auto simp: rl_grant_def claimed_def Let_def split: sum.splits prod.splits option.splits)

lemma claimed_invariant:
  assumes "\<And>g. gs_book g = expire_leases cfg qc inp now s \<Longrightarrow>
      gs_room g = map (\<lambda>h. (h, room_of cfg qc now (gs_book g) h)) (remdups (map rq_hotkey requests)) \<Longrightarrow> P g"
    and "\<And>c g g' la. P g \<Longrightarrow> grant_claim H cfg qc inp requests la now c g = Inr g' \<Longrightarrow> P g'"
  shows "P (fst (claimed H cfg qc inp requests now s))"
  unfolding claimed_def Let_def
proof (rule grant_claims_invariant)
  show "P (grant_asked cfg qc requests now (expire_leases cfg qc inp now s))"
    by (rule assms(1)) (simp_all add: grant_asked_frame)
qed (rule assms(2))

lemma claimed_leases:
  "leases_ok (lb_leases s) \<Longrightarrow> leases_ok (lb_leases (gs_book (fst (claimed H cfg qc inp requests now s))))"
  by (rule claimed_invariant) (simp_all add: expire_leases_ok grant_claim_leases)

lemma claimed_rest: "same_rest s (gs_book (fst (claimed H cfg qc inp requests now s)))"
proof (rule claimed_invariant)
  show "same_rest s (gs_book g')" if "same_rest s (gs_book g)" "grant_claim H cfg qc inp requests la now c g = Inr g'" for c g g' la
    using that(2,1) by (cases rule: grant_claim_cases) simp_all
qed (simp add: expire_leases_rest)

section \<open>Each step on the leases\<close>

lemma extend_open_simps [simp]:
  "rl_id (extend_open d l) = rl_id l" "rl_env (extend_open d l) = rl_env l" "rl_prompt (extend_open d l) = rl_prompt l"
  "rl_k (extend_open d l) = rl_k l" "rl_state (extend_open d l) = rl_state l" "rl_closed (extend_open d l) = rl_closed l"
  "rl_hotkey (extend_open d l) = rl_hotkey l" "rl_nonce (extend_open d l) = rl_nonce l"
  by (simp_all add: extend_open_def)

lemma grace_simps [simp]:
  "rl_id (grace t l) = rl_id l" "rl_env (grace t l) = rl_env l" "rl_prompt (grace t l) = rl_prompt l"
  "rl_k (grace t l) = rl_k l" "rl_state (grace t l) = rl_state l" "rl_closed (grace t l) = rl_closed l"
  "rl_hotkey (grace t l) = rl_hotkey l" "rl_nonce (grace t l) = rl_nonce l"
  by (simp_all add: grace_def)

lemma note_downtime_leases: "lb_leases (lb_note_downtime since now s) = map (if now - since \<le> DOWNTIME_MIN_S then id else extend_open (now - since)) (lb_leases s)"
  by (simp add: lb_note_downtime_def)

lemma note_downtime_ok: "leases_ok (lb_leases s) \<Longrightarrow> leases_ok (lb_leases (lb_note_downtime since now s))"
  unfolding note_downtime_leases by (intro leases_ok_map) (auto simp: leases_ok_def split: if_splits)

lemma mark_alive_ok: "leases_ok (lb_leases s) \<Longrightarrow> leases_ok (lb_leases (mark_alive now s))"
  by (auto simp: mark_alive_def lb_mark_alive_def note_downtime_ok split: option.split)

lemma boot_ok:
  assumes "leases_ok (lb_leases s)"
  shows "leases_ok (lb_leases (boot qc now s))"
proof -
  let ?s = "s\<lparr>lb_full := [], lb_lane_full := [], lb_submitting := [], lb_alive_at := None, lb_quota := lb_quota_table s\<rparr>"
  have "leases_ok (lb_leases (case lb_alive ?s of None \<Rightarrow> ?s | Some t \<Rightarrow> lb_note_downtime t now ?s))"
    using assms by (auto intro!: note_downtime_ok split: option.split)
  then have "leases_ok (map (grace (now + RESTART_GRACE_S)) (lb_leases (case lb_alive ?s of None \<Rightarrow> ?s | Some t \<Rightarrow> lb_note_downtime t now ?s)))"
    by (intro leases_ok_map) (auto simp: leases_ok_def)
  then show ?thesis by (simp add: boot_def Let_def lb_mark_alive_def)
qed

lemma submittable_cases:
  obtains (expired) e where "submittable cfg qc inp i h now s = (expire_leases cfg qc inp now s, Inl e)"
  | (refused) e where "submittable cfg qc inp i h now s = (s, Inl e)"
  | (fit) l where "submittable cfg qc inp i h now s = (s, Inr l)" "book_lease s i = Some l" "rl_hotkey l = h" "is_open_lease l"
      "now < rl_expires l" "\<not> lb_banned s h now"
proof (cases "book_lease s i")
  case None
  then show ?thesis by (intro refused) (simp add: submittable_def)
next
  case (Some l)
  consider "rl_hotkey l \<noteq> h" | "rl_hotkey l = h" "\<not> is_open_lease l" | "rl_hotkey l = h" "is_open_lease l" "rl_expires l \<le> now"
    | "rl_hotkey l = h" "is_open_lease l" "now < rl_expires l" "lb_banned s h now"
    | "rl_hotkey l = h" "is_open_lease l" "now < rl_expires l" "\<not> lb_banned s h now" by (meson not_le)
  then show ?thesis
  proof cases
    case 3
    then show ?thesis using Some by (intro expired) (simp add: submittable_def)
  next
    case 5
    then show ?thesis using Some by (intro fit) (simp_all add: submittable_def)
  qed (use Some in \<open>(intro refused, simp add: submittable_def)+\<close>)
qed

lemma book_lease_some: "book_lease s i = Some l \<Longrightarrow> l \<in> set (lb_leases s) \<and> rl_id l = i"
  unfolding book_lease_def by (rule find_some)

lemma submit_ok:
  assumes "leases_ok (lb_leases s)"
  shows "leases_ok (lb_leases (fst (submit cfg qc inp i h z d now s)))"
proof (cases rule: submittable_cases [of cfg qc inp i h now s])
  case (fit l)
  have l: "l \<in> set (lb_leases s)" "rl_id l = i" using book_lease_some [OF fit(2)] by auto
  have "m = l" if "m \<in> set (lb_leases s)" "rl_id m = i" for m
    using leases_ok_unique [OF assms that(1) l(1)] that(2) l(2) by simp
  then have "leases_ok (map (\<lambda>l. if rl_id l = i then l\<lparr>rl_state := LSubmitted, rl_closed := Some now\<rparr> else l) (lb_leases s))"
    using assms fit(4) by (intro leases_ok_map) (auto simp: leases_ok_def split: if_splits)
  then show ?thesis using fit(1) by (simp add: submit_def)
qed (use assms in \<open>simp_all add: submit_def expire_leases_ok\<close>)

lemma check_ok: "leases_ok (lb_leases s) \<Longrightarrow> leases_ok (lb_leases (fst (check_submission cfg qc inp i h now s)))"
  by (cases rule: submittable_cases [of cfg qc inp i h now s]) (simp_all add: check_submission_def expire_leases_ok)

lemma hold_leases: "lb_leases (fst (hold_submission cfg qc inp i h now s)) = lb_leases (fst (check_submission cfg qc inp i h now s))"
  by (auto simp: hold_submission_def split: prod.split sum.split)

lemma forfeit_ok: "leases_ok (lb_leases s) \<Longrightarrow> leases_ok (lb_leases (fst (forfeit cfg qc inp i h now s)))"
  by (auto simp: forfeit_def close_unsubmitted_leases split: option.split)

text \<open>What a revision of cooldowns leaves alone.\<close>

definition revised_from :: "lease_book \<Rightarrow> lease_book \<Rightarrow> bool" where
  "revised_from s t \<longleftrightarrow> lb_leases t = lb_leases s \<and> lb_quota t = lb_quota s \<and> lb_quota_table t = lb_quota_table s
     \<and> lb_submitting t = lb_submitting s \<and> lb_latest t = lb_latest s \<and> lb_secrets t = lb_secrets s \<and> lb_scans t = lb_scans s"

lemma revise_env_frame: "revised_from (fst a) (fst (revise_env latest ec a))"
  by (cases a) (auto simp: revised_from_def revise_env_def reserve_seq_def Let_def split: option.split)

lemma revise_step:
  "after_revision cfg cd s
     = (case lb_latest s of
          None \<Rightarrow> s
        | Some latest \<Rightarrow> if list_ex (\<lambda>(env, c). \<not> sql_int c) (readable_cooldowns cfg cd) then s
                       else fst (fold (revise_env latest) (readable_cooldowns cfg cd) (s, None, [])))"
  by (simp add: after_revision_def revise_cooldowns_def Let_def split: option.split prod.split)

lemma revise_frame: "revised_from s (after_revision cfg cd s)"
proof -
  have "revised_from (fst a) (fst (fold (revise_env latest) ecs a))" for latest ecs a
  proof (induction ecs arbitrary: a)
    case (Cons ec ecs)
    show ?case using Cons [of "revise_env latest ec a"] revise_env_frame [of a latest ec] by (simp add: revised_from_def)
  qed (simp add: revised_from_def)
  from this [of "(s, None, [])"] show ?thesis
    unfolding revise_step by (cases "lb_latest s") (simp_all add: revised_from_def)
qed

lemma adopt_row_cases:
  assumes "adopt_row H cfg k secret now s = Inr (t, c)" "0 \<le> k"
  obtains (same) "lb_latest s = Some k" "t = s"
  | (new) commit where "\<And>latest. lb_latest s = Some latest \<Longrightarrow> latest < k" "0 \<le> k" "sql_int k" "secret_commitment H secret k = Inr commit"
      "\<And>r. r \<in> set (lb_secrets s) \<Longrightarrow> sr_k r \<noteq> k"
      "t = s\<lparr>lb_secrets := map (reveal_secret (k - lc_max_lag cfg) now)
              (lb_secrets s @ [\<lparr>sr_k = k, sr_secret = secret, sr_commitment = commit, sr_adopted_at = now, sr_revealed_at = None\<rparr>]),
            lb_latest := Some k,
            lb_leases := filter (\<lambda>l. \<not> (rl_k l < k - lc_max_lag cfg - lc_max_lag cfg \<and> \<not> is_open_lease l)) (lb_leases s)\<rparr>"
proof (cases "lb_latest s = Some k")
  case True
  with assms show thesis by (intro same) (auto simp: adopt_row_def bind_res_Inr_iff split: if_splits option.splits)
next
  case False
  from assms False have old: "latest < k" if "lb_latest s = Some latest" for latest
    using that by (auto simp: adopt_row_def bind_res_Inr_iff split: if_splits)
  from assms False obtain commit where commit: "secret_commitment H secret k = Inr commit"
    by (auto simp: adopt_row_def bind_res_Inr_iff split: if_splits)
  from assms False commit have fresh: "sql_int k" "\<not> list_ex (\<lambda>r. sr_k r = k) (lb_secrets s)"
    by (auto simp: adopt_row_def bind_res_Inr_iff split: if_splits)
  show thesis
  proof (rule new [OF old assms(2) fresh(1) commit])
    show "r \<in> set (lb_secrets s) \<Longrightarrow> sr_k r \<noteq> k" for r using fresh(2) by (auto simp: list_ex_iff)
  qed (use assms False commit fresh in \<open>auto simp: adopt_row_def bind_res_Inr_iff Let_def split: if_splits option.splits\<close>)
qed

lemma adopt_cases:
  assumes "s' = fst (adopt_checkpoint H cfg cd k secret now s)"
  obtains (same) "s' = s"
  | (new) commit t where "\<And>latest. lb_latest s = Some latest \<Longrightarrow> latest < k" "0 \<le> k" "sql_int k" "secret_commitment H secret k = Inr commit"
      "\<And>r. r \<in> set (lb_secrets s) \<Longrightarrow> sr_k r \<noteq> k"
      "t = s\<lparr>lb_secrets := map (reveal_secret (k - lc_max_lag cfg) now)
              (lb_secrets s @ [\<lparr>sr_k = k, sr_secret = secret, sr_commitment = commit, sr_adopted_at = now, sr_revealed_at = None\<rparr>]),
            lb_latest := Some k,
            lb_leases := filter (\<lambda>l. \<not> (rl_k l < k - lc_max_lag cfg - lc_max_lag cfg \<and> \<not> is_open_lease l)) (lb_leases s)\<rparr>"
      "s' = after_revision cfg cd t"
proof (cases "bind_res (u64 k) (\<lambda>_. adopt_row H cfg k secret now s)")
  case (Inl e)
  then show thesis using assms by (intro same) (simp add: adopt_checkpoint_def)
next
  case (Inr tc)
  obtain t c where tc: "tc = (t, c)" by (cases tc)
  have row: "adopt_row H cfg k secret now s = Inr (t, c)" "0 \<le> k" using Inr tc by (auto simp: bind_res_Inr_iff u64_def split: if_splits)
  from row show thesis
  proof (cases rule: adopt_row_cases)
    case same': same
    then show thesis using assms Inr tc by (intro same) (simp add: adopt_checkpoint_def)
  next
    case (new commit)
    have "lb_latest s \<noteq> Some k" using new(1) by auto
    then have "s' = after_revision cfg cd t"
      using assms Inr tc by (auto simp: adopt_checkpoint_def after_revision_def split: sum.split)
    with new show thesis by (intro that(2)) blast+
  qed
qed

lemma record_outcome_Inr:
  assumes "record_outcome cfg env p k rewards verdict cd now s = Inr (s', c)"
  obtains cooldown status until start where "cd = Inr cooldown" "0 \<le> cooldown" "0 \<le> p" "0 \<le> k" "verdict \<in> set VERDICTS"
    "outcome_row s env p k verdict cooldown = (status, until, start)"
    "c = \<lparr>sc_seq = next_seq s, sc_env = env, sc_prompt = p, sc_k = k, sc_rewards = rewards, sc_verdict = verdict,
          sc_first = (dget (lb_prompts s) (env, p) = None), sc_at = now, sc_state = status, sc_until = until\<rparr>"
    "s' = s\<lparr>lb_scans := lb_scans s @ [c], lb_seq := Some (next_seq s), lb_prompts := dset (env, p)
            \<lparr>ps_status = status, ps_until = until, ps_seq = next_seq s, ps_start = start, ps_revised = False\<rparr> (lb_prompts s)\<rparr>"
proof -
  obtain status until start where o: "outcome_row s env p k verdict (case cd of Inr n \<Rightarrow> n | _ \<Rightarrow> 0) = (status, until, start)"
    by (metis prod_cases3)
  from assms obtain cooldown where cd: "cd = Inr cooldown" "0 \<le> cooldown"
    by (auto simp: record_outcome_def bind_res_Inr_iff u64_def split: if_splits)
  from assms have "0 \<le> p" "0 \<le> k" "verdict \<in> set VERDICTS"
    by (auto simp: record_outcome_def bind_res_Inr_iff u64_def split: if_splits)
  then show thesis using assms o cd
    by (intro that [OF cd]) (auto simp: record_outcome_def bind_res_Inr_iff Let_def split: if_splits option.splits)
qed

lemma credit_cases:
  assumes "credit qc i now s = Inr s'"
  obtains (none) "s' = s"
  | (paid) l :: rl_lease and t where "s' = save_quota qc (rl_hotkey l) (record_paid qc (rl_hotkey l) (rl_issued l) t now (lb_quota s)) s"
proof (cases "find (\<lambda>l. rl_id l = i \<and> rl_state l = LSubmitted) (lb_leases s)")
  case (Some l)
  then show thesis using assms by (cases "rl_closed l") (auto simp: credit_def intro: paid)
qed (use assms none in \<open>simp add: credit_def\<close>)

lemma credit_Inr: "credit qc i now s = Inr s' \<Longrightarrow> s' = s \<or> (\<exists>h q. s' = save_quota qc h q s)"
  by (cases rule: credit_cases) auto

lemma step_leases: "lb_step H cfg qc f s s' \<Longrightarrow> leases_ok (lb_leases s) \<Longrightarrow> leases_ok (lb_leases s')"
proof (induction rule: lb_step.induct)
  case (step_adopt s cooldown_of k secret now)
  show ?case
    using refl [of "fst (adopt_checkpoint H cfg cooldown_of k secret now s)"]
  proof (cases rule: adopt_cases)
    case (new commit t)
    then show ?thesis using step_adopt revise_frame [of t cfg cooldown_of] leases_ok_filter by (simp add: revised_from_def)
  qed (use step_adopt in simp)
next
  case (step_undone s t)
  then show ?case by (simp add: rolled_back_def)
next
  case (step_grant inp requests now s s' answers)
  then show ?case using claimed_leases [of s H cfg qc inp requests now] by (auto elim: grant_Inr)
next
  case (step_grant_failed inp requests now s s' e)
  from step_grant_failed(2) show ?case
    by (rule grant_Inl) (use step_grant_failed in \<open>simp_all add: rolled_back_def\<close>)
next
  case (step_credit lease_id now s s')
  then show ?case using credit_Inr by fastforce
next
  case (step_outcome environment prompt_idx checkpoint rewards verdict cooldown now s s' c)
  from step_outcome(1) show ?case by (rule record_outcome_Inr) (use step_outcome(2) in simp)
qed (simp_all add: boot_ok mark_alive_ok expire_due_def expire_leases_ok forfeit_ok check_ok hold_leases release_submission_def Let_def
    submit_ok ban_def revise_frame [unfolded revised_from_def] drain_full_def drain_lane_full_def)

section \<open>Secrets and nonces\<close>

definition secret_row_ok :: "(bytes \<Rightarrow> bytes) \<Rightarrow> int \<Rightarrow> int \<Rightarrow> secret_row \<Rightarrow> bool" where
  "secret_row_ok H max_lag latest r \<longleftrightarrow> secret_commitment H (sr_secret r) (sr_k r) = Inr (sr_commitment r) \<and> 0 \<le> sr_k r
     \<and> sr_k r \<le> latest \<and> (sr_revealed_at r \<noteq> None \<longleftrightarrow> sr_k r < latest - max_lag)"

definition secrets_ok :: "(bytes \<Rightarrow> bytes) \<Rightarrow> lease_book_config \<Rightarrow> lease_book \<Rightarrow> bool" where
  "secrets_ok H cfg s \<longleftrightarrow> distinct (map sr_k (lb_secrets s))
     \<and> (case lb_latest s of
          None \<Rightarrow> lb_secrets s = []
        | Some latest \<Rightarrow> latest \<in> sr_k ` set (lb_secrets s) \<and> (\<forall>r \<in> set (lb_secrets s). secret_row_ok H (lc_max_lag cfg) latest r))"

text \<open>A lease whose nonce is the one its checkpoint's secret determines.\<close>

definition audited :: "(bytes \<Rightarrow> bytes) \<Rightarrow> secret_row list \<Rightarrow> rl_lease \<Rightarrow> bool" where
  "audited H secrets l \<longleftrightarrow> (\<exists>r \<in> set secrets. sr_k r = rl_k l
     \<and> lease_nonce H (sr_secret r) (rl_env l) (rl_prompt l) (rl_k l) = Inr (rl_nonce l))"

definition nonces_ok :: "(bytes \<Rightarrow> bytes) \<Rightarrow> lease_book \<Rightarrow> bool" where
  "nonces_ok H s \<longleftrightarrow> (\<forall>l \<in> set (lb_leases s). audited H (lb_secrets s) l)"

text \<open>What no operation changes of a lease once it is granted.\<close>

definition core :: "rl_lease \<Rightarrow> string \<times> string \<times> string \<times> int \<times> int \<times> bytes" where
  "core l = (rl_id l, rl_hotkey l, rl_env l, rl_prompt l, rl_k l, rl_nonce l)"

abbreviation cores :: "lease_book \<Rightarrow> (string \<times> string \<times> string \<times> int \<times> int \<times> bytes) set" where
  "cores s \<equiv> core ` set (lb_leases s)"

lemma nonces_ok_cores:
  assumes "nonces_ok H s" "cores s' \<subseteq> cores s" "lb_secrets s' = lb_secrets s"
  shows "nonces_ok H s'"
  unfolding nonces_ok_def
proof
  fix l' assume "l' \<in> set (lb_leases s')"
  then obtain l where "l \<in> set (lb_leases s)" "core l' = core l" using assms(2) by blast
  then show "audited H (lb_secrets s') l'" using assms(1,3) by (auto simp: nonces_ok_def audited_def core_def)
qed

lemma core_simps [simp]: "core (close_lease st now c l) = core l" "core (extend_open d l) = core l" "core (grace t l) = core l"
  "core (l\<lparr>rl_state := st, rl_closed := u\<rparr>) = core l"
  by (simp_all add: core_def)

lemma cores_map: "(\<And>l. core (f l) = core l) \<Longrightarrow> core ` set (map f ls) = core ` set ls"
  by (force simp: image_iff)

lemma update_cores: "(\<And>l. core (f l) = core l) \<Longrightarrow> cores (update_lease i f s) = cores s"
  unfolding update_lease_simps by (rule cores_map) simp

lemma close_unsubmitted_cores: "cores (close_unsubmitted cfg qc inp now charged l s) = cores s"
  by (rule close_unsubmitted_cases [of qc l now s cfg inp charged]) (simp add: update_cores del: update_lease_simps(11))

lemma expire_leases_cores: "cores (expire_leases cfg qc inp now s) = cores s"
proof -
  have "cores (fold (close_unsubmitted cfg qc inp now charged) ls s) = cores s" for charged ls
    by (induction ls arbitrary: s) (simp_all add: close_unsubmitted_cores)
  then show ?thesis by (simp add: expire_leases_def)
qed

lemma note_downtime_cores: "cores (lb_note_downtime since now s) = cores s"
  by (simp add: lb_note_downtime_def image_image)

lemma mark_alive_cores: "cores (mark_alive now s) = cores s"
  by (simp add: mark_alive_def lb_mark_alive_def note_downtime_cores split: option.split)

lemma boot_cores: "cores (boot qc now s) = cores s"
  by (simp add: boot_def Let_def lb_mark_alive_def image_image note_downtime_cores split: option.split)

lemma submit_cores: "cores (fst (submit cfg qc inp i h z d now s)) = cores s"
  by (cases rule: submittable_cases [of cfg qc inp i h now s])
    (simp_all add: submit_def expire_leases_cores update_cores del: update_lease_simps(11))

lemma check_cores: "cores (fst (check_submission cfg qc inp i h now s)) = cores s"
  by (cases rule: submittable_cases [of cfg qc inp i h now s]) (simp_all add: check_submission_def expire_leases_cores)

lemma forfeit_cores: "cores (fst (forfeit cfg qc inp i h now s)) = cores s"
  by (simp add: forfeit_def close_unsubmitted_cores split: option.split)

lemma leasable_secret_row:
  "leasable_secret s k = Some secret \<Longrightarrow> \<exists>r \<in> set (lb_secrets s). sr_k r = k \<and> sr_revealed_at r = None \<and> sr_secret r = secret"
  unfolding leasable_secret_def by (auto dest: find_some)

lemma claimed_nonces:
  assumes "nonces_ok H s"
  shows "nonces_ok H (gs_book (fst (claimed H cfg qc inp requests now s)))"
proof (rule claimed_invariant)
  show "nonces_ok H (gs_book g)" if "gs_book g = expire_leases cfg qc inp now s" for g
    using assms that nonces_ok_cores [of H s "gs_book g"] expire_leases_cores [of cfg qc inp now s] expire_leases_rest [of s cfg qc inp now]
    by (simp add: same_rest_def)
  show "nonces_ok H (gs_book g')" if "nonces_ok H (gs_book g)" "grant_claim H cfg qc inp requests la now c g = Inr g'" for c g g' la
    using that(2,1)
  proof (cases rule: grant_claim_cases)
    case (granted secret nonce l)
    have "audited H (lb_secrets (gs_book g)) l"
      using leasable_secret_row [OF judge_Grantable(1) [OF granted(1)]] granted(2,3) by (auto simp: audited_def)
    then show ?thesis using that(1) granted(5) by (simp add: nonces_ok_def)
  qed (simp add: nonces_ok_def)
qed

lemma credit_frame:
  assumes "credit qc i now s = Inr s'"
  shows "lb_leases s' = lb_leases s" "same_rest s s'"
  using credit_Inr [OF assms] by (auto simp: same_rest_def)

lemma reveal_secret_simps [simp]:
  "sr_k (reveal_secret t now r) = sr_k r" "sr_secret (reveal_secret t now r) = sr_secret r"
  "sr_commitment (reveal_secret t now r) = sr_commitment r"
  by (simp_all add: reveal_secret_def)

lemma audited_adopt: "audited H secrets l \<Longrightarrow> audited H (map (reveal_secret t now) (secrets @ new)) l"
  unfolding audited_def set_map set_append image_Un bex_Un by (rule disjI1) (auto simp: bex_simps(7))

text \<open>The steps other than an adoption leave the secrets and the latest checkpoint alone.\<close>

lemma note_downtime_rest: "same_rest s (lb_note_downtime since now s)"
  by (simp add: lb_note_downtime_def same_rest_def)

lemma boot_secrets: "lb_secrets (boot qc now s) = lb_secrets s" "lb_latest (boot qc now s) = lb_latest s"
  "lb_scans (boot qc now s) = lb_scans s" "lb_seq (boot qc now s) = lb_seq s" "lb_bans (boot qc now s) = lb_bans s"
  using note_downtime_rest [of "s\<lparr>lb_full := [], lb_lane_full := [], lb_submitting := [], lb_alive_at := None, lb_quota := lb_quota_table s\<rparr>"]
  by (auto simp: boot_def Let_def lb_mark_alive_def same_rest_def split: option.split)

lemma mark_alive_rest: "same_rest s (mark_alive now s)"
  using note_downtime_rest by (auto simp: mark_alive_def lb_mark_alive_def same_rest_def split: option.split)

lemma check_rest: "same_rest s (fst (check_submission cfg qc inp i h now s))"
  by (cases rule: submittable_cases [of cfg qc inp i h now s]) (simp_all add: check_submission_def expire_leases_rest)

lemma submit_rest: "same_rest s (fst (submit cfg qc inp i h z d now s))"
proof (cases rule: submittable_cases [of cfg qc inp i h now s])
  case (fit l)
  then show ?thesis by (simp add: submit_def same_rest_def)
qed (simp_all add: submit_def expire_leases_rest)

lemma forfeit_rest: "same_rest s (fst (forfeit cfg qc inp i h now s))"
  by (simp add: forfeit_def close_unsubmitted_rest split: option.split)

lemma hold_frame:
  "lb_secrets (fst (hold_submission cfg qc inp i h now s)) = lb_secrets s" "lb_latest (fst (hold_submission cfg qc inp i h now s)) = lb_latest s"
  "lb_prompts (fst (hold_submission cfg qc inp i h now s)) = lb_prompts s" "lb_scans (fst (hold_submission cfg qc inp i h now s)) = lb_scans s"
  "lb_seq (fst (hold_submission cfg qc inp i h now s)) = lb_seq s" "lb_bans (fst (hold_submission cfg qc inp i h now s)) = lb_bans s"
  using check_rest [of s cfg qc inp i h now] by (auto simp: hold_submission_def same_rest_def split: prod.splits sum.splits)

lemma step_secrets:
  assumes "lb_step H cfg qc f s s'"
  shows "lb_secrets s' = lb_secrets s \<and> lb_latest s' = lb_latest s
    \<or> (\<exists>cd k secret now. s' = fst (adopt_checkpoint H cfg cd k secret now s))"
  using assms
proof (induction rule: lb_step.induct)
  case (step_undone s t)
  then show ?case by (simp add: rolled_back_def)
next
  case (step_grant inp requests now s s' answers)
  then show ?case using claimed_rest [of s H cfg qc inp requests now] by (auto simp: same_rest_def elim!: grant_Inr)
next
  case (step_grant_failed inp requests now s s' e)
  from step_grant_failed(2) show ?case by (rule grant_Inl) (simp_all add: rolled_back_def)
next
  case (step_credit lease_id now s s')
  then show ?case using credit_frame(2) by (auto simp: same_rest_def)
next
  case (step_outcome environment prompt_idx checkpoint rewards verdict cooldown now s s' c)
  from step_outcome show ?case by (rule record_outcome_Inr) simp
qed (auto simp: boot_secrets mark_alive_rest [unfolded same_rest_def] expire_due_def expire_leases_rest [unfolded same_rest_def]
    forfeit_rest [unfolded same_rest_def] check_rest [unfolded same_rest_def] hold_frame release_submission_def Let_def
    submit_rest [unfolded same_rest_def] ban_def revise_frame [unfolded revised_from_def] drain_full_def drain_lane_full_def)

lemma adopt_secrets:
  assumes "s' = fst (adopt_checkpoint H cfg cd k secret now s)" "secrets_ok H cfg s"
  shows "secrets_ok H cfg s'"
  using assms(1)
proof (cases rule: adopt_cases)
  case (new commit t)
  let ?old = "reveal_secret (k - lc_max_lag cfg) now"
  let ?row = "\<lparr>sr_k = k, sr_secret = secret, sr_commitment = commit, sr_adopted_at = now, sr_revealed_at = None\<rparr>"
  have s': "lb_secrets s' = map ?old (lb_secrets s @ [?row])" "lb_latest s' = Some k"
    using new(6,7) revise_frame [of t cfg cd] by (simp_all add: revised_from_def)
  have "map sr_k (lb_secrets s') = map sr_k (lb_secrets s @ [?row])" unfolding s' by simp
  moreover have "distinct (map sr_k (lb_secrets s @ [?row]))" using assms(2) new(5) by (auto simp: secrets_ok_def)
  ultimately have d: "distinct (map sr_k (lb_secrets s'))" by (simp only:)
  have row: "secret_row_ok H (lc_max_lag cfg) k (?old r0)" if "r0 \<in> set (lb_secrets s)" for r0
  proof -
    from assms(2) that obtain latest where l: "lb_latest s = Some latest" "secret_row_ok H (lc_max_lag cfg) latest r0"
      by (cases "lb_latest s") (auto simp: secrets_ok_def)
    then show ?thesis using new(1) [OF l(1)] by (auto simp: secret_row_ok_def reveal_secret_def)
  qed
  have "secret_row_ok H (lc_max_lag cfg) k (?old ?row)" using new(2,4) by (simp add: secret_row_ok_def reveal_secret_def)
  with row have "\<forall>r \<in> set (lb_secrets s'). secret_row_ok H (lc_max_lag cfg) k r" unfolding s'(1) by simp
  moreover have "k \<in> sr_k ` set (lb_secrets s')" unfolding s'(1) by simp
  ultimately show ?thesis using d s'(2) by (simp add: secrets_ok_def)
qed (use assms(2) in simp)

lemma step_secrets_ok:
  assumes "lb_step H cfg qc f s s'" "secrets_ok H cfg s"
  shows "secrets_ok H cfg s'"
  using step_secrets [OF assms(1)]
proof
  assume "lb_secrets s' = lb_secrets s \<and> lb_latest s' = lb_latest s"
  then show ?thesis using assms(2) unfolding secrets_ok_def by metis
qed (use adopt_secrets assms(2) in blast)

lemma adopt_nonces:
  assumes "s' = fst (adopt_checkpoint H cfg cd k secret now s)" "nonces_ok H s"
  shows "nonces_ok H s'"
  using assms(1)
proof (cases rule: adopt_cases)
  case (new commit t)
  then have "nonces_ok H t" using assms(2) by (auto simp: nonces_ok_def intro!: audited_adopt simp del: map_append)
  then show ?thesis using new(7) revise_frame [of t cfg cd] by (simp add: nonces_ok_def revised_from_def)
qed (use assms(2) in simp)

lemma step_nonces: "lb_step H cfg qc f s s' \<Longrightarrow> nonces_ok H s \<Longrightarrow> nonces_ok H s'"
proof (induction rule: lb_step.induct)
  case (step_undone s t)
  then show ?case by (simp add: rolled_back_def nonces_ok_def)
next
  case (step_grant inp requests now s s' answers)
  then show ?case using claimed_nonces [of H s cfg qc inp requests now] by (auto elim: grant_Inr)
next
  case (step_grant_failed inp requests now s s' e)
  from step_grant_failed(2) show ?case
    by (rule grant_Inl) (use step_grant_failed in \<open>simp_all add: rolled_back_def nonces_ok_def\<close>)
next
  case (step_credit lease_id now s s')
  then show ?case using credit_frame by (fastforce simp: same_rest_def nonces_ok_def)
next
  case (step_outcome environment prompt_idx checkpoint rewards verdict cooldown now s s' c)
  from step_outcome(1) show ?case by (rule record_outcome_Inr) (use step_outcome(2) in \<open>simp add: nonces_ok_def\<close>)
next
  case (step_hold inp lease_id hotkey now s)
  show ?case
    by (rule nonces_ok_cores [OF step_hold(2)]) (simp_all add: hold_leases check_cores hold_frame)
next
  case (step_check inp lease_id hotkey now s)
  show ?case
    by (rule nonces_ok_cores [OF step_check(2)]) (simp_all add: check_cores check_rest [unfolded same_rest_def])
next
  case (step_submit inp lease_id hotkey in_zone delivered now s)
  show ?case
    by (rule nonces_ok_cores [OF step_submit(2)]) (simp_all add: submit_cores submit_rest [unfolded same_rest_def])
next
  case (step_forfeit s inp lease_id hotkey now)
  show ?case
    by (rule nonces_ok_cores [OF step_forfeit]) (simp_all add: forfeit_cores forfeit_rest [unfolded same_rest_def])
next
  case (step_expire inp s now)
  show ?case
    by (rule nonces_ok_cores [OF step_expire(2)]) (simp_all add: expire_due_def expire_leases_cores expire_leases_rest [unfolded same_rest_def])
next
  case (step_boot s now)
  show ?case by (rule nonces_ok_cores [OF step_boot]) (simp_all add: boot_cores boot_secrets)
next
  case (step_alive s now)
  show ?case by (rule nonces_ok_cores [OF step_alive]) (simp_all add: mark_alive_cores mark_alive_rest [unfolded same_rest_def])
next
  case (step_adopt s cooldown_of k secret now)
  then show ?case by (rule adopt_nonces [OF refl])
qed (simp_all add: nonces_ok_def release_submission_def Let_def ban_def revise_frame [unfolded revised_from_def]
    drain_full_def drain_lane_full_def)

section \<open>Scans and prompts\<close>

definition seq_of :: "lease_book \<Rightarrow> int" where
  "seq_of s = (case lb_seq s of None \<Rightarrow> 0 | Some n \<Rightarrow> n)"

abbreviation scan_key :: "scan_row \<Rightarrow> string \<times> int" where
  "scan_key c \<equiv> (sc_env c, sc_prompt c)"

definition easy_scans :: "scan_row list \<Rightarrow> string \<times> int \<Rightarrow> nat" where
  "easy_scans scans key = length (filter (\<lambda>c. scan_key c = key \<and> sc_verdict c = ''too_easy'') scans)"

definition prompt_row_ok :: "int \<Rightarrow> prompt_row \<Rightarrow> bool" where
  "prompt_row_ok seq r \<longleftrightarrow> 1 \<le> ps_seq r \<and> ps_seq r \<le> seq
     \<and> (case ps_status r of
          PCooldown \<Rightarrow> (\<exists>a u. ps_start r = Some a \<and> ps_until r = Some u \<and> 0 \<le> a \<and> a \<le> u)
        | PBlacklisted \<Rightarrow> ps_start r = None \<and> ps_until r = None)"

text \<open>A prompt has a row exactly when it was scanned, and is blacklisted exactly when two of its scans were too easy.\<close>

definition key_ok :: "int \<Rightarrow> scan_row list \<Rightarrow> string \<times> int \<Rightarrow> prompt_row option \<Rightarrow> bool" where
  "key_ok seq scans key r \<longleftrightarrow>
     (case r of
        None \<Rightarrow> key \<notin> scan_key ` set scans
      | Some r \<Rightarrow> key \<in> scan_key ` set scans \<and> prompt_row_ok seq r \<and> (ps_status r = PBlacklisted \<longleftrightarrow> 2 \<le> easy_scans scans key))"

definition prompts_ok :: "lease_book \<Rightarrow> bool" where
  "prompts_ok s \<longleftrightarrow> dict_ok (lb_prompts s) \<and> (\<forall>key. key_ok (seq_of s) (lb_scans s) key (dget (lb_prompts s) key))"

definition scans_ok :: "lease_book \<Rightarrow> bool" where
  "scans_ok s \<longleftrightarrow> 0 \<le> seq_of s \<and> sorted_wrt (<) (map sc_seq (lb_scans s))
     \<and> (\<forall>c \<in> set (lb_scans s). 1 \<le> sc_seq c \<and> sc_seq c \<le> seq_of s \<and> sc_verdict c \<in> set VERDICTS)"

lemma next_seq:
  assumes "scans_ok s"
  shows "next_seq s = seq_of s + 1"
proof -
  let ?m = "fold max (map sc_seq (lb_scans s)) (seq_of s)"
  have "?m \<in> insert (seq_of s) (set (map sc_seq (lb_scans s)))" by (rule fold_max_in)
  then have "?m \<le> seq_of s" using assms by (auto simp: scans_ok_def)
  moreover have "seq_of s \<le> ?m" by (rule fold_max_ge)
  ultimately show ?thesis by (simp add: next_seq_def seq_of_def)
qed

lemma prompt_row_ok_mono: "prompt_row_ok n r \<Longrightarrow> n \<le> m \<Longrightarrow> prompt_row_ok m r"
  by (auto simp: prompt_row_ok_def)

lemma key_ok_mono: "key_ok n scans key r \<Longrightarrow> n \<le> m \<Longrightarrow> key_ok m scans key r"
  by (auto simp: key_ok_def prompt_row_ok_mono split: option.splits)

lemma easy_scans_snoc:
  "easy_scans (scans @ [c]) key = easy_scans scans key + (if scan_key c = key \<and> sc_verdict c = ''too_easy'' then 1 else 0)"
  by (simp add: easy_scans_def)

lemma easy_before_iff:
  "list_ex (\<lambda>c. sc_env c = env \<and> sc_prompt c = p \<and> sc_verdict c = ''too_easy'') scans \<longleftrightarrow> 1 \<le> easy_scans scans (env, p)"
  by (auto simp: easy_scans_def list_ex_iff Suc_le_eq filter_empty_conv)

text \<open>The row an outcome leaves is as the scans say.\<close>

lemma outcome_row_status:
  assumes "outcome_row s env p k verdict cooldown = (status, until, start)" "key_ok (seq_of s) (lb_scans s) (env, p) (dget (lb_prompts s) (env, p))"
  shows "status = PBlacklisted \<longleftrightarrow> 2 \<le> easy_scans (lb_scans s) (env, p) + (if verdict = ''too_easy'' then 1 else 0)"
proof -
  let ?n = "easy_scans (lb_scans s) (env, p)"
  have zero: "?n = 0" if "dget (lb_prompts s) (env, p) = None"
    using assms(2) that by (auto simp: key_ok_def easy_scans_def filter_empty_conv image_iff)
  have "status = PBlacklisted \<longleftrightarrow> (verdict = ''too_easy'' \<and> 1 \<le> ?n)
      \<or> (case dget (lb_prompts s) (env, p) of None \<Rightarrow> False | Some r \<Rightarrow> ps_status r = PBlacklisted)"
    using assms(1) unfolding outcome_row_def Let_def easy_before_iff by (auto split: if_splits)
  then show ?thesis using assms(2) zero by (cases "dget (lb_prompts s) (env, p)") (auto simp: key_ok_def)
qed

lemma outcome_row_ok:
  assumes "outcome_row s env p k verdict cooldown = (status, until, start)" "0 \<le> cooldown" "0 \<le> k" "1 \<le> seq"
  shows "prompt_row_ok seq \<lparr>ps_status = status, ps_until = until, ps_seq = seq, ps_start = start, ps_revised = False\<rparr>"
  using assms by (auto simp: outcome_row_def Let_def prompt_row_ok_def le_max_iff_disj split: if_splits)

lemma outcome_prompts:
  assumes "record_outcome cfg env p k rewards verdict cd now s = Inr (s', c)" "prompts_ok s" "scans_ok s"
  shows "prompts_ok s' \<and> scans_ok s'"
  using assms(1)
proof (rule record_outcome_Inr)
  fix cooldown status until start
  assume o: "outcome_row s env p k verdict cooldown = (status, until, start)" and nn: "0 \<le> cooldown" "0 \<le> k" and v: "verdict \<in> set VERDICTS"
    and c: "c = \<lparr>sc_seq = next_seq s, sc_env = env, sc_prompt = p, sc_k = k, sc_rewards = rewards, sc_verdict = verdict,
          sc_first = (dget (lb_prompts s) (env, p) = None), sc_at = now, sc_state = status, sc_until = until\<rparr>"
    and s': "s' = s\<lparr>lb_scans := lb_scans s @ [c], lb_seq := Some (next_seq s), lb_prompts := dset (env, p)
            \<lparr>ps_status = status, ps_until = until, ps_seq = next_seq s, ps_start = start, ps_revised = False\<rparr> (lb_prompts s)\<rparr>"
  let ?row = "\<lparr>ps_status = status, ps_until = until, ps_seq = next_seq s, ps_start = start, ps_revised = False\<rparr>"
  have key: "key_ok (seq_of s) (lb_scans s) x (dget (lb_prompts s) x)" for x using assms(2) unfolding prompts_ok_def by blast
  have n: "next_seq s = seq_of s + 1" "0 \<le> seq_of s" using next_seq [OF assms(3)] assms(3) by (simp_all add: scans_ok_def)
  have q: "seq_of s' = seq_of s + 1" using n(1) s' by (simp add: seq_of_def)
  have "scans_ok s'"
    using assms(3) n q v unfolding scans_ok_def by (auto simp: s' c sorted_wrt_append)
  moreover have "key_ok (seq_of s') (lb_scans s') x (dget (lb_prompts s') x)" for x
  proof (cases "x = (env, p)")
    case True
    have "prompt_row_ok (seq_of s') ?row" using outcome_row_ok [OF o nn, of "next_seq s"] n q by simp
    moreover have "status = PBlacklisted \<longleftrightarrow> 2 \<le> easy_scans (lb_scans s @ [c]) (env, p)"
      using outcome_row_status [OF o key] by (simp add: easy_scans_snoc c)
    moreover have "dget (lb_prompts s') x = Some ?row" "lb_scans s' = lb_scans s @ [c]" using True s' by (simp_all add: update_conv')
    moreover have "x \<in> scan_key ` set (lb_scans s @ [c])" using True by (simp add: c)
    ultimately show ?thesis using True by (simp add: key_ok_def)
  next
    case False
    then have "dget (lb_prompts s') x = dget (lb_prompts s) x" "lb_scans s' = lb_scans s @ [c]" using s' by (simp_all add: update_conv')
    moreover have "scan_key c \<noteq> x" using False by (auto simp: c)
    ultimately show ?thesis
      using key_ok_mono [OF key, of "seq_of s'" x] q by (auto simp: key_ok_def easy_scans_snoc split: option.splits)
  qed
  moreover have "dict_ok (lb_prompts s')" using assms(2) s' by (simp add: prompts_ok_def distinct_update)
  ultimately show "prompts_ok s' \<and> scans_ok s'" unfolding prompts_ok_def by blast
qed

lemma shorten_ok:
  assumes "prompt_row_ok seq r" "0 \<le> cooldown" "1 \<le> stamp" "stamp \<le> seq"
  shows "prompt_row_ok seq (restamp latest stamp (shorten cooldown stamp r))
    \<and> ps_status (restamp latest stamp (shorten cooldown stamp r)) = ps_status r"
proof -
  have "prompt_row_ok seq (shorten cooldown stamp r) \<and> ps_status (shorten cooldown stamp r) = ps_status r"
    using assms by (auto simp: shorten_def shortenable_def prompt_row_ok_def split: option.splits prompt_status.splits)
  then show ?thesis using assms(3,4) by (auto simp: restamp_def prompt_row_ok_def split: prompt_status.splits)
qed

lemma reserve_seq_eq: "reserve_seq s = (s\<lparr>lb_seq := Some (seq_of s + 1)\<rparr>, seq_of s + 1)"
  by (simp add: reserve_seq_def seq_of_def Let_def)

text \<open>A pass over one environment: the rows it changes stay well formed, with the status they had.\<close>

definition revise_inv :: "lease_book \<times> int option \<times> (string, int) dict \<Rightarrow> bool" where
  "revise_inv a \<longleftrightarrow> prompts_ok (fst a) \<and> scans_ok (fst a)
     \<and> (\<forall>t. fst (snd a) = Some t \<longrightarrow> 1 \<le> t \<and> t \<le> seq_of (fst a))"

lemma scans_ok_seq: "scans_ok s \<Longrightarrow> seq_of s \<le> n \<Longrightarrow> scans_ok (s\<lparr>lb_seq := Some n\<rparr>)"
  by (force simp: scans_ok_def seq_of_def)

lemma revise_rows_ok:
  assumes "prompts_ok s" "scans_ok s" "0 \<le> cooldown" "1 \<le> stamp" "stamp \<le> n" "seq_of s \<le> n"
  shows "prompts_ok (s\<lparr>lb_seq := Some n, lb_prompts := revised_rows latest (env, cooldown) stamp (lb_prompts s)\<rparr>)"
    (is "prompts_ok ?s'")
proof -
  let ?f = "\<lambda>key r. if fst key = env then restamp latest stamp (shorten cooldown stamp r) else r"
  have keys: "dkeys (lb_prompts ?s') = dkeys (lb_prompts s)" by (simp add: revised_rows_def comp_def case_prod_beta)
  have get: "dget (lb_prompts ?s') key = map_option (?f key) (dget (lb_prompts s) key)" for key
  proof -
    have "map_of (map (\<lambda>(k, r). (k, ?f k r)) d) key = map_option (?f key) (map_of d key)" for d
      by (induction d) auto
    then show ?thesis by (simp add: revised_rows_def cong: if_cong)
  qed
  have "key_ok n (lb_scans s) key (map_option (?f key) (dget (lb_prompts s) key))" for key
  proof -
    have k: "key_ok n (lb_scans s) key (dget (lb_prompts s) key)"
      using assms(1,6) key_ok_mono unfolding prompts_ok_def by blast
    show ?thesis
    proof (cases "dget (lb_prompts s) key")
      case (Some r)
      then show ?thesis using k shorten_ok [of n r cooldown stamp latest] assms(3-5) by (auto simp: key_ok_def)
    qed (use k in simp)
  qed
  moreover have "dict_ok (lb_prompts ?s')" using assms(1) keys unfolding prompts_ok_def by (simp only: keys)
  ultimately show ?thesis unfolding prompts_ok_def get by (simp add: seq_of_def)
qed

lemma readable_nonneg: "(env, c) \<in> set (readable_cooldowns cfg cd) \<Longrightarrow> 0 \<le> c"
  by (auto simp: readable_cooldowns_def List.map_filter_def u64_def bind_res_def split: sum.splits if_splits)

lemma revise_env_inv:
  assumes "revise_inv a" "0 \<le> snd ec"
  shows "revise_inv (revise_env latest ec a)"
proof -
  obtain s stamp0 n where a: "a = (s, stamp0, n)" by (metis prod_cases3)
  have inv: "prompts_ok s" "scans_ok s" using assms(1) a by (simp_all add: revise_inv_def)
  let ?pass = "\<lambda>t m. s\<lparr>lb_seq := Some m, lb_prompts := revised_rows latest ec t (lb_prompts s)\<rparr>"
  have "revise_env latest ec a = a \<or> (\<exists>t m n'. 1 \<le> t \<and> t \<le> m \<and> seq_of s \<le> m \<and> revise_env latest ec a = (?pass t m, Some t, n'))"
  proof (cases stamp0)
    case None
    have "1 \<le> seq_of s + 1" using inv(2) by (simp add: scans_ok_def)
    moreover have "revise_env latest ec a = a \<or> (\<exists>n'. revise_env latest ec a = (?pass (seq_of s + 1) (seq_of s + 1), Some (seq_of s + 1), n'))"
      unfolding a None by (simp add: revise_env_def reserve_seq_eq Let_def)
    moreover have "seq_of s + 1 \<le> seq_of s + 1" "seq_of s \<le> seq_of s + 1" by simp_all
    ultimately show ?thesis by blast
  next
    case (Some t)
    then have t: "1 \<le> t" "t \<le> seq_of s" using assms(1) a by (simp_all add: revise_inv_def)
    then obtain m where "lb_seq s = Some m" by (cases "lb_seq s") (auto simp: seq_of_def)
    then have "?pass t m = s\<lparr>lb_prompts := revised_rows latest ec t (lb_prompts s)\<rparr>" by (cases s) simp
    then have "revise_env latest ec a = a \<or> (\<exists>n'. revise_env latest ec a = (?pass t m, Some t, n'))"
      unfolding a Some by (simp add: revise_env_def Let_def)
    moreover have "t \<le> m" "seq_of s \<le> m" using t \<open>lb_seq s = Some m\<close> by (simp_all add: seq_of_def)
    ultimately show ?thesis using t(1) by blast
  qed
  then show ?thesis
  proof (elim disjE exE conjE)
    fix t m n' assume h: "1 \<le> t" "t \<le> m" "seq_of s \<le> m" "revise_env latest ec a = (?pass t m, Some t, n')"
    have "scans_ok (?pass t m)" using scans_ok_seq [OF inv(2) h(3)] by (simp add: scans_ok_def seq_of_def)
    with h show ?thesis using revise_rows_ok [OF inv assms(2) h(1-3), of latest "fst ec"] by (simp add: revise_inv_def seq_of_def)
  qed (use assms(1) in simp)
qed

lemma revise_prompts:
  assumes "prompts_ok s" "scans_ok s"
  shows "prompts_ok (after_revision cfg cd s) \<and> scans_ok (after_revision cfg cd s)"
proof -
  have "revise_inv a \<Longrightarrow> (\<And>ec. ec \<in> set ecs \<Longrightarrow> 0 \<le> snd ec) \<Longrightarrow> revise_inv (fold (revise_env latest) ecs a)" for latest ecs a
    by (induction ecs arbitrary: a) (simp_all add: revise_env_inv)
  moreover have "revise_inv (s, None, [])" using assms by (simp add: revise_inv_def)
  moreover have "0 \<le> snd ec" if "ec \<in> set (readable_cooldowns cfg cd)" for ec using readable_nonneg [of "fst ec" "snd ec"] that by simp
  ultimately have "revise_inv (fold (revise_env latest) (readable_cooldowns cfg cd) (s, None, []))" for latest by blast
  then show ?thesis using assms unfolding revise_step by (simp add: revise_inv_def split: option.split)
qed

lemma boot_prompts:
  assumes "prompts_ok s"
  shows "lb_prompts (boot qc now s) = lb_prompts s"
proof -
  have "fill_start t r = r" if "(key, r) \<in> set (lb_prompts s)" for t key r
  proof -
    have "dget (lb_prompts s) key = Some r" using assms that unfolding prompts_ok_def by simp
    then have "prompt_row_ok (seq_of s) r" using assms unfolding prompts_ok_def key_ok_def by (metis (no_types, lifting) option.simps(5))
    then show ?thesis by (auto simp: fill_start_def prompt_row_ok_def)
  qed
  then have "map (\<lambda>(key, r). (key, fill_start t r)) (lb_prompts s) = lb_prompts s" for t
    by (intro map_idI) (auto split: prod.splits)
  moreover have "lb_prompts (case lb_alive s of None \<Rightarrow> s' | Some t \<Rightarrow> lb_note_downtime t now s') = lb_prompts s'" for s'
    by (simp add: note_downtime_rest [unfolded same_rest_def] split: option.split)
  ultimately show ?thesis by (simp add: boot_def Let_def lb_mark_alive_def)
qed

lemma step_prompts:
  assumes "lb_step H cfg qc f s s'" "prompts_ok s" "scans_ok s"
  shows "prompts_ok s' \<and> scans_ok s'"
proof -
  have same: ?thesis if "lb_prompts s' = lb_prompts s" "lb_scans s' = lb_scans s" "lb_seq s' = lb_seq s"
    using assms(2,3) that unfolding prompts_ok_def scans_ok_def seq_of_def by simp
  from assms(1) show ?thesis
  proof cases
    case (step_undone t)
    then show ?thesis by (intro same) (simp_all add: rolled_back_def)
  next
    case (step_adopt cooldown_of k secret now)
    from step_adopt(2) show ?thesis
    proof (cases rule: adopt_cases)
      case (new commit t)
      then have "prompts_ok t" "scans_ok t" using assms(2,3) unfolding prompts_ok_def scans_ok_def seq_of_def by simp_all
      then show ?thesis using revise_prompts new(7) by simp
    qed (use assms in simp)
  next
    case (step_grant inp requests now answers)
    then show ?thesis using claimed_rest [of s H cfg qc inp requests now] by (intro same) (auto simp: same_rest_def elim!: grant_Inr)
  next
    case (step_grant_failed inp requests now e)
    from step_grant_failed(3) show ?thesis
    proof (rule grant_Inl)
      assume "s' = rolled_back s (gs_book (fst (claimed H cfg qc inp requests now s)))"
      then show ?thesis by (intro same) (simp_all add: rolled_back_def)
    qed (use assms in simp)
  next
    case (step_credit lease_id now)
    show ?thesis using credit_frame(2) [OF step_credit(2)] by (intro same) (simp_all add: same_rest_def)
  next
    case (step_outcome environment prompt_idx checkpoint rewards verdict cooldown now c)
    show ?thesis by (rule outcome_prompts [OF step_outcome(2) assms(2,3)])
  next
    case (step_revise cooldown_of)
    then show ?thesis using revise_prompts assms by simp
  next
    case (step_boot now)
    then show ?thesis by (intro same) (simp_all add: boot_prompts [OF assms(2)] boot_secrets)
  qed (intro same; simp add: mark_alive_rest [unfolded same_rest_def] expire_due_def expire_leases_rest [unfolded same_rest_def]
      forfeit_rest [unfolded same_rest_def] check_rest [unfolded same_rest_def] hold_frame release_submission_def Let_def
      submit_rest [unfolded same_rest_def] ban_def drain_full_def drain_lane_full_def)+
qed

section \<open>The quota counts the open leases\<close>

definition open_count :: "string \<Rightarrow> rl_lease list \<Rightarrow> int" where
  "open_count h ls = int (length (filter (\<lambda>l. rl_hotkey l = h \<and> is_open_lease l) ls))"

lemma lb_in_use_count: "lb_in_use s h = open_count h (lb_leases s)"
  by (simp add: lb_in_use_def open_of_def open_count_def)

definition counted :: "lease_book \<Rightarrow> bool" where
  "counted s \<longleftrightarrow> lb_quota_table s = lb_quota s \<and> (\<forall>h. quota_in_use (lb_quota s) h = open_count h (lb_leases s))"

lemma open_count_simps [simp]: "open_count h [] = 0"
  "open_count h (ls @ ms) = open_count h ls + open_count h ms" "0 \<le> open_count h ls"
  "open_count h (l # ls) = (if rl_hotkey l = h \<and> is_open_lease l then 1 else 0) + open_count h ls"
  by (simp_all add: open_count_def)

lemma open_count_map:
  "(\<And>l. l \<in> set ls \<Longrightarrow> rl_hotkey (f l) = rl_hotkey l \<and> rl_state (f l) = rl_state l) \<Longrightarrow> open_count h (map f ls) = open_count h ls"
  by (induction ls) auto

lemma open_count_filter: "(\<And>l. l \<in> set ls \<Longrightarrow> is_open_lease l \<Longrightarrow> P l) \<Longrightarrow> open_count h (filter P ls) = open_count h ls"
  by (induction ls) auto

lemma open_count_pos: "l \<in> set ls \<Longrightarrow> is_open_lease l \<Longrightarrow> 1 \<le> open_count (rl_hotkey l) ls"
proof (induction ls)
  case (Cons m ls)
  have "0 \<le> open_count (rl_hotkey l) ls" by simp
  with Cons show ?case by auto
qed simp

lemma open_count_close:
  assumes "distinct (map rl_id ls)" "l \<in> set ls" "is_open_lease l" "\<And>m. rl_hotkey (f m) = rl_hotkey m \<and> \<not> is_open_lease (f m)"
  shows "open_count h (map (\<lambda>m. if rl_id m = rl_id l then f m else m) ls) = open_count h ls - (if rl_hotkey l = h then 1 else 0)"
  using assms
proof (induction ls)
  case (Cons m ls)
  show ?case
  proof (cases "m = l")
    case True
    then have "map (\<lambda>m. if rl_id m = rl_id l then f m else m) ls = ls" using Cons.prems(1) by (intro map_idI) (force simp: image_iff)
    then show ?thesis using True Cons.prems(3,4) by simp
  next
    case False
    then have "l \<in> set ls" "rl_id m \<noteq> rl_id l" using Cons.prems(1,2) by force+
    then show ?thesis using Cons by simp
  qed
qed simp

lemma entry_in_use [simp]: "qe_in_use (quota_entry_of qc q h) = quota_in_use q h"
  by (simp add: quota_entry_of_def quota_in_use_def Hotkey_def split: option.split)

lemma in_use_dset: "quota_in_use (dset h e q) h' = (if h' = h then qe_in_use e else quota_in_use q h')"
  by (simp add: quota_in_use_def update_conv')

lemma new_round_in_use [simp]: "qe_in_use (new_round qc now e) = qe_in_use e"
  by (simp add: new_round_def Let_def)

lemma end_round_in_use [simp]: "qe_in_use (end_round qc now e) = qe_in_use e"
  by (simp add: end_round_def)

lemma free_slot_in_use [simp]: "qe_in_use (free_slot e) = max 0 (qe_in_use e - 1)"
  by (simp add: free_slot_def)

text \<open>Each event rewrites one entry; what it does to the slots in use.\<close>

lemma record_lease_entry: "\<exists>e. record_lease qc h now q = dset h e q \<and> qe_in_use e = quota_in_use q h + 1"
  unfolding record_lease_def Let_def by (intro exI conjI, rule refl) (simp add: count_event_def)

lemma record_release_entry: "\<exists>e. record_release qc h q = dset h e q \<and> qe_in_use e = max 0 (quota_in_use q h - 1)"
  by (rule exI [of _ "count_event ''released'' (free_slot (quota_entry_of qc q h))"]) (simp add: record_release_def)

lemma record_submission_entry: "\<exists>e. record_submission qc h z q = dset h e q \<and> qe_in_use e = max 0 (quota_in_use q h - 1)"
  by (rule exI [of _ "count_event (if z then ''in_zone'' else ''out_of_zone'') (count_event ''submitted'' (free_slot (quota_entry_of qc q h)))"])
    (simp add: record_submission_def)

lemma quota_expiry_entry:
  assumes "cause = ''expired'' \<or> cause = ''rejected''"
  shows "\<exists>e. quota_expiry qc h now cause q = dset h e q \<and> qe_in_use e = max 0 (quota_in_use q h - 1)"
  using assms unfolding quota_expiry_def record_expiry_def Let_def
  by (elim disjE) (simp_all, (intro exI conjI, rule refl, simp)+)

lemma record_paid_entry: "\<exists>e. record_paid qc h i t now q = dset h e q \<and> qe_in_use e = quota_in_use q h"
  unfolding record_paid_def Let_def by (intro exI conjI, rule refl) simp

lemma save_counted:
  assumes "lb_quota_table s = lb_quota s" "q = dset h e (lb_quota s)"
    and "\<And>h'. (if h' = h then qe_in_use e else quota_in_use (lb_quota s) h') = open_count h' (lb_leases s)"
  shows "counted (save_quota qc h q s)"
  using assms by (simp add: counted_def in_use_dset quota_entry_of_def update_conv')

lemma counted_table: "counted s \<Longrightarrow> lb_quota_table s = lb_quota s"
  by (simp add: counted_def)

lemma counted_close:
  assumes "counted s" "leases_ok (lb_leases s)" "l \<in> set (lb_leases s)" "is_open_lease l"
    and "\<And>m. rl_hotkey (f m) = rl_hotkey m \<and> \<not> is_open_lease (f m)"
    and "\<exists>e. q = dset (rl_hotkey l) e (lb_quota s) \<and> qe_in_use e = max 0 (quota_in_use (lb_quota s) (rl_hotkey l) - 1)"
  shows "counted (save_quota qc (rl_hotkey l) q (update_lease (rl_id l) f s))"
proof -
  obtain e where e: "q = dset (rl_hotkey l) e (lb_quota s)" "qe_in_use e = max 0 (quota_in_use (lb_quota s) (rl_hotkey l) - 1)"
    using assms(6) by blast
  have d: "distinct (map rl_id (lb_leases s))" using assms(2) by (simp add: leases_ok_def)
  have c: "quota_in_use (lb_quota s) h = open_count h (lb_leases s)" for h using assms(1) by (simp add: counted_def)
  show ?thesis
  proof (rule save_counted)
    show "(if h' = rl_hotkey l then qe_in_use e else quota_in_use (lb_quota (update_lease (rl_id l) f s)) h')
        = open_count h' (lb_leases (update_lease (rl_id l) f s))" for h'
      using open_count_close [OF d assms(3,4,5), of h'] open_count_pos [OF assms(3,4)] c e(2) by auto
  qed (use e(1) counted_table [OF assms(1)] in simp_all)
qed

lemma close_unsubmitted_counted:
  assumes "counted s" "leases_ok (lb_leases s)" "l \<in> set (lb_leases s)" "is_open_lease l"
  shows "counted (close_unsubmitted cfg qc inp now charged l s)"
proof (rule close_unsubmitted_cases [of qc l now s cfg inp charged])
  fix st cause q
  assume st: "st = LExpired \<or> st = LReleased"
    and q: "q = quota_expiry qc (rl_hotkey l) now ''expired'' (lb_quota s) \<or> q = record_release qc (rl_hotkey l) (lb_quota s)"
    and c: "close_unsubmitted cfg qc inp now charged l s = save_quota qc (rl_hotkey l) q (update_lease (rl_id l) (close_lease st now cause) s)"
  show ?thesis unfolding c
    using st q quota_expiry_entry record_release_entry by (intro counted_close [OF assms]) auto
qed

lemma close_unsubmitted_keeps:
  assumes "m \<in> set (lb_leases s)" "rl_id m \<noteq> rl_id l"
  shows "m \<in> set (lb_leases (close_unsubmitted cfg qc inp now charged l s))"
  by (rule close_unsubmitted_cases [of qc l now s cfg inp charged]) (use assms in \<open>auto simp: image_iff\<close>)

lemma due_leases_ok:
  assumes "inputs_ok inp" "leases_ok (lb_leases s)"
  shows "distinct (map rl_id (due_leases inp now s))"
    "\<And>l. l \<in> set (due_leases inp now s) \<longleftrightarrow> l \<in> set (lb_leases s) \<and> is_open_lease l \<and> rl_expires l \<le> now \<and> \<not> has_key (lb_submitting s) (rl_id l)"
proof -
  let ?xs = "filter (\<lambda>l. is_open_lease l \<and> rl_expires l \<le> now) (lb_leases s)"
  have m: "mset (li_rows inp ?xs) = mset ?xs" using assms(1) unfolding inputs_ok_def by blast
  have "distinct (map rl_id ?xs)" using assms(2) by (simp add: leases_ok_def distinct_map_filter)
  moreover have "mset (map rl_id (li_rows inp ?xs)) = mset (map rl_id ?xs)" unfolding mset_map m by (rule refl)
  ultimately have "distinct (map rl_id (li_rows inp ?xs))" using mset_eq_imp_distinct_iff by blast
  then show "distinct (map rl_id (due_leases inp now s))" unfolding due_leases_def by (rule distinct_map_filter)
  show "\<And>l. l \<in> set (due_leases inp now s) \<longleftrightarrow> l \<in> set (lb_leases s) \<and> is_open_lease l \<and> rl_expires l \<le> now \<and> \<not> has_key (lb_submitting s) (rl_id l)"
    unfolding due_leases_def using set_perm [OF m] by auto
qed

lemma expire_leases_counted:
  assumes "inputs_ok inp" "counted s" "leases_ok (lb_leases s)"
  shows "counted (expire_leases cfg qc inp now s)"
proof -
  have "counted t \<Longrightarrow> leases_ok (lb_leases t) \<Longrightarrow> distinct (map rl_id ls) \<Longrightarrow> (\<And>l. l \<in> set ls \<Longrightarrow> l \<in> set (lb_leases t) \<and> is_open_lease l)
      \<Longrightarrow> counted (fold (close_unsubmitted cfg qc inp now charged) ls t)" for ls charged t
  proof (induction ls arbitrary: t)
    case (Cons l ls)
    have "counted (fold (close_unsubmitted cfg qc inp now charged) ls (close_unsubmitted cfg qc inp now charged l t))"
    proof (rule Cons.IH)
      show "m \<in> set (lb_leases (close_unsubmitted cfg qc inp now charged l t)) \<and> is_open_lease m" if "m \<in> set ls" for m
      proof -
        have "rl_id m \<noteq> rl_id l" using Cons.prems(3) that by (auto simp: image_iff)
        then show ?thesis using Cons.prems(4) [of m] that close_unsubmitted_keeps by simp
      qed
    qed (use Cons.prems in \<open>auto intro: close_unsubmitted_counted close_unsubmitted_leases\<close>)
    then show ?case by simp
  qed simp
  then show ?thesis unfolding expire_leases_def using assms due_leases_ok [OF assms(1,3)] by blast
qed

lemma counted_same:
  assumes "counted s" "lb_quota s' = lb_quota s" "lb_quota_table s' = lb_quota_table s" "\<And>h. open_count h (lb_leases s') = open_count h (lb_leases s)"
  shows "counted s'"
  using assms by (simp add: counted_def)

lemma forfeit_counted:
  assumes "counted s" "leases_ok (lb_leases s)"
  shows "counted (fst (forfeit cfg qc inp i h now s))"
proof (cases "book_lease s i")
  case (Some l)
  then show ?thesis using assms book_lease_some [OF Some] close_unsubmitted_counted [OF assms] by (simp add: forfeit_def)
qed (use assms in \<open>simp add: forfeit_def\<close>)

lemma submit_counted:
  assumes "inputs_ok inp" "counted s" "leases_ok (lb_leases s)"
  shows "counted (fst (submit cfg qc inp i h z d now s))"
proof (cases rule: submittable_cases [of cfg qc inp i h now s])
  case (fit l)
  let ?q = "if d then record_submission qc h z (lb_quota s) else quota_expiry qc h now ''rejected'' (lb_quota s)"
  have l: "l \<in> set (lb_leases s)" "rl_id l = i" using book_lease_some [OF fit(2)] by auto
  have "counted (save_quota qc (rl_hotkey l) ?q (update_lease (rl_id l) (\<lambda>l. l\<lparr>rl_state := LSubmitted, rl_closed := Some now\<rparr>) s))"
    using record_submission_entry [of qc h z "lb_quota s"] quota_expiry_entry [of "''rejected''" qc h now "lb_quota s"] fit(3)
    by (intro counted_close [OF assms(2,3) l(1) fit(4)]) simp_all
  then show ?thesis using fit(1,3) l(2) by (simp add: submit_def)
qed (use assms expire_leases_counted in \<open>simp_all add: submit_def\<close>)

lemma check_counted:
  "inputs_ok inp \<Longrightarrow> counted s \<Longrightarrow> leases_ok (lb_leases s) \<Longrightarrow> counted (fst (check_submission cfg qc inp i h now s))"
  by (cases rule: submittable_cases [of cfg qc inp i h now s]) (simp_all add: check_submission_def expire_leases_counted)

lemma hold_quota: "lb_quota (fst (hold_submission cfg qc inp i h now s)) = lb_quota (fst (check_submission cfg qc inp i h now s))"
  "lb_quota_table (fst (hold_submission cfg qc inp i h now s)) = lb_quota_table (fst (check_submission cfg qc inp i h now s))"
  by (auto simp: hold_submission_def split: prod.split sum.split)

lemma grant_claim_counted:
  assumes "grant_claim H cfg qc inp requests la now c g = Inr g'" "counted (gs_book g)"
  shows "counted (gs_book g')"
  using assms(1)
proof (cases rule: grant_claim_cases)
  case (granted secret nonce l)
  obtain e where e: "record_lease qc (rl_hotkey l) now (lb_quota (gs_book g)) = dset (rl_hotkey l) e (lb_quota (gs_book g))"
    "qe_in_use e = quota_in_use (lb_quota (gs_book g)) (rl_hotkey l) + 1" using record_lease_entry by blast
  have "counted (save_quota qc (rl_hotkey l) (record_lease qc (rl_hotkey l) now (lb_quota (gs_book g)))
      ((gs_book g)\<lparr>lb_leases := lb_leases (gs_book g) @ [l]\<rparr>))"
    using assms(2) e granted(3) by (intro save_counted [where e = e]) (auto simp: counted_def)
  then show ?thesis using granted(5) by (simp add: give_claim_def Let_def)
qed (use assms(2) in \<open>simp add: counted_def\<close>)

lemma claimed_counted:
  "inputs_ok inp \<Longrightarrow> counted s \<Longrightarrow> leases_ok (lb_leases s) \<Longrightarrow> counted (gs_book (fst (claimed H cfg qc inp requests now s)))"
  by (rule claimed_invariant) (auto simp: expire_leases_counted dest: grant_claim_counted)

text \<open>Reconciling sets every entry to the count it is given.\<close>

lemma reconcile_in_use:
  assumes "quotas_ok qc q"
  shows "quota_in_use (reconcile qc counts q) h = dget_or counts h 0"
proof -
  let ?hs = "remdups (dkeys counts @ map fst (filter (\<lambda>(h, e). qe_in_use e \<noteq> 0) q))"
  have "quota_in_use (fold (reconcile_one qc counts) hs q) h = (if h \<in> set hs then dget_or counts h 0 else quota_in_use q h)" for hs q
    by (induction hs arbitrary: q) (auto simp: reconcile_one_def Let_def in_use_dset)
  from this [of ?hs q] have eq: "quota_in_use (reconcile qc counts q) h = (if h \<in> set ?hs then dget_or counts h 0 else quota_in_use q h)"
    unfolding reconcile_def .
  show ?thesis
  proof (cases "h \<in> set ?hs")
    case False
    then have "dget_or counts h 0 = 0" by (intro dget_or_notin) auto
    moreover have "qe_in_use e = 0" if "dget q h = Some e" for e
      using False map_of_SomeD [OF that] by (force simp: image_iff)
    ultimately show ?thesis using eq False by (simp add: quota_in_use_def split: option.split)
  qed (use eq in simp)
qed

lemma open_counts_get: "dget_or (open_counts ls) h 0 = open_count h ls"
proof (cases "h \<in> set (map rl_hotkey (filter is_open_lease ls))")
  case True
  then have "dget (open_counts ls) h = Some (open_count h ls)"
    unfolding open_counts_def open_count_def by (simp add: map_of_map_restrict)
  then show ?thesis by (simp add: dget_or_def)
next
  case False
  then have "filter (\<lambda>l. rl_hotkey l = h \<and> is_open_lease l) ls = []" by (auto simp: filter_empty_conv)
  moreover have "h \<notin> set (dkeys (open_counts ls))" using False by (auto simp: open_counts_def)
  ultimately show ?thesis by (simp add: dget_or_notin open_count_def)
qed

lemma boot_counted:
  assumes "quotas_ok qc (lb_quota_table s)"
  shows "counted (boot qc now s)"
  using reconcile_in_use [OF assms] open_counts_get
  by (auto simp: boot_def Let_def lb_mark_alive_def counted_def lb_note_downtime_def split: option.split)

lemma credit_counted:
  assumes "credit qc i now s = Inr s'" "counted s"
  shows "counted s'"
  using assms(1)
proof (cases rule: credit_cases)
  case (paid l t)
  obtain e where "record_paid qc (rl_hotkey l) (rl_issued l) t now (lb_quota s) = dset (rl_hotkey l) e (lb_quota s)"
    "qe_in_use e = quota_in_use (lb_quota s) (rl_hotkey l)" using record_paid_entry by blast
  then show ?thesis unfolding paid using assms(2) by (intro save_counted [where e = e]) (auto simp: counted_def)
qed (use assms in simp)

text \<open>The controller's entries stay within their bounds, after a failed grant too.\<close>

lemma quotas_event:
  assumes "config_ok qc" "quotas_ok qc q"
  shows "quotas_ok qc (record_lease qc h now q)" "quotas_ok qc (record_release qc h q)" "quotas_ok qc (record_submission qc h z q)"
    "quotas_ok qc (quota_expiry qc h now cause q)" "quotas_ok qc (record_paid qc h i t now q)"
  using quota_step_ok [OF assms(1) _ assms(2)] assms(2) quota_step.intros
  by (auto simp: quota_expiry_def split: sum.split)

definition quotas_inv :: "quota_config \<Rightarrow> lease_book \<Rightarrow> bool" where
  "quotas_inv qc s \<longleftrightarrow> quotas_ok qc (lb_quota s) \<and> quotas_ok qc (lb_quota_table s)"

lemma save_quotas_inv:
  assumes "config_ok qc" "quotas_inv qc s" "quotas_ok qc q"
  shows "quotas_inv qc (save_quota qc h q s)"
  using assms quotas_ok_set [of qc "lb_quota_table s" "quota_entry_of qc q h" h] quota_entry_ok [of qc q h] by (simp add: quotas_inv_def)

lemma quotas_inv_same: "quotas_inv qc s \<Longrightarrow> lb_quota t = lb_quota s \<Longrightarrow> lb_quota_table t = lb_quota_table s \<Longrightarrow> quotas_inv qc t"
  by (simp add: quotas_inv_def)

lemma close_quotas:
  assumes "config_ok qc" "quotas_inv qc s"
  shows "quotas_inv qc (close_unsubmitted cfg qc inp now charged l s)"
proof (rule close_unsubmitted_cases [of qc l now s cfg inp charged])
  fix st cause q
  assume q: "q = quota_expiry qc (rl_hotkey l) now ''expired'' (lb_quota s) \<or> q = record_release qc (rl_hotkey l) (lb_quota s)"
    and c: "close_unsubmitted cfg qc inp now charged l s = save_quota qc (rl_hotkey l) q (update_lease (rl_id l) (close_lease st now cause) s)"
  have "quotas_ok qc q" using q quotas_event [OF assms(1)] assms(2) by (auto simp: quotas_inv_def)
  moreover have "quotas_inv qc (update_lease (rl_id l) (close_lease st now cause) s)" by (rule quotas_inv_same [OF assms(2)]) simp_all
  ultimately show ?thesis unfolding c using save_quotas_inv [OF assms(1)] by blast
qed

lemma expire_quotas:
  assumes "config_ok qc" "quotas_inv qc s"
  shows "quotas_inv qc (expire_leases cfg qc inp now s)"
proof -
  have "quotas_inv qc t \<Longrightarrow> quotas_inv qc (fold (close_unsubmitted cfg qc inp now charged) ls t)" for ls charged t
    by (induction ls arbitrary: t) (simp_all add: close_quotas [OF assms(1)])
  then show ?thesis using assms(2) by (simp add: expire_leases_def)
qed

lemma claimed_quotas:
  assumes "config_ok qc" "quotas_inv qc s"
  shows "quotas_inv qc (gs_book (fst (claimed H cfg qc inp requests now s)))"
proof (rule claimed_invariant)
  show "quotas_inv qc (gs_book g')" if "quotas_inv qc (gs_book g)" "grant_claim H cfg qc inp requests la now c g = Inr g'" for c g g' la
    using that(2)
  proof (cases rule: grant_claim_cases)
    case (granted secret nonce l)
    have "quotas_inv qc ((gs_book g)\<lparr>lb_leases := lb_leases (gs_book g) @ [l]\<rparr>)" using that(1) by (simp add: quotas_inv_def)
    then show ?thesis using granted(5) that(1) quotas_event(1) [OF assms(1)] save_quotas_inv [OF assms(1)]
      by (simp add: give_claim_def Let_def quotas_inv_def)
  qed (use that(1) in \<open>simp add: quotas_inv_def\<close>)
qed (simp add: expire_quotas assms)

lemma boot_quotas:
  assumes "config_ok qc" "quotas_inv qc s"
  shows "quotas_inv qc (boot qc now s)"
proof -
  have "list_all (\<lambda>(h, n). 0 \<le> n) (open_counts ls)" for ls by (auto simp: open_counts_def list_all_iff)
  then have "quotas_ok qc (reconcile qc (open_counts ls) (lb_quota_table s))" for ls
    using reconcile_ok [OF assms(1)] assms(2) by (simp add: quotas_inv_def)
  then show ?thesis by (auto simp: boot_def Let_def lb_mark_alive_def quotas_inv_def lb_note_downtime_def split: option.split)
qed

lemma submit_quotas:
  assumes "config_ok qc" "quotas_inv qc s"
  shows "quotas_inv qc (fst (submit cfg qc inp i h z d now s))"
proof (cases rule: submittable_cases [of cfg qc inp i h now s])
  case (fit l)
  let ?q = "if d then record_submission qc h z (lb_quota s) else quota_expiry qc h now ''rejected'' (lb_quota s)"
  have "quotas_ok qc ?q" using quotas_event [OF assms(1)] assms(2) by (simp add: quotas_inv_def)
  moreover have "quotas_inv qc (update_lease i f s)" for f by (rule quotas_inv_same [OF assms(2)]) simp_all
  ultimately show ?thesis using fit(1) save_quotas_inv [OF assms(1)] by (simp add: submit_def)
qed (use expire_quotas [OF assms] assms(2) in \<open>simp_all add: submit_def\<close>)

lemma check_quotas: "config_ok qc \<Longrightarrow> quotas_inv qc s \<Longrightarrow> quotas_inv qc (fst (check_submission cfg qc inp i h now s))"
  by (cases rule: submittable_cases [of cfg qc inp i h now s]) (simp_all add: check_submission_def expire_quotas)

lemma credit_quotas:
  assumes "config_ok qc" "credit qc i now s = Inr s'" "quotas_inv qc s"
  shows "quotas_inv qc s'"
  using assms(2)
proof (cases rule: credit_cases)
  case (paid l t)
  have "quotas_ok qc (record_paid qc (rl_hotkey l) (rl_issued l) t now (lb_quota s))"
    using quotas_event(5) [OF assms(1)] assms(3) by (simp add: quotas_inv_def)
  then show ?thesis unfolding paid by (rule save_quotas_inv [OF assms(1,3)])
qed (use assms(3) in simp)

lemma note_downtime_quota: "lb_quota (lb_note_downtime since now s) = lb_quota s" "lb_quota_table (lb_note_downtime since now s) = lb_quota_table s"
  by (simp_all add: lb_note_downtime_def)

lemma mark_alive_quota: "lb_quota (mark_alive now s) = lb_quota s" "lb_quota_table (mark_alive now s) = lb_quota_table s"
  by (simp_all add: mark_alive_def lb_mark_alive_def note_downtime_quota split: option.split)

lemma adopt_quota:
  assumes "s' = fst (adopt_checkpoint H cfg cd k secret now s)"
  shows "lb_quota s' = lb_quota s" "lb_quota_table s' = lb_quota_table s"
  using assms by (cases rule: adopt_cases; use revise_frame in \<open>simp add: revised_from_def\<close>)+

lemma joined_quotas:
  assumes "(joined_op cfg qc)\<^sup>*\<^sup>* s t" "config_ok qc" "quotas_inv qc s"
  shows "quotas_inv qc t"
  using assms(1)
proof (induction rule: rtranclp_induct)
  case (step t u)
  from step(2) show ?case
  proof cases
    case (joined_outcome environment prompt_idx checkpoint rewards verdict cooldown now c)
    then show ?thesis by (elim record_outcome_Inr) (use step(3) in \<open>simp add: quotas_inv_def\<close>)
  next
    case (joined_credit lease_id now)
    show ?thesis by (rule credit_quotas [OF assms(2) joined_credit step(3)])
  next
    case (joined_ban hotkey until)
    then show ?thesis using step(3) by (simp add: ban_def quotas_inv_def)
  qed (use step(3) assms(2) in \<open>simp add: submit_quotas\<close>)
qed (rule assms(3))

lemma step_quotas:
  assumes "lb_step H cfg qc f s s'" "config_ok qc" "quotas_inv qc s"
  shows "quotas_inv qc s'"
  using assms(1)
proof cases
  case (step_adopt cooldown_of k secret now)
  show ?thesis using adopt_quota [OF step_adopt(2)] by (intro quotas_inv_same [OF assms(3)])
next
  case (step_undone t)
  show ?thesis using joined_quotas [OF step_undone(3) assms(2,3)] assms(3) step_undone(2) by (simp add: rolled_back_def quotas_inv_def)
next
  case (step_grant inp requests now answers)
  then show ?thesis using claimed_quotas [OF assms(2,3), of H cfg inp requests now] by (auto elim: grant_Inr)
next
  case (step_grant_failed inp requests now e)
  from step_grant_failed(3) show ?thesis
  proof (rule grant_Inl)
    assume "s' = rolled_back s (gs_book (fst (claimed H cfg qc inp requests now s)))"
    then show ?thesis using claimed_quotas [OF assms(2,3), of H cfg inp requests now] assms(3) by (simp add: rolled_back_def quotas_inv_def)
  qed (use assms in simp)
next
  case (step_credit lease_id now)
  show ?thesis by (rule credit_quotas [OF assms(2) step_credit(2) assms(3)])
next
  case (step_outcome environment prompt_idx checkpoint rewards verdict cooldown now c)
  from step_outcome(2) show ?thesis by (rule record_outcome_Inr) (use assms(3) in \<open>simp add: quotas_inv_def\<close>)
next
  case (step_hold inp lease_id hotkey now)
  show ?thesis unfolding step_hold(2)
    by (rule quotas_inv_same [OF check_quotas [OF assms(2,3)]]) (rule hold_quota)+
next
  case (step_forfeit inp lease_id hotkey now)
  then show ?thesis using close_quotas [OF assms(2,3)] assms(3) by (simp add: forfeit_def split: option.split)
next
  case (step_revise cooldown_of)
  then show ?thesis using revise_frame [of s cfg cooldown_of] by (intro quotas_inv_same [OF assms(3)]) (simp_all add: revised_from_def)
qed (use assms in \<open>simp_all add: boot_quotas expire_due_def expire_quotas check_quotas submit_quotas,
    simp_all add: quotas_inv_def mark_alive_quota release_submission_def Let_def ban_def drain_full_def drain_lane_full_def\<close>)

lemma step_counted:
  assumes "lb_step H cfg qc False s s'" "quotas_inv qc s" "leases_ok (lb_leases s)" "counted s"
  shows "counted s'"
  using assms(1)
proof cases
  case (step_adopt cooldown_of k secret now)
  have "open_count h (lb_leases s') = open_count h (lb_leases s)" for h
    using step_adopt(1)
  proof (cases rule: adopt_cases)
    case (new commit t)
    then show ?thesis using revise_frame [of t cfg cooldown_of] by (simp add: revised_from_def open_count_filter)
  qed simp
  then show ?thesis using adopt_quota [OF step_adopt(1)] by (intro counted_same [OF assms(4)])
next
  case (step_grant inp requests now answers)
  then show ?thesis using claimed_counted [OF _ assms(4,3), of inp H cfg qc requests now] by (auto elim: grant_Inr)
next
  case (step_credit lease_id now)
  show ?thesis by (rule credit_counted [OF step_credit(1) assms(4)])
next
  case (step_outcome environment prompt_idx checkpoint rewards verdict cooldown now c)
  from step_outcome(1) show ?thesis by (rule record_outcome_Inr) (use assms(4) in \<open>simp add: counted_def\<close>)
next
  case (step_hold inp lease_id hotkey now)
  show ?thesis unfolding step_hold(1)
    by (rule counted_same [OF check_counted [OF step_hold(2) assms(4,3)]]) (simp_all add: hold_quota hold_leases)
next
  case (step_alive now)
  have "open_count h (lb_leases (mark_alive now s)) = open_count h (lb_leases s)" for h
    by (simp add: mark_alive_def lb_mark_alive_def note_downtime_leases open_count_map split: option.split)
  then show ?thesis unfolding step_alive by (intro counted_same [OF assms(4)]) (simp_all add: mark_alive_quota)
next
  case (step_revise cooldown_of)
  then show ?thesis using revise_frame [of s cfg cooldown_of] by (intro counted_same [OF assms(4)]) (simp_all add: revised_from_def)
qed (use assms in \<open>simp_all add: quotas_inv_def boot_counted expire_due_def expire_leases_counted check_counted submit_counted forfeit_counted,
    simp_all add: counted_def release_submission_def Let_def ban_def drain_full_def drain_lane_full_def\<close>)

end
