(* ===== verification/Rl_Lease_Props.thy ===== *)
theory Rl_Lease_Props
  imports Rl_Lease_Laws
begin

text \<open>
  The lease book's invariant holds in every book reached, and what follows from it: exclusive leases, quotas that count
  them, and an answer to every prompt asked for.
\<close>

section \<open>Reachable books\<close>

definition book_inv :: "(bytes \<Rightarrow> bytes) \<Rightarrow> lease_book_config \<Rightarrow> quota_config \<Rightarrow> lease_book \<Rightarrow> bool" where
  "book_inv H cfg qc s \<longleftrightarrow> leases_ok (lb_leases s) \<and> secrets_ok H cfg s \<and> nonces_ok H s \<and> prompts_ok s \<and> scans_ok s
     \<and> (config_ok qc \<longrightarrow> quotas_inv qc s)"

text \<open>A book starts empty; every step, failed grants included.\<close>

definition lb_init :: "lease_book \<Rightarrow> bool" where
  "lb_init s \<longleftrightarrow> s = empty_book"

definition lb_any :: "(bytes \<Rightarrow> bytes) \<Rightarrow> lease_book_config \<Rightarrow> quota_config \<Rightarrow> lease_book \<Rightarrow> lease_book \<Rightarrow> bool" where
  "lb_any H cfg qc s s' \<longleftrightarrow> (\<exists>f. lb_step H cfg qc f s s')"

lemma empty_book_inv: "book_inv H cfg qc empty_book"
  by (simp add: book_inv_def empty_book_def secrets_ok_def nonces_ok_def prompts_ok_def scans_ok_def seq_of_def key_ok_def
      quotas_inv_def quotas_ok_def)

lemma step_book_inv:
  assumes "book_inv H cfg qc s" "lb_step H cfg qc f s s'"
  shows "book_inv H cfg qc s'"
  using assms(1) step_leases [OF assms(2)] step_secrets_ok [OF assms(2)] step_nonces [OF assms(2)] step_prompts [OF assms(2)]
    step_quotas [OF assms(2)]
  by (simp add: book_inv_def)

interpretation book: step_invariant lb_init "lb_any H cfg qc" "book_inv H cfg qc" for H cfg qc
  by unfold_locales (auto simp: lb_init_def lb_any_def empty_book_inv intro: step_book_inv)






section \<open>Readable cooldowns\<close>

lemma set_map_filter_mem: "y \<in> set (List.map_filter f xs) \<longleftrightarrow> (\<exists>x \<in> set xs. f x = Some y)"
  by (induction xs) (auto split: option.splits)

lemma read_cooldown:
  "(case bind_res x (\<lambda>c. bind_res (u64 c) (\<lambda>_. Inr c)) of Inl e \<Rightarrow> None | Inr c \<Rightarrow> Some (e, c)) = Some (env, n)
     \<longleftrightarrow> e = env \<and> x = Inr n \<and> 0 \<le> n \<and> n < 2 ^ 64"
  by (cases x) (auto simp: u64_def)

lemma readable_mem:
  "(env, n) \<in> set (readable_cooldowns cfg cd) \<longleftrightarrow> has_key (lc_expiry_s cfg) env \<and> cd env = Inr n \<and> 0 \<le> n \<and> n < 2 ^ 64"
  unfolding readable_cooldowns_def set_map_filter_mem has_key_def read_cooldown by blast

text \<open>The cooldown of a served environment reads as an integer that the database does not hold.\<close>

definition unstorable_cooldown :: "lease_book_config \<Rightarrow> (string \<Rightarrow> int res) \<Rightarrow> bool" where
  "unstorable_cooldown cfg cd \<longleftrightarrow> (\<exists>env n. has_key (lc_expiry_s cfg) env \<and> cd env = Inr n \<and> 2 ^ 63 \<le> n \<and> n < 2 ^ 64)"

lemma unstorable_readable: "list_ex (\<lambda>(env, c). \<not> sql_int c) (readable_cooldowns cfg cd) \<longleftrightarrow> unstorable_cooldown cfg cd"
proof -
  have "list_ex (\<lambda>(env, c). \<not> sql_int c) (readable_cooldowns cfg cd) \<longleftrightarrow> (\<exists>env n. (env, n) \<in> set (readable_cooldowns cfg cd) \<and> \<not> sql_int n)"
    by (auto simp: list_ex_iff)
  moreover have "(0 \<le> n \<and> n < 2 ^ 64) \<and> \<not> sql_int n \<longleftrightarrow> 2 ^ 63 \<le> n \<and> n < 2 ^ 64" for n by (auto simp: sql_int_def)
  ultimately show ?thesis unfolding unstorable_cooldown_def readable_mem by (simp only: conj_assoc)
qed

lemma revise_Inl: "revise_cooldowns cfg cd s = Inl e \<longleftrightarrow> e = OverflowError \<and> lb_latest s \<noteq> None \<and> unstorable_cooldown cfg cd"
  by (auto simp: revise_cooldowns_def Let_def unstorable_readable split: option.splits prod.splits)

section \<open>Room\<close>



definition lease_limit :: "lease_book_config \<Rightarrow> quota_config \<Rightarrow> rat \<Rightarrow> lease_book \<Rightarrow> string \<Rightarrow> int" where
  "lease_limit cfg qc now s h =
     (if lc_max_pending cfg = None then quota qc (lb_quota s) h (Some now) else min (quota qc (lb_quota s) h (Some now)) HOTKEY_MAX_OPEN)"

lemma room_of_limit: "room_of cfg qc now s h = (if lb_banned s h now then - 1 else max 0 (lease_limit cfg qc now s h - lb_in_use s h))"
  by (simp add: room_of_def lease_limit_def Let_def)


section \<open>Answers\<close>

definition answers_to :: "rl_lease_request \<Rightarrow> int \<Rightarrow> rl_lease \<Rightarrow> bool" where
  "answers_to rq p l \<longleftrightarrow> rl_hotkey l = rq_hotkey rq \<and> rl_env l = rq_env rq \<and> rl_prompt l = p \<and> rl_k l = rq_k rq \<and> is_open_lease l"

text \<open>What a refusal's reason says of the book.\<close>

definition reason_true :: "rat \<Rightarrow> lease_book \<Rightarrow> rl_lease_request \<Rightarrow> int \<Rightarrow> lease_refusal \<Rightarrow> bool" where
  "reason_true now s rq p r \<longleftrightarrow>
     (case r of
        RStale \<Rightarrow> leasable_secret s (rq_k rq) = None
      | RTaken \<Rightarrow> claim_taken s rq p
      | RBlacklisted \<Rightarrow> (\<exists>row. dget (lb_prompts s) (rq_env rq, p) = Some row \<and> ps_status row = PBlacklisted)
      | RCooling \<Rightarrow> (\<exists>row latest until. dget (lb_prompts s) (rq_env rq, p) = Some row \<and> ps_status row = PCooldown
          \<and> lb_latest s = Some latest \<and> ps_until row = Some until \<and> latest < until)
      | RBanned \<Rightarrow> lb_banned s (rq_hotkey rq) now
      | RQuota \<Rightarrow> True
      | RFull \<Rightarrow> True)"

lemma prompt_refusal_true: "prompt_refusal s (rq_env rq) p = Inr (Some r) \<Longrightarrow> reason_true now s rq p r"
  by (auto simp: prompt_refusal_def reason_true_def not_blacklisted split: option.splits if_splits)

lemma judge_Refuse:
  assumes "judge_claim cfg la rq p s room = Inr (Refuse r)"
  shows "reason_true now s rq p r"
proof (cases "leasable_secret s (rq_k rq)")
  case None
  then show ?thesis using assms by (simp add: judge_claim_def reason_true_def)
next
  case (Some secret)
  show ?thesis
  proof (cases "claim_taken s rq p")
    case True
    then show ?thesis using assms Some by (auto simp: judge_claim_def reason_true_def split: if_splits)
  next
    case False
    then obtain w where w: "prompt_refusal s (rq_env rq) p = Inr w"
      using assms Some by (auto simp: judge_claim_def bind_res_Inr_iff split: if_splits)
    show ?thesis
    proof (cases w)
      case None
      then have "r = RQuota"
        using assms Some False w by (auto simp: judge_claim_def capacity_verdict_def split: if_splits option.splits)
      then show ?thesis by (simp add: reason_true_def)
    next
      case (Some r')
      then show ?thesis
        using assms \<open>leasable_secret s (rq_k rq) = Some secret\<close> False w prompt_refusal_true [of s rq p r' now]
        by (auto simp: judge_claim_def split: if_splits)
    qed
  qed
qed

text \<open>Granting appends leases only, so a reason once true stays true.\<close>

definition grown :: "lease_book \<Rightarrow> lease_book \<Rightarrow> bool" where
  "grown s t \<longleftrightarrow> same_rest s t \<and> set (lb_leases s) \<subseteq> set (lb_leases t)"

lemma grown_refl [simp]: "grown s s"
  by (simp add: grown_def)

lemma reason_grown: "reason_true now s rq p r \<Longrightarrow> grown s t \<Longrightarrow> reason_true now t rq p r"
  by (cases r) (auto simp: reason_true_def grown_def same_rest_def leasable_secret_def claim_taken_def list_ex_iff lb_banned_def)

lemma grant_claim_grown:
  assumes "grant_claim H cfg qc inp requests la now c g = Inr g'"
  shows "grown (gs_book g) (gs_book g')"
  using assms by (cases rule: grant_claim_cases) (auto simp: grown_def)

definition asked_keys :: "rl_lease_request list \<Rightarrow> (nat \<times> int) set" where
  "asked_keys requests = {(i, p). i < length requests \<and> p \<in> set (rq_prompts (requests ! i))}"

text \<open>The prompts answered so far, and those still to be claimed.\<close>

definition answering :: "rat \<Rightarrow> rl_lease_request list \<Rightarrow> (nat \<times> int) set \<Rightarrow> grant_state \<Rightarrow> (nat \<times> int) list \<Rightarrow> bool" where
  "answering now requests asked g pend \<longleftrightarrow>
     (\<forall>c l. dget (gs_granted g) c = Some l \<longrightarrow> answers_to (requests ! fst c) (snd c) l \<and> l \<in> set (lb_leases (gs_book g)))
     \<and> (\<forall>c r. dget (gs_refused g) c = Some r \<longrightarrow> reason_true now (gs_book g) (requests ! fst c) (snd c) r)
     \<and> dict_ok (gs_refused g) \<and> distinct pend
     \<and> asked = {c. has_key (gs_granted g) c} \<union> {c. has_key (gs_refused g) c} \<union> set pend
     \<and> (\<forall>c. \<not> (has_key (gs_granted g) c \<and> has_key (gs_refused g) c))
     \<and> (\<forall>c \<in> set pend. \<not> has_key (gs_granted g) c \<and> \<not> has_key (gs_refused g) c)"

lemma grant_claim_reason:
  assumes "grant_claim H cfg qc inp requests la now c g = Inr g'"
  shows "(\<exists>r full lane. g' = refuse_claim c r full lane g \<and> reason_true now (gs_book g) (requests ! fst c) (snd c) r)
    \<or> (\<exists>l. g' = give_claim qc c l now g \<and> answers_to (requests ! fst c) (snd c) l)"
proof -
  from assms show ?thesis
  proof (cases rule: grant_claim_cases)
    case (granted secret nonce l)
    then show ?thesis by (auto simp: answers_to_def)
  next
    case (refused r full lane)
    have "reason_true now (gs_book g) (requests ! fst c) (snd c) r"
      using refused(2) judge_Refuse by (auto simp: reason_true_def [of now "gs_book g" "requests ! fst c" "snd c" RFull])
    then show ?thesis using refused(1) by blast
  qed
qed

lemma answering_claim:
  assumes "answering now requests asked g (c # cs)" "grant_claim H cfg qc inp requests la now c g = Inr g'"
  shows "answering now requests asked g' cs"
proof -
  have grown: "grown (gs_book g) (gs_book g')" by (rule grant_claim_grown [OF assms(2)])
  have held: "dget (gs_granted g) x = Some l \<Longrightarrow> answers_to (requests ! fst x) (snd x) l \<and> l \<in> set (lb_leases (gs_book g'))" for x l
    using assms(1) grown unfolding answering_def grown_def by blast
  have why: "dget (gs_refused g) x = Some r \<Longrightarrow> reason_true now (gs_book g') (requests ! fst x) (snd x) r" for x r
    using assms(1) reason_grown [OF _ grown] unfolding answering_def by blast
  have rest: "dict_ok (gs_refused g)" "distinct cs" "c \<notin> set cs" "\<not> has_key (gs_granted g) c" "\<not> has_key (gs_refused g) c"
    "asked = {c. has_key (gs_granted g) c} \<union> {c. has_key (gs_refused g) c} \<union> insert c (set cs)"
    "\<And>x. \<not> (has_key (gs_granted g) x \<and> has_key (gs_refused g) x)"
    "\<And>x. x \<in> set cs \<Longrightarrow> \<not> has_key (gs_granted g) x \<and> \<not> has_key (gs_refused g) x"
    using assms(1) unfolding answering_def by (simp_all del: split_paired_All)
  from grant_claim_reason [OF assms(2)] show ?thesis
  proof (elim disjE exE conjE)
    fix r full lane assume g': "g' = refuse_claim c r full lane g" and r: "reason_true now (gs_book g) (requests ! fst c) (snd c) r"
    have "reason_true now (gs_book g') (requests ! fst c) (snd c) r" by (rule reason_grown [OF r grown])
    then have "dget (gs_refused g') x = Some q \<Longrightarrow> reason_true now (gs_book g') (requests ! fst x) (snd x) q" for x q
      using why by (simp add: g' update_conv' split: if_splits)
    moreover have "dict_ok (gs_refused g')" using rest(1) by (simp add: g' distinct_update)
    moreover have "gs_granted g' = gs_granted g" "has_key (gs_refused g') x \<longleftrightarrow> x = c \<or> has_key (gs_refused g) x" for x by (simp_all add: g')
    ultimately show ?thesis using held rest(2-) unfolding answering_def by (auto simp del: split_paired_All)
  next
    fix l assume g': "g' = give_claim qc c l now g" and l: "answers_to (requests ! fst c) (snd c) l"
    have "dget (gs_granted g') x = Some m \<Longrightarrow> answers_to (requests ! fst x) (snd x) m \<and> m \<in> set (lb_leases (gs_book g'))" for x m
      using held l by (simp add: g' update_conv' split: if_splits)
    moreover have "gs_refused g' = gs_refused g" "has_key (gs_granted g') x \<longleftrightarrow> x = c \<or> has_key (gs_granted g) x" for x by (simp_all add: g')
    ultimately show ?thesis using why rest unfolding answering_def by (auto simp del: split_paired_All)
  qed
qed

lemma answering_claims:
  assumes "answering now requests asked g cs" "grant_claims (grant_claim H cfg qc inp requests la now) cs g = (g', None)"
  shows "answering now requests asked g' []"
  using assms
proof (induction cs arbitrary: g)
  case (Cons c cs)
  then obtain g2 where "grant_claim H cfg qc inp requests la now c g = Inr g2" "grant_claims (grant_claim H cfg qc inp requests la now) cs g2 = (g', None)"
    by (auto split: sum.splits)
  then show ?case using Cons.IH [of g2] answering_claim [OF Cons.prems(1)] by blast
qed simp

text \<open>The first pass: every prompt is answered at once or becomes a claim.\<close>

definition bans_known :: "rat \<Rightarrow> grant_state \<Rightarrow> bool" where
  "bans_known now g \<longleftrightarrow> (\<forall>h. dget_or (gs_room g) h 0 < 0 \<longrightarrow> lb_banned (gs_book g) h now)"

lemma held_open_some: "held_open s rq p = Some l \<Longrightarrow> answers_to rq p l \<and> l \<in> set (lb_leases s)"
  unfolding held_open_def by (auto simp: answers_to_def open_of_def dest!: find_some)

lemma answering_refuse:
  assumes "answering now requests asked g pend" "c \<notin> asked" "reason_true now (gs_book g) (requests ! fst c) (snd c) r"
  shows "answering now requests (insert c asked) (g\<lparr>gs_refused := dset c r (gs_refused g)\<rparr>) pend"
  using assms unfolding answering_def by (auto simp: update_conv' distinct_update simp del: split_paired_All split: if_splits)

lemma answering_give:
  assumes "answering now requests asked g pend" "c \<notin> asked" "answers_to (requests ! fst c) (snd c) l" "l \<in> set (lb_leases (gs_book g))"
  shows "answering now requests (insert c asked) (g\<lparr>gs_granted := dset c l (gs_granted g)\<rparr>) pend"
  using assms unfolding answering_def by (auto simp: update_conv' simp del: split_paired_All split: if_splits)

lemma answering_pend:
  assumes "answering now requests asked g pend" "c \<notin> asked"
  shows "answering now requests (insert c asked) (g\<lparr>gs_claims := pend @ [c]\<rparr>) (pend @ [c])"
  using assms unfolding answering_def by (auto simp del: split_paired_All)

lemma ask_prompt_answering:
  assumes "answering now requests asked (snd ag) (gs_claims (snd ag))" "(i, p) \<notin> asked" "bans_known now (snd ag)"
  shows "answering now requests (insert (i, p) asked) (snd (ask_prompt i (requests ! i) p ag)) (gs_claims (snd (ask_prompt i (requests ! i) p ag)))"
proof -
  let ?g = "snd ag" and ?room = "dget_or (gs_room (snd ag)) (rq_hotkey (requests ! i)) 0"
  consider "?room < 0" | l where "0 \<le> ?room" "held_open (gs_book ?g) (requests ! i) p = Some l"
    | "0 \<le> ?room" "held_open (gs_book ?g) (requests ! i) p = None" "?room \<le> fst ag"
    | "0 \<le> ?room" "held_open (gs_book ?g) (requests ! i) p = None" "fst ag < ?room" by (meson not_le option.exhaust)
  then show ?thesis
  proof cases
    case 1
    then have "reason_true now (gs_book ?g) (requests ! i) p RBanned" using assms(3) by (simp add: reason_true_def bans_known_def)
    then show ?thesis using 1 answering_refuse [OF assms(1,2)] by (simp add: ask_prompt_def Let_def)
  next
    case 2
    then show ?thesis using held_open_some [OF 2(2)] answering_give [OF assms(1,2)] by (simp add: ask_prompt_def Let_def)
  next
    case 3
    then show ?thesis using answering_refuse [OF assms(1,2), of RQuota] by (simp add: ask_prompt_def Let_def reason_true_def)
  next
    case 4
    then show ?thesis using answering_pend [OF assms(1,2)] by (simp add: ask_prompt_def Let_def)
  qed
qed

lemma ask_prompts_answering:
  "answering now requests asked (snd ag) (gs_claims (snd ag)) \<Longrightarrow> distinct ps \<Longrightarrow> (\<And>p. p \<in> set ps \<Longrightarrow> (i, p) \<notin> asked) \<Longrightarrow> bans_known now (snd ag)
   \<Longrightarrow> answering now requests (asked \<union> Pair i ` set ps) (snd (fold (ask_prompt i (requests ! i)) ps ag))
     (gs_claims (snd (fold (ask_prompt i (requests ! i)) ps ag)))"
proof (induction ps arbitrary: ag asked)
  case (Cons p ps)
  have "answering now requests (insert (i, p) asked \<union> Pair i ` set ps) (snd (fold (ask_prompt i (requests ! i)) ps (ask_prompt i (requests ! i) p ag)))
      (gs_claims (snd (fold (ask_prompt i (requests ! i)) ps (ask_prompt i (requests ! i) p ag))))"
  proof (rule Cons.IH)
    show "answering now requests (insert (i, p) asked) (snd (ask_prompt i (requests ! i) p ag)) (gs_claims (snd (ask_prompt i (requests ! i) p ag)))"
      using Cons.prems by (intro ask_prompt_answering) auto
    show "bans_known now (snd (ask_prompt i (requests ! i) p ag))"
      using Cons.prems(4) ask_prompt_frame [of i "requests ! i" p ag] by (simp add: bans_known_def)
  qed (use Cons.prems in auto)
  then show ?case by (simp add: insert_commute Un_insert_left)
qed simp

lemma ask_requests_answering:
  assumes "\<And>i. i < length requests \<Longrightarrow> distinct (rq_prompts (requests ! i))"
  shows "n \<le> length requests \<Longrightarrow> answering now requests {} g (gs_claims g) \<Longrightarrow> bans_known now g \<Longrightarrow>
    (let g' = fold ask_request (enumerate 0 (take n requests)) g
     in answering now requests {(i, p). i < n \<and> p \<in> set (rq_prompts (requests ! i))} g' (gs_claims g') \<and> bans_known now g')"
proof (induction n)
  case (Suc n)
  let ?g = "fold ask_request (enumerate 0 (take n requests)) g" and ?rq = "requests ! n"
  have IH: "answering now requests {(i, p). i < n \<and> p \<in> set (rq_prompts (requests ! i))} ?g (gs_claims ?g)" "bans_known now ?g"
    using Suc by (simp_all add: Let_def)
  have "enumerate 0 (take (Suc n) requests) = enumerate 0 (take n requests) @ [(n, ?rq)]"
    using Suc.prems(1) by (simp add: take_Suc_conv_app_nth enumerate_append_eq)
  then have step: "fold ask_request (enumerate 0 (take (Suc n) requests)) g = ask_request (n, ?rq) ?g" by simp
  have "answering now requests ({(i, p). i < n \<and> p \<in> set (rq_prompts (requests ! i))} \<union> Pair n ` set (rq_prompts ?rq)) (ask_request (n, ?rq) ?g)
      (gs_claims (ask_request (n, ?rq) ?g))"
    using ask_prompts_answering [of now requests _ "(0, ?g)" "rq_prompts ?rq" n] IH assms Suc.prems(1) by (simp add: ask_request_def)
  moreover have "{(i, p). i < n \<and> p \<in> set (rq_prompts (requests ! i))} \<union> Pair n ` set (rq_prompts ?rq)
      = {(i, p). i < Suc n \<and> p \<in> set (rq_prompts (requests ! i))}" by (auto simp: less_Suc_eq)
  moreover have "bans_known now (ask_request (n, ?rq) ?g)" using IH(2) ask_request_frame [of "(n, ?rq)" ?g] by (simp add: bans_known_def)
  ultimately show ?case unfolding step Let_def by simp
qed (simp add: Let_def)

lemma check_all:
  assumes "fold_res (\<lambda>rq u. check_request cfg rq) requests () = Inr ()" "rq \<in> set requests"
  shows "check_request cfg rq = Inr ()"
  using assms by (induction requests) (auto simp: bind_res_Inr_iff)

lemma check_distinct: "check_request cfg rq = Inr () \<Longrightarrow> distinct (rq_prompts rq)"
  by (auto simp: check_request_def split: if_splits)

lemma asked_answering:
  assumes "inputs_ok inp" "fold_res (\<lambda>rq u. check_request cfg rq) requests () = Inr ()" "g1 = grant_asked cfg qc requests now s1"
  shows "answering now requests (asked_keys requests) g1 (li_shuffle inp (gs_claims g1))"
proof -
  define g0 where "g0 = \<lparr>gs_book = s1, gs_room = map (\<lambda>h. (h, room_of cfg qc now s1 h)) (remdups (map rq_hotkey requests)),
    gs_granted = [], gs_refused = [], gs_claims = []\<rparr>"
  have start: "answering now requests {} g0 (gs_claims g0)" by (simp add: answering_def g0_def)
  have "dget_or (gs_room g0) h 0 < 0 \<Longrightarrow> lb_banned (gs_book g0) h now" for h
    by (auto simp: g0_def dget_or_def map_of_map_restrict restrict_map_def room_of_limit split: if_splits)
  then have bans: "bans_known now g0" by (simp add: bans_known_def)
  have "distinct (rq_prompts (requests ! i))" if "i < length requests" for i
    using check_distinct check_all [OF assms(2)] that nth_mem by blast
  from ask_requests_answering [OF this order_refl start bans]
  have "answering now requests (asked_keys requests) g1 (gs_claims g1)"
    by (simp add: Let_def asked_keys_def assms(3) grant_asked_def g0_def)
  moreover have "mset (li_shuffle inp (gs_claims g1)) = mset (gs_claims g1)" using assms(1) unfolding inputs_ok_def by blast
  ultimately show ?thesis using set_perm mset_eq_imp_distinct_iff unfolding answering_def by metis
qed

lemma claimed_answering:
  assumes "inputs_ok inp" "fold_res (\<lambda>rq u. check_request cfg rq) requests () = Inr ()" "claimed H cfg qc inp requests now s = (g, None)"
  shows "answering now requests (asked_keys requests) g []"
  using answering_claims [OF asked_answering [OF assms(1,2) refl]] assms(3) by (simp add: claimed_def Let_def)

lemma answer_refused: "dget (la_refused (answer_of g (i, rq))) p = dget (gs_refused g) (i, p)"
proof -
  have "dget (List.map_filter (\<lambda>((j, p), r). if j = i then Some (p, r) else None) d) p = dget d (i, p)" for d :: "(nat \<times> int, lease_refusal) dict"
    by (induction d) (auto simp: List.map_filter_simps split: if_splits)
  then show ?thesis by (simp add: answer_of_def)
qed

lemma answer_leases: "l \<in> set (la_leases (answer_of g (i, rq))) \<longleftrightarrow> (\<exists>p \<in> set (rq_prompts rq). dget (gs_granted g) (i, p) = Some l)"
  by (force simp: answer_of_def List.map_filter_def)

section \<open>Properties of leases\<close>

text \<open>
  C1. Leases are exclusive. In every book that any sequence of operations reaches, in any order, at any times and
  with failed grants among them, no two leases share an id, an (environment, prompt, checkpoint) has at most one
  lease that is open or submitted, and a prompt at most one open lease at all checkpoints together. No grant breaks
  the unique index: with fresh lease ids, a claim the guards let through is always inserted.
\<close>

theorem leases_exclusive:
  assumes "reach lb_init (lb_any H cfg qc) s"
  shows "(\<forall>l \<in> set (lb_leases s). \<forall>m \<in> set (lb_leases s). l \<noteq> m \<longrightarrow>
      rl_id l \<noteq> rl_id m
      \<and> \<not> (is_live l \<and> is_live m \<and> rl_env l = rl_env m \<and> rl_prompt l = rl_prompt m \<and> rl_k l = rl_k m)
      \<and> \<not> (is_open_lease l \<and> is_open_lease m \<and> rl_env l = rl_env m \<and> rl_prompt l = rl_prompt m))
    \<and> (\<forall>la rq p room secret nonce token now. judge_claim cfg la rq p s room = Inr (Grantable secret) \<longrightarrow> token \<notin> rl_id ` set (lb_leases s) \<longrightarrow>
      insert_lease (new_lease cfg rq p nonce token now) s = Inr (s\<lparr>lb_leases := lb_leases s @ [new_lease cfg rq p nonce token now]\<rparr>))"
proof -
  have ok: "leases_ok (lb_leases s)" using book.inv_reach [OF assms] by (simp add: book_inv_def)
  have "insert_lease (new_lease cfg rq p nonce token now) s = Inr (s\<lparr>lb_leases := lb_leases s @ [new_lease cfg rq p nonce token now]\<rparr>)"
    if "judge_claim cfg la rq p s room = Inr (Grantable secret)" "token \<notin> rl_id ` set (lb_leases s)" for la rq p room secret nonce token now
    using judge_Grantable(4) [OF that(1)] that(2) by (auto simp: insert_lease_def list_ex_iff)
  moreover have "rl_id l \<noteq> rl_id m" if "l \<in> set (lb_leases s)" "m \<in> set (lb_leases s)" "l \<noteq> m" for l m
    using leases_ok_unique [OF ok that(1,2)] that(3) by blast
  moreover have "\<not> (is_live l \<and> is_live m \<and> lease_key l = lease_key m)" "\<not> (is_open_lease l \<and> is_open_lease m \<and> prompt_key l = prompt_key m)"
    if "l \<in> set (lb_leases s)" "m \<in> set (lb_leases s)" "l \<noteq> m" for l m
    using ok that unfolding leases_ok_def by (auto simp: distinct_map inj_on_def)
  ultimately show ?thesis by simp
qed


text \<open>
  C11. Every prompt asked for is answered exactly once. When a grant returns, the answer to a request has for each of
  its prompts either an open lease of that prompt, environment and checkpoint, held by the requester and on the book,
  or a refusal, never both; and the reason is true of the book the grant leaves: the prompt is blacklisted, or its
  cooldown still runs, or it is taken, or the checkpoint has no secret left to lease, or the hotkey is banned. Of the
  two reasons that are about counts, a hotkey's quota and a full backlog, nothing more is said here.
\<close>

theorem grant_answers_every_prompt:
  assumes "inputs_ok inp" "rl_grant H cfg qc inp requests now s = (s', Inr answers)"
    and "i < length requests" "p \<in> set (rq_prompts (requests ! i))"
  shows "length answers = length requests
    \<and> ((\<exists>l \<in> set (la_leases (answers ! i)). answers_to (requests ! i) p l \<and> l \<in> set (lb_leases s'))
         \<and> dget (la_refused (answers ! i)) p = None
       \<or> (\<exists>r. dget (la_refused (answers ! i)) p = Some r \<and> reason_true now s' (requests ! i) p r)
         \<and> (\<forall>l \<in> set (la_leases (answers ! i)). rl_prompt l \<noteq> p))"
  using assms(2)
proof (rule grant_Inr)
  fix g
  assume g: "claimed H cfg qc inp requests now s = (g, None)" "s' = gs_book g" "answers = map (answer_of g) (enumerate 0 requests)"
    "fold_res (\<lambda>rq u. check_request cfg rq) requests () = Inr ()"
  have ans: "answering now requests (asked_keys requests) g []" by (rule claimed_answering [OF assms(1) g(4,1)])
  have a: "answers ! i = answer_of g (i, requests ! i)" and len: "length answers = length requests"
    using assms(3) by (simp_all add: g(3) nth_enumerate_eq)
  have lease: "answers_to (requests ! i) q l \<and> l \<in> set (lb_leases s')" if "dget (gs_granted g) (i, q) = Some l" for q l
    using ans that g(2) unfolding answering_def by fastforce
  have "(i, p) \<in> asked_keys requests" using assms(3,4) by (simp add: asked_keys_def)
  then have "has_key (gs_granted g) (i, p) \<noteq> has_key (gs_refused g) (i, p)" using ans unfolding answering_def by auto
  then consider l where "dget (gs_granted g) (i, p) = Some l" "dget (gs_refused g) (i, p) = None"
    | r where "dget (gs_granted g) (i, p) = None" "dget (gs_refused g) (i, p) = Some r" by (auto simp: has_key_dget)
  then show ?thesis
  proof cases
    case 1
    have "l \<in> set (la_leases (answers ! i))" using 1(1) assms(4) unfolding a answer_leases by blast
    then show ?thesis using lease [OF 1(1)] 1(2) len by (auto simp: a answer_refused)
  next
    case 2
    have "reason_true now s' (requests ! i) p r" using ans 2(2) g(2) unfolding answering_def by fastforce
    moreover have "rl_prompt l \<noteq> p" if "l \<in> set (la_leases (answers ! i))" for l
      using that lease 2(1) by (force simp: a answer_leases answers_to_def)
    ultimately show ?thesis using 2(2) len by (simp add: a answer_refused)
  qed
qed

section \<open>An example run\<close>

text \<open>A short stand-in for SHA-256, one environment, one checkpoint, two miners.\<close>

definition ex_H :: "bytes \<Rightarrow> bytes" where
  "ex_H bs = [length bs mod 256]"

definition ex_cfg :: lease_book_config where
  "ex_cfg = \<lparr>lc_expiry_s = [(''math'', 100)], lc_max_lag = 16, lc_prompt_range = None, lc_max_pending = None,
     lc_lane_reserve = None, lc_box_failed = 48\<rparr>"

definition ex_token :: "nat \<times> int \<Rightarrow> string" where
  "ex_token c = replicate (Suc (fst c)) CHR ''t'' @ int_str (snd c)"

definition ex_inp :: lease_inputs where
  "ex_inp = \<lparr>li_failure = None, li_rows = (\<lambda>xs. xs), li_shuffle = (\<lambda>xs. xs), li_token = ex_token, li_buffer = None, li_lane_max = None\<rparr>"

definition ex_cooldown :: "string \<Rightarrow> int res" where
  "ex_cooldown env = Inr 3"

definition ex_book1 :: lease_book where
  "ex_book1 = empty_book\<lparr>lb_latest := Some 0,
     lb_secrets := [\<lparr>sr_k = 0, sr_secret = [7], sr_commitment = [52], sr_adopted_at = 0, sr_revealed_at = None\<rparr>]\<rparr>"

definition ex_requests :: "rl_lease_request list" where
  "ex_requests = [\<lparr>rq_hotkey = ''a'', rq_env = ''math'', rq_prompts = [5, 6], rq_k = 0\<rparr>,
     \<lparr>rq_hotkey = ''b'', rq_env = ''math'', rq_prompts = [6], rq_k = 0\<rparr>]"

lemma ex_adopt: "adopt_checkpoint ex_H ex_cfg ex_cooldown 0 [7] 0 empty_book = (ex_book1, Inr [52])"
  by code_simp

definition ex_lease :: "int \<Rightarrow> rl_lease" where
  "ex_lease p = \<lparr>rl_id = ex_token (0, p), rl_hotkey = ''a'', rl_env = ''math'', rl_prompt = p, rl_k = 0, rl_nonce = [64], rl_issued = 10,
     rl_expires = 110, rl_state = LOpen, rl_closed = None, rl_cause = None\<rparr>"

definition ex_quota :: quota_book where
  "ex_quota = [(''a'', (Hotkey 4)\<lparr>qe_round_quota := 4, qe_in_use := 2, qe_since := Some 10, qe_counters := dset ''leased'' 2 counters\<rparr>)]"

definition ex_book2 :: lease_book where
  "ex_book2 = ex_book1\<lparr>lb_leases := [ex_lease 5, ex_lease 6], lb_quota := ex_quota, lb_quota_table := ex_quota\<rparr>"

definition ex_answers :: "lease_answer list" where
  "ex_answers = [\<lparr>la_leases = [ex_lease 5, ex_lease 6], la_refused = []\<rparr>, \<lparr>la_leases = [], la_refused = [(6, RTaken)]\<rparr>]"

lemma ex_grant: "rl_grant ex_H ex_cfg example_cfg ex_inp ex_requests 10 ex_book1 = (ex_book2, Inr ex_answers)"
  by code_simp

lemma ex_inputs: "inputs_ok ex_inp"
  by (simp add: inputs_ok_def ex_inp_def)

lemma ex_reach1: "reach lb_init (lb_step ex_H ex_cfg example_cfg False) ex_book1"
proof (rule reach_step [OF reach_init [where init = lb_init]])
  show "lb_step ex_H ex_cfg example_cfg False empty_book ex_book1"
    using step_adopt [of ex_H ex_cfg example_cfg empty_book ex_cooldown 0 "[7]" 0] by (simp add: ex_adopt)
qed (simp add: lb_init_def)

lemma ex_reach2: "reach lb_init (lb_step ex_H ex_cfg example_cfg False) ex_book2"
  by (rule reach_step [OF ex_reach1]) (rule step_grant [OF ex_inputs ex_grant])

lemma reach_any: "reach lb_init (lb_step H cfg qc False) s \<Longrightarrow> reach lb_init (lb_any H cfg qc) s"
  by (induction rule: reach.induct) (auto intro: reach_init reach_step simp: lb_any_def)


theorem leases_exclusive_witness:
  "rl_id (ex_lease 5) \<noteq> rl_id (ex_lease 6) \<and> \<not> (is_open_lease (ex_lease 5) \<and> is_open_lease (ex_lease 6) \<and> rl_prompt (ex_lease 5) = rl_prompt (ex_lease 6))
   \<and> (let rq = \<lparr>rq_hotkey = ''b'', rq_env = ''math'', rq_prompts = [8], rq_k = 0\<rparr>; l = new_lease ex_cfg rq 8 [64] ''t'' 20
      in insert_lease l ex_book2 = Inr (ex_book2\<lparr>lb_leases := [ex_lease 5, ex_lease 6, l]\<rparr>))"
proof -
  let ?rq = "\<lparr>rq_hotkey = ''b'', rq_env = ''math'', rq_prompts = [8], rq_k = 0\<rparr>"
  have l: "lb_leases ex_book2 = [ex_lease 5, ex_lease 6]" by (simp add: ex_book2_def)
  have ne: "ex_lease 5 \<noteq> ex_lease 6" by (simp add: ex_lease_def)
  have judge: "judge_claim ex_cfg (lanes_of ex_cfg ex_inp True) ?rq 8 ex_book2 4 = Inr (Grantable [7])" by code_simp
  have token: "''t'' \<notin> rl_id ` set (lb_leases ex_book2)" by (simp add: l) code_simp
  note ex = leases_exclusive [OF reach_any [OF ex_reach2]]
  have two: "rl_id (ex_lease 5) \<noteq> rl_id (ex_lease 6) \<and> \<not> (is_open_lease (ex_lease 5) \<and> is_open_lease (ex_lease 6)
      \<and> rl_env (ex_lease 5) = rl_env (ex_lease 6) \<and> rl_prompt (ex_lease 5) = rl_prompt (ex_lease 6))"
    using ex [THEN conjunct1] ne by (simp add: l)
  have "insert_lease (new_lease ex_cfg ?rq 8 [64] ''t'' 20) ex_book2
      = Inr (ex_book2\<lparr>lb_leases := lb_leases ex_book2 @ [new_lease ex_cfg ?rq 8 [64] ''t'' 20]\<rparr>)"
    using ex [THEN conjunct2] judge token by blast
  then show ?thesis using two by (simp add: Let_def l) (simp add: ex_lease_def)
qed




theorem grant_answers_every_prompt_witness:
  "(\<exists>l. answers_to (ex_requests ! 0) 5 l \<and> l \<in> set (lb_leases ex_book2)) \<and> reason_true 10 ex_book2 (ex_requests ! 1) 6 RTaken"
proof -
  have a: "0 < length ex_requests" "5 \<in> set (rq_prompts (ex_requests ! 0))" "1 < length ex_requests" "6 \<in> set (rq_prompts (ex_requests ! 1))"
    by (simp_all add: ex_requests_def)
  have r: "dget (la_refused (ex_answers ! 0)) 5 = None" "dget (la_refused (ex_answers ! 1)) 6 = Some RTaken" "la_leases (ex_answers ! 1) = []"
    by (simp_all add: ex_answers_def)
  show ?thesis
    using grant_answers_every_prompt [OF ex_inputs ex_grant a(1,2)] grant_answers_every_prompt [OF ex_inputs ex_grant a(3,4)] r by auto
qed

end
