(* ===== verification/Rl_Lease_Life.thy ===== *)
theory Rl_Lease_Life
  imports Rl_Lease_Props
begin

text \<open>
  More of the lease book: nonces anyone can check against the revealed secrets, tables whose rows are as the code
  reads them, and submissions judged at their arrival.
\<close>

section \<open>Length-prefixed fields\<close>

lemma be_bytes_inj:
  assumes "n < 256 ^ k" "m < 256 ^ k" "be_bytes k n = be_bytes k m"
  shows "n = m"
proof -
  have "n mod 256 ^ k = m mod 256 ^ k" using from_be_bytes [of k n] from_be_bytes [of k m] assms(3) by (simp only:)
  then show ?thesis using assms(1,2) by simp
qed

lemma be_bytes_Nil: "be_bytes k n = [] \<longleftrightarrow> k = 0"
  by (cases k) simp_all

lemma bound_input_inj: "bound_input ps = Inr b \<Longrightarrow> bound_input qs = Inr b \<Longrightarrow> ps = qs"
proof (induction ps arbitrary: qs b)
  case Nil
  then show ?case by (cases qs) (auto simp: bind_res_Inr_iff be_bytes_Nil split: if_splits)
next
  case (Cons p ps)
  then obtain b1 where p: "length p < 256 ^ 4" "bound_input ps = Inr b1" "b = be_bytes 4 (length p) @ p @ b1"
    by (auto simp: bind_res_Inr_iff not_le split: if_splits)
  then have "b \<noteq> []" by (simp add: be_bytes_Nil)
  then obtain q qs' where qs: "qs = q # qs'" using Cons.prems(2) by (cases qs) auto
  then obtain b2 where q: "length q < 256 ^ 4" "bound_input qs' = Inr b2" "b = be_bytes 4 (length q) @ q @ b2"
    using Cons.prems(2) by (auto simp: bind_res_Inr_iff not_le split: if_splits)
  have "be_bytes 4 (length p) = be_bytes 4 (length q) \<and> p @ b1 = q @ b2" using p(3) q(3) by (intro append_eq_append_conv [THEN iffD1]) auto
  then have "length p = length q" "p @ b1 = q @ b2" using be_bytes_inj [OF p(1) q(1)] by auto
  then have "p = q" "b1 = b2" by auto
  then show ?case using Cons.IH [OF p(2)] q(2) qs by simp
qed

text \<open>Two different secrets whose hashed inputs collide.\<close>

definition commit_input :: "bytes \<Rightarrow> int \<Rightarrow> bytes res" where
  "commit_input secret k = bind_res (u64 k) (\<lambda>kb. bind_res (bound_input [secret, kb]) (\<lambda>b. Inr (COMMIT_DOMAIN @ b)))"

definition collide :: "(bytes \<Rightarrow> bytes) \<Rightarrow> int \<Rightarrow> bytes \<Rightarrow> bytes \<Rightarrow> bool" where
  "collide H k secret secret' \<longleftrightarrow> (\<exists>x y. commit_input secret k = Inr x \<and> commit_input secret' k = Inr y \<and> x \<noteq> y \<and> H x = H y)"

lemma commitment_input: "secret_commitment H secret k = bind_res (commit_input secret k) (\<lambda>x. Inr (H x))"
  unfolding secret_commitment_def commit_input_def bound_def by (cases "u64 k") (simp_all del: bound_input.simps add: bind_res_def split: sum.split)

lemma commit_input_inj:
  assumes "commit_input secret k = Inr x" "commit_input secret' k = Inr x"
  shows "secret' = secret"
proof -
  obtain kb b where "bound_input [secret, kb] = Inr b" "bound_input [secret', kb] = Inr b"
    using assms unfolding commit_input_def by (auto simp: bind_res_Inr_iff simp del: bound_input.simps)
  from bound_input_inj [OF this] show ?thesis by simp
qed

text \<open>A commitment opens to one secret, unless the inputs of two are a collision of the hash.\<close>

lemma commitment_binds:
  assumes "secret_commitment H secret k = Inr c" "secret_commitment H secret' k = Inr c"
  shows "secret' = secret \<or> collide H k secret secret'"
proof -
  obtain x y where xy: "commit_input secret k = Inr x" "commit_input secret' k = Inr y" "H x = c" "H y = c"
    using assms by (auto simp: commitment_input bind_res_Inr_iff)
  show ?thesis
  proof (cases "x = y")
    case True
    then show ?thesis using commit_input_inj xy(1,2) by blast
  qed (use xy in \<open>auto simp: collide_def\<close>)
qed

lemma reveal_true: "verify_reveal H c k secret = Inr True \<longleftrightarrow> secret_commitment H secret k = Inr c"
  by (auto simp: verify_reveal_def split: sum.splits py_error.splits)

section \<open>Nonces\<close>

lemma revealed_listed:
  assumes "(k, c, secret) \<in> set (cv_revealed (commitments cfg s))"
  shows "\<exists>r \<in> set (lb_secrets s). sr_k r = k \<and> sr_commitment r = c \<and> sr_secret r = secret \<and> sr_revealed_at r \<noteq> None"
  using set_drop_subset assms unfolding commitments_def Let_def by fastforce

lemma active_listed:
  assumes "(k, c) \<in> set (cv_active (commitments cfg s))"
  shows "\<exists>r \<in> set (lb_secrets s). sr_k r = k \<and> sr_commitment r = c \<and> sr_revealed_at r = None"
  using assms unfolding commitments_def Let_def by auto

lemma secrets_ok_row:
  assumes "secrets_ok H cfg s" "r \<in> set (lb_secrets s)"
  obtains latest where "lb_latest s = Some latest" "secret_row_ok H (lc_max_lag cfg) latest r"
  using assms by (cases "lb_latest s") (auto simp: secrets_ok_def)

lemma secrets_ok_unique: "secrets_ok H cfg s \<Longrightarrow> r \<in> set (lb_secrets s) \<Longrightarrow> q \<in> set (lb_secrets s) \<Longrightarrow> sr_k r = sr_k q \<Longrightarrow> r = q"
  by (auto simp: secrets_ok_def distinct_map inj_on_def)

lemma nonces_ok_row:
  assumes "nonces_ok H s" "l \<in> set (lb_leases s)"
  obtains q where "q \<in> set (lb_secrets s)" "sr_k q = rl_k l"
    "lease_nonce H (sr_secret q) (rl_env l) (rl_prompt l) (rl_k l) = Inr (rl_nonce l)"
proof -
  have "audited H (lb_secrets s) l" using assms by (simp add: nonces_ok_def)
  then show thesis unfolding audited_def by (elim bexE conjE) (rule that)
qed

text \<open>
  C9. Nonces can be checked by anyone. In every book reached, a secret is listed as revealed only once its checkpoint
  is older than the latest by more than the lag, and a commitment is listed as active only while it is not; a revealed
  secret opens the commitment published for its checkpoint, every lease of that checkpoint has the nonce that secret
  determines, and no other secret opens the commitment unless the two hashed inputs are a collision
  of the hash.
\<close>

theorem nonces_auditable:
  assumes "reach lb_init (lb_any H cfg qc) s"
  shows "(\<forall>(k, c, secret) \<in> set (cv_revealed (commitments cfg s)).
      verify_reveal H c k secret = Inr True
      \<and> (\<exists>latest. lb_latest s = Some latest \<and> k < latest - lc_max_lag cfg)
      \<and> (\<forall>l \<in> set (lb_leases s). rl_k l = k \<longrightarrow> lease_nonce H secret (rl_env l) (rl_prompt l) k = Inr (rl_nonce l))
      \<and> (\<forall>secret'. verify_reveal H c k secret' = Inr True \<longrightarrow> secret' = secret \<or> collide H k secret secret'))
    \<and> (\<forall>(k, c) \<in> set (cv_active (commitments cfg s)). \<exists>latest. lb_latest s = Some latest \<and> latest - lc_max_lag cfg \<le> k \<and> k \<le> latest)"
proof -
  have inv: "secrets_ok H cfg s" "nonces_ok H s" using book.inv_reach [OF assms] by (simp_all add: book_inv_def)
  have "verify_reveal H c k secret = Inr True \<and> (\<exists>latest. lb_latest s = Some latest \<and> k < latest - lc_max_lag cfg)
      \<and> (\<forall>l \<in> set (lb_leases s). rl_k l = k \<longrightarrow> lease_nonce H secret (rl_env l) (rl_prompt l) k = Inr (rl_nonce l))
      \<and> (\<forall>secret'. verify_reveal H c k secret' = Inr True \<longrightarrow> secret' = secret \<or> collide H k secret secret')"
    if listed: "(k, c, secret) \<in> set (cv_revealed (commitments cfg s))" for k c secret
  proof -
    obtain r where r: "r \<in> set (lb_secrets s)" "sr_k r = k" "sr_commitment r = c" "sr_secret r = secret" "sr_revealed_at r \<noteq> None"
      using revealed_listed [OF listed] by blast
    obtain latest where latest: "lb_latest s = Some latest" "secret_row_ok H (lc_max_lag cfg) latest r" by (rule secrets_ok_row [OF inv(1) r(1)])
    have opens: "secret_commitment H secret k = Inr c" using latest(2) r by (auto simp: secret_row_ok_def)
    have "lease_nonce H secret (rl_env l) (rl_prompt l) k = Inr (rl_nonce l)" if l: "l \<in> set (lb_leases s)" "rl_k l = k" for l
    proof -
      obtain q where q: "q \<in> set (lb_secrets s)" "sr_k q = rl_k l" "lease_nonce H (sr_secret q) (rl_env l) (rl_prompt l) (rl_k l) = Inr (rl_nonce l)"
        by (rule nonces_ok_row [OF inv(2) l(1)])
      then have "q = r" using secrets_ok_unique [OF inv(1) q(1) r(1)] r(2) l(2) by simp
      then show ?thesis using q(3) r(4) l(2) by simp
    qed
    moreover have "k < latest - lc_max_lag cfg" using latest(2) r(2,5) by (simp add: secret_row_ok_def)
    ultimately show ?thesis using opens latest(1) commitment_binds [OF opens] unfolding reveal_true by blast
  qed
  moreover have "\<exists>latest. lb_latest s = Some latest \<and> latest - lc_max_lag cfg \<le> k \<and> k \<le> latest"
    if listed: "(k, c) \<in> set (cv_active (commitments cfg s))" for k c
  proof -
    obtain r where r: "r \<in> set (lb_secrets s)" "sr_k r = k" "sr_revealed_at r = None" using active_listed [OF listed] by blast
    obtain latest where "lb_latest s = Some latest" "secret_row_ok H (lc_max_lag cfg) latest r" by (rule secrets_ok_row [OF inv(1) r(1)])
    then show ?thesis using r(2,3) by (auto simp: secret_row_ok_def)
  qed
  ultimately show ?thesis by blast
qed

section \<open>Rows as the code reads them\<close>

text \<open>A prompt's row has the columns its status needs, and a secret to lease under means there is a latest checkpoint.\<close>

lemma prompts_ok_row: "prompts_ok s \<Longrightarrow> dget (lb_prompts s) key = Some r \<Longrightarrow> prompt_row_ok (seq_of s) r"
proof -
  assume "prompts_ok s" "dget (lb_prompts s) key = Some r"
  then have "key_ok (seq_of s) (lb_scans s) key (Some r)" unfolding prompts_ok_def by metis
  then show ?thesis by (simp add: key_ok_def)
qed

lemma prompt_refusal_total:
  assumes "prompts_ok s" "secrets_ok H cfg s" "leasable_secret s k = Some secret"
  shows "\<exists>w. prompt_refusal s env p = Inr w"
proof -
  obtain r where r: "r \<in> set (lb_secrets s)" using leasable_secret_row [OF assms(3)] by blast
  obtain latest where latest: "lb_latest s = Some latest" by (rule secrets_ok_row [OF assms(2) r])
  show ?thesis
  proof (cases "dget (lb_prompts s) (env, p)")
    case (Some row)
    have "prompt_row_ok (seq_of s) row" by (rule prompts_ok_row [OF assms(1) Some])
    then show ?thesis using Some latest by (cases "ps_status row") (auto simp: prompt_refusal_def prompt_row_ok_def)
  qed (simp add: prompt_refusal_def)
qed

lemma judge_error:
  assumes "prompts_ok s" "secrets_ok H cfg s" "judge_claim cfg' la rq p s room = Inl e"
  shows "e = OverflowError \<and> \<not> sql_int p"
proof (cases "leasable_secret s (rq_k rq)")
  case (Some secret)
  obtain w where w: "prompt_refusal s (rq_env rq) p = Inr w" using prompt_refusal_total [OF assms(1,2) Some] by blast
  then show ?thesis using assms(3) Some by (cases w) (simp_all add: judge_claim_def split: if_splits)
qed (use assms(3) in \<open>simp add: judge_claim_def\<close>)

lemma bound_input_error: "bound_input ps = Inl e \<Longrightarrow> e = OverflowError \<and> (\<exists>part \<in> set ps. 2 ^ 32 \<le> int (length part))"
  by (induction ps) (auto simp: bind_res_Inl_iff split: if_splits)

lemma u64_Inr: "u64 v = Inr b \<longleftrightarrow> 0 \<le> v \<and> v < 2 ^ 64 \<and> b = u64_bytes v"
  by (auto simp: u64_def)

lemma u64_bytes_length [simp]: "length (u64_bytes v) = 8"
  by (simp add: u64_bytes_def)

lemma commitment_Inr: "(\<exists>c. secret_commitment H secret k = Inr c) \<longleftrightarrow> 0 \<le> k \<and> k < 2 ^ 64 \<and> int (length secret) < 2 ^ 32"
  by (auto simp: secret_commitment_def bound_def bind_res_Inr_iff u64_Inr not_le split: if_splits)

lemma commitment_Inl: "secret_commitment H secret k = Inl e \<Longrightarrow> (\<exists>m. e = ValueError m) \<or> e = OverflowError"
  using bound_input_error by (auto simp: secret_commitment_def bound_def bind_res_Inl_iff u64_def simp del: bound_input.simps split: if_splits)

lemma leasable_storable:
  assumes "secrets_ok H cfg s" "leasable_secret s k = Some secret"
  shows "0 \<le> k \<and> k < 2 ^ 64 \<and> int (length secret) < 2 ^ 32"
proof -
  obtain r where r: "r \<in> set (lb_secrets s)" "sr_k r = k" "sr_secret r = secret" using leasable_secret_row [OF assms(2)] by blast
  obtain latest where "secret_row_ok H (lc_max_lag cfg) latest r" by (rule secrets_ok_row [OF assms(1) r(1)])
  then show ?thesis using commitment_Inr [of H secret k] r(2,3) by (auto simp: secret_row_ok_def)
qed

lemma lease_nonce_error:
  assumes "lease_nonce H secret env p k = Inl e" "0 \<le> p" "sql_int p" "0 \<le> k" "k < 2 ^ 64" "int (length secret) < 2 ^ 32"
  shows "e = OverflowError \<and> 2 ^ 32 \<le> int (length (encode env))"
proof -
  have "bound_input [secret, encode env, u64_bytes p, u64_bytes k] = Inl e"
    using assms unfolding lease_nonce_def bound_def by (auto simp: bind_res_Inl_iff u64_def sql_int_def simp del: bound_input.simps)
  from bound_input_error [OF this] assms(6) show ?thesis by auto
qed

text \<open>Why inserting the lease of a claim fails.\<close>

definition claim_error :: "lease_inputs \<Rightarrow> rl_lease_request list \<Rightarrow> string set \<Rightarrow> nat \<times> int \<Rightarrow> py_error \<Rightarrow> bool" where
  "claim_error inp requests ids c e \<longleftrightarrow>
     e = OverflowError \<and> (2 ^ 63 \<le> snd c \<or> 2 ^ 32 \<le> int (length (encode (rq_env (requests ! fst c)))))
     \<or> e = IntegrityError \<and> li_token inp c \<in> ids"

lemma grant_claim_error:
  assumes "prompts_ok (gs_book g)" "secrets_ok H cfg' (gs_book g)" "0 \<le> snd c" "0 \<le> rq_k (requests ! fst c)"
    and "grant_claim H cfg qc inp requests la now c g = Inl e"
  shows "claim_error inp requests (rl_id ` set (lb_leases (gs_book g))) c e"
proof -
  let ?rq = "requests ! fst c"
  let ?v = "judge_claim cfg la ?rq (snd c) (gs_book g) (dget_or (gs_room g) (rq_hotkey ?rq) 0)"
  show ?thesis
  proof (cases ?v)
    case (Inl e')
    then show ?thesis using assms(3,5) judge_error [OF assms(1,2) Inl] by (simp add: grant_claim_def Let_def claim_error_def sql_int_def)
  next
    case (Inr v)
    then obtain secret where v: "v = Grantable secret" using assms(5) by (cases v) (simp_all add: grant_claim_def Let_def)
    note judged = judge_Grantable [OF Inr [unfolded v]]
    show ?thesis
    proof (cases "lease_nonce H secret (rq_env ?rq) (snd c) (rq_k ?rq)")
      case (Inl e')
      then show ?thesis using assms(3,5) \<open>?v = Inr v\<close> v lease_nonce_error [OF Inl] leasable_storable [OF assms(2) judged(1)] judged(2)
        by (simp add: grant_claim_def Let_def claim_error_def)
    next
      case (Inr nonce)
      have "li_token inp c \<in> rl_id ` set (lb_leases (gs_book g)) \<and> e = IntegrityError"
        using assms(5) \<open>?v = Inr v\<close> v Inr judged(4) by (auto simp: grant_claim_def Let_def insert_lease_def list_ex_iff intro!: rev_image_eqI split: if_splits)
      then show ?thesis by (simp add: claim_error_def)
    qed
  qed
qed

lemma same_rest_ok:
  assumes "same_rest s t"
  shows "prompts_ok t = prompts_ok s" "secrets_ok H cfg t = secrets_ok H cfg s" "scans_ok t = scans_ok s"
proof -
  from assms have eqs: "lb_prompts t = lb_prompts s" "lb_scans t = lb_scans s" "seq_of t = seq_of s" "lb_secrets t = lb_secrets s" "lb_latest t = lb_latest s"
    by (simp_all add: same_rest_def seq_of_def)
  show "prompts_ok t = prompts_ok s" "secrets_ok H cfg t = secrets_ok H cfg s" "scans_ok t = scans_ok s"
    unfolding prompts_ok_def secrets_ok_def scans_ok_def eqs by (rule refl)+
qed

lemma grant_claim_ids:
  assumes "grant_claim H cfg qc inp requests la now c g = Inr g'"
  shows "rl_id ` set (lb_leases (gs_book g')) \<subseteq> insert (li_token inp c) (rl_id ` set (lb_leases (gs_book g)))"
  using assms by (cases rule: grant_claim_cases) (auto simp: give_claim_def refuse_claim_def Let_def)

lemma grant_claims_error:
  assumes "\<And>c. c \<in> set cs \<Longrightarrow> 0 \<le> snd c \<and> 0 \<le> rq_k (requests ! fst c)" "prompts_ok (gs_book g)" "secrets_ok H cfg' (gs_book g)"
    and "rl_id ` set (lb_leases (gs_book g)) \<subseteq> ids \<union> li_token inp ` before" "distinct cs" "set cs \<inter> before = {}"
    and "grant_claims (grant_claim H cfg qc inp requests la now) cs g = (g', Some e)"
  shows "\<exists>c \<in> set cs. claim_error inp requests (ids \<union> li_token inp ` (before \<union> set cs - {c})) c e"
  using assms
proof (induction cs arbitrary: g before)
  case (Cons c cs)
  have c: "0 \<le> snd c" "0 \<le> rq_k (requests ! fst c)" using Cons.prems(1) by auto
  show ?case
  proof (cases "grant_claim H cfg qc inp requests la now c g")
    case (Inl e')
    have "claim_error inp requests (rl_id ` set (lb_leases (gs_book g))) c e"
      using Cons.prems(7) grant_claim_error [OF Cons.prems(2,3) c Inl] Inl by simp
    moreover have "before \<subseteq> before \<union> set (c # cs) - {c}" using Cons.prems(6) by auto
    ultimately show ?thesis using Cons.prems(4) unfolding claim_error_def by (intro bexI [of _ c]) auto
  next
    case (Inr g2)
    have "same_rest (gs_book g) (gs_book g2)" using grant_claim_grown [OF Inr] by (simp add: grown_def)
    then have ok: "prompts_ok (gs_book g2)" "secrets_ok H cfg' (gs_book g2)" using same_rest_ok Cons.prems(2,3) by blast+
    have "rl_id ` set (lb_leases (gs_book g2)) \<subseteq> ids \<union> li_token inp ` insert c before"
      using grant_claim_ids [OF Inr] Cons.prems(4) by blast
    then have "\<exists>x \<in> set cs. claim_error inp requests (ids \<union> li_token inp ` (insert c before \<union> set cs - {x})) x e"
      using Cons.IH [OF _ ok, of "insert c before"] Cons.prems(1,5,6,7) Inr by simp
    then show ?thesis by simp
  qed
qed simp

lemma check_nonneg: "check_request cfg rq = Inr () \<Longrightarrow> 0 \<le> rq_k rq \<and> (\<forall>p \<in> set (rq_prompts rq). 0 \<le> p)"
  by (auto simp: check_request_def list_ex_iff not_less split: if_splits)

text \<open>
  A malformed request: no hotkey, an environment that is not served, a negative checkpoint, not between 1 and 1024
  prompts, a negative or repeated prompt, or one outside the configured rows of its environment.
\<close>

definition malformed :: "lease_book_config \<Rightarrow> rl_lease_request \<Rightarrow> bool" where
  "malformed cfg rq \<longleftrightarrow> rq_hotkey rq = [] \<or> \<not> has_key (lc_expiry_s cfg) (rq_env rq) \<or> rq_k rq < 0
     \<or> rq_prompts rq = [] \<or> 1024 < length (rq_prompts rq) \<or> (\<exists>p \<in> set (rq_prompts rq). p < 0) \<or> \<not> distinct (rq_prompts rq)
     \<or> (\<exists>bounds. dget (or_empty (lc_prompt_range cfg)) (rq_env rq) = Some bounds
          \<and> (\<forall>rows. rows_of bounds = Inr rows \<longrightarrow> (\<exists>p \<in> set (rq_prompts rq). \<not> rows_contains rows (PInt p))))"

lemma check_error: "check_request cfg rq = Inl e \<Longrightarrow> malformed cfg rq \<and> ((\<exists>m. e = ValueError m) \<or> e = OverflowError)"
  by (auto simp: malformed_def check_request_def MAX_PROMPTS_PER_REQUEST_def list_ex_iff bind_res_Inl_iff PromptRows_def py_len_def Let_def
      elim!: rows_of.elims split: if_splits option.splits)

lemma checks_error:
  "fold_res (\<lambda>rq u. check_request cfg rq) requests () = Inl e \<Longrightarrow> \<exists>rq \<in> set requests. malformed cfg rq \<and> ((\<exists>m. e = ValueError m) \<or> e = OverflowError)"
  by (induction requests) (auto simp: bind_res_Inl_iff dest: check_error)

text \<open>Why a grant fails.\<close>

definition token_reused :: "lease_inputs \<Rightarrow> rl_lease_request list \<Rightarrow> lease_book \<Rightarrow> bool" where
  "token_reused inp requests s \<longleftrightarrow> (\<exists>c \<in> asked_keys requests. li_token inp c \<in> rl_id ` set (lb_leases s)
     \<or> (\<exists>c' \<in> asked_keys requests. c' \<noteq> c \<and> li_token inp c' = li_token inp c))"

definition grant_fault :: "lease_book_config \<Rightarrow> lease_inputs \<Rightarrow> rl_lease_request list \<Rightarrow> lease_book \<Rightarrow> py_error \<Rightarrow> bool" where
  "grant_fault cfg inp requests s e \<longleftrightarrow>
     (\<exists>rq \<in> set requests. malformed cfg rq) \<and> ((\<exists>m. e = ValueError m) \<or> e = OverflowError)
     \<or> (\<exists>rq \<in> set requests. (\<exists>p \<in> set (rq_prompts rq). 2 ^ 63 \<le> p) \<or> 2 ^ 32 \<le> int (length (encode (rq_env rq)))) \<and> e = OverflowError
     \<or> token_reused inp requests s \<and> e = IntegrityError"

lemma claim_fault:
  assumes "c \<in> asked_keys requests" "A \<subseteq> asked_keys requests - {c}" "claim_error inp requests (rl_id ` set (lb_leases s) \<union> li_token inp ` A) c e"
  shows "grant_fault cfg inp requests s e"
proof -
  have rq: "requests ! fst c \<in> set requests" "snd c \<in> set (rq_prompts (requests ! fst c))" using assms(1) by (auto simp: asked_keys_def)
  from assms(3) consider
    "e = OverflowError" "2 ^ 63 \<le> snd c \<or> 2 ^ 32 \<le> int (length (encode (rq_env (requests ! fst c))))"
    | "e = IntegrityError" "li_token inp c \<in> rl_id ` set (lb_leases s) \<union> li_token inp ` A" unfolding claim_error_def by blast
  then show ?thesis
  proof cases
    case 1
    then show ?thesis using rq unfolding grant_fault_def by blast
  next
    case 2
    then have "token_reused inp requests s" using assms(1,2) unfolding token_reused_def by fastforce
    then show ?thesis using 2(1) by (simp add: grant_fault_def)
  qed
qed

lemma expire_ids: "rl_id ` set (lb_leases (expire_leases cfg qc inp now s)) = rl_id ` set (lb_leases s)"
proof -
  have "rl_id ` set (lb_leases t) = fst ` cores t" for t by (force simp: core_def image_image)
  then show ?thesis by (simp add: expire_leases_cores)
qed

lemma grant_error:
  assumes "prompts_ok s" "secrets_ok H cfg' s" "inputs_ok inp" "snd (rl_grant H cfg qc inp requests now s) = Inl e"
  shows "grant_fault cfg inp requests s e"
proof (cases "fold_res (\<lambda>rq u. check_request cfg rq) requests ()")
  case (Inl e')
  then show ?thesis using assms(4) checks_error [OF Inl] by (auto simp: rl_grant_def grant_fault_def)
next
  case (Inr u)
  define s1 where "s1 = expire_leases cfg qc inp now s"
  define g1 where "g1 = grant_asked cfg qc requests now s1"
  define claims where "claims = li_shuffle inp (gs_claims g1)"
  obtain g2 err where c: "grant_claims (grant_claim H cfg qc inp requests (lanes_of cfg inp (claims \<noteq> [])) now) claims g1 = (g2, err)"
    by (metis surj_pair)
  then have err: "err = Some e" using assms(4) Inr by (cases err) (simp_all add: rl_grant_def Let_def claims_def g1_def s1_def)
  have "answering now requests (asked_keys requests) g1 claims"
    unfolding claims_def using asked_answering [OF assms(3) _ g1_def] Inr by simp
  then have sub: "set claims \<subseteq> asked_keys requests" "distinct claims" unfolding answering_def by blast+
  have nonneg: "0 \<le> snd x \<and> 0 \<le> rq_k (requests ! fst x)" if "x \<in> set claims" for x
  proof -
    have x: "fst x < length requests" "snd x \<in> set (rq_prompts (requests ! fst x))" using sub(1) that by (auto simp: asked_keys_def)
    then have "check_request cfg (requests ! fst x) = Inr ()" using check_all [of cfg requests] Inr by simp
    then show ?thesis using check_nonneg x(2) by blast
  qed
  have book: "gs_book g1 = s1" "same_rest s s1" by (simp_all add: g1_def grant_asked_frame s1_def expire_leases_rest)
  then have "prompts_ok (gs_book g1)" "secrets_ok H cfg' (gs_book g1)" using same_rest_ok [OF book(2)] assms(1,2) by simp_all
  from grant_claims_error [OF nonneg this _ sub(2) _ c [unfolded err], where ids = "rl_id ` set (lb_leases s)" and before = "{}"]
  have "\<exists>x \<in> set claims. claim_error inp requests (rl_id ` set (lb_leases s) \<union> li_token inp ` (set claims - {x})) x e"
    by (simp add: book(1) s1_def expire_ids)
  then obtain x where "x \<in> set claims" "claim_error inp requests (rl_id ` set (lb_leases s) \<union> li_token inp ` (set claims - {x})) x e" by blast
  then show ?thesis using claim_fault [of x requests "set claims - {x}"] sub(1) by blast
qed

text \<open>The checkpoints whose adoption is refused: no 64-bit integer, older than the latest, or new and not storable.\<close>

definition adopt_refused :: "int \<Rightarrow> bytes \<Rightarrow> lease_book \<Rightarrow> bool" where
  "adopt_refused k secret s \<longleftrightarrow> k < 0 \<or> 2 ^ 64 \<le> k \<or> (\<exists>latest. lb_latest s = Some latest \<and> k < latest)
     \<or> lb_latest s \<noteq> Some k \<and> (2 ^ 63 \<le> k \<or> 2 ^ 32 \<le> int (length secret))"

lemma adopt_row_refused:
  assumes "adopt_refused k secret s"
  shows "\<exists>e. bind_res (u64 k) (\<lambda>_. adopt_row H cfg k secret now s) = Inl e \<and> ((\<exists>m. e = ValueError m) \<or> e = OverflowError)"
proof (cases "0 \<le> k \<and> k < 2 ^ 64 \<and> \<not> (\<exists>latest. lb_latest s = Some latest \<and> k < latest)")
  case True
  then have new: "lb_latest s \<noteq> Some k" "2 ^ 63 \<le> k \<or> 2 ^ 32 \<le> int (length secret)" using assms by (auto simp: adopt_refused_def)
  have "u64 k = Inr (u64_bytes k)" using True by (simp add: u64_Inr)
  moreover have "adopt_row H cfg k secret now s = bind_res (secret_commitment H secret k) (\<lambda>c. Inl OverflowError)"
    if "2 ^ 63 \<le> k" using that True new(1) by (cases "secret_commitment H secret k") (auto simp: adopt_row_def sql_int_def split: option.splits)
  moreover have "\<exists>e. secret_commitment H secret k = Inl e \<and> adopt_row H cfg k secret now s = Inl e" if "2 ^ 32 \<le> int (length secret)"
    using that True new(1) commitment_Inr [of H secret k] by (cases "secret_commitment H secret k") (auto simp: adopt_row_def split: option.splits)
  ultimately show ?thesis using new(2) commitment_Inl [of H secret k] by (cases "secret_commitment H secret k") auto
qed (auto simp: u64_def adopt_row_def)

lemma adopt_row_done:
  assumes "secrets_ok H cfg s" "\<not> adopt_refused k secret s"
  shows "\<exists>s' row. bind_res (u64 k) (\<lambda>_. adopt_row H cfg k secret now s) = Inr (s', sr_commitment row) \<and> row \<in> set (lb_secrets s') \<and> sr_k row = k
    \<and> lb_latest s' = Some k"
proof (cases "lb_latest s = Some k")
  case True
  then obtain row where "find (\<lambda>r. sr_k r = k) (lb_secrets s) = Some row"
    using assms(1) by (cases "find (\<lambda>r. sr_k r = k) (lb_secrets s)") (auto simp: secrets_ok_def find_None_iff)
  then show ?thesis using True assms(2) find_some by (fastforce simp: adopt_row_def adopt_refused_def u64_def)
next
  case False
  then have k: "0 \<le> k" "k < 2 ^ 63" "int (length secret) < 2 ^ 32" "\<And>latest. lb_latest s = Some latest \<Longrightarrow> latest \<le> k"
    using assms(2) by (auto simp: adopt_refused_def not_le not_less)
  then obtain c where c: "secret_commitment H secret k = Inr c" using commitment_Inr [of H secret k] by auto
  have fresh: "\<not> list_ex (\<lambda>r. sr_k r = k) (lb_secrets s)"
  proof
    assume "list_ex (\<lambda>r. sr_k r = k) (lb_secrets s)"
    then obtain r where r: "r \<in> set (lb_secrets s)" "sr_k r = k" by (auto simp: list_ex_iff)
    obtain latest where "lb_latest s = Some latest" "secret_row_ok H (lc_max_lag cfg) latest r" by (rule secrets_ok_row [OF assms(1) r(1)])
    then show False using False k(4) r(2) by (auto simp: secret_row_ok_def)
  qed
  let ?rows = "map (reveal_secret (k - lc_max_lag cfg) now) (lb_secrets s @
    [\<lparr>sr_k = k, sr_secret = secret, sr_commitment = c, sr_adopted_at = now, sr_revealed_at = None\<rparr>])"
  have "find (\<lambda>r. sr_k r = k) ?rows \<noteq> None" by (auto simp: find_None_iff)
  then obtain row where row: "find (\<lambda>r. sr_k r = k) ?rows = Some row" by blast
  have "\<not> (case lb_latest s of None \<Rightarrow> False | Some latest \<Rightarrow> k < latest)" using k(4) by (auto split: option.split)
  then show ?thesis using False c fresh k row find_some [OF row]
    by (auto simp: adopt_row_def u64_def sql_int_def Let_def simp del: map_append)
qed

lemma adopt_exact:
  assumes "secrets_ok H cfg s"
  shows "if adopt_refused k secret s
    then \<exists>e. adopt_checkpoint H cfg cd k secret now s = (s, Inl e) \<and> ((\<exists>m. e = ValueError m) \<or> e = OverflowError)
    else \<exists>s' row. row \<in> set (lb_secrets s') \<and> sr_k row = k \<and> lb_latest s' = Some k
      \<and> adopt_checkpoint H cfg cd k secret now s
          = (s', if lb_latest s \<noteq> Some k \<and> unstorable_cooldown cfg cd then Inl OverflowError else Inr (sr_commitment row))"
proof (cases "adopt_refused k secret s")
  case True
  then show ?thesis using adopt_row_refused [OF True, of H cfg now] by (auto simp: adopt_checkpoint_def)
next
  case False
  obtain t row where t: "bind_res (u64 k) (\<lambda>_. adopt_row H cfg k secret now s) = Inr (t, sr_commitment row)" "row \<in> set (lb_secrets t)"
    "sr_k row = k" "lb_latest t = Some k" using adopt_row_done [OF assms False] by blast
  have frame: "lb_secrets (after_revision cfg cd t) = lb_secrets t" "lb_latest (after_revision cfg cd t) = lb_latest t"
    using revise_frame [of t cfg cd] by (simp_all add: revised_from_def)
  show ?thesis
  proof (cases "revise_cooldowns cfg cd t")
    case (Inl e)
    then have "e = OverflowError" "unstorable_cooldown cfg cd" by (simp_all add: revise_Inl)
    then show ?thesis using False t Inl by (auto simp: adopt_checkpoint_def)
  next
    case (Inr w)
    then have "\<not> unstorable_cooldown cfg cd" using revise_Inl [of cfg cd t OverflowError] t(4) by auto
    moreover obtain u n where w: "w = (u, n)" by (cases w)
    ultimately show ?thesis using False t Inr frame by (auto simp: adopt_checkpoint_def after_revision_def)
  qed
qed

text \<open>
  C14. The tables hold what the code reads from them. In every book reached, a cooling prompt's row has a start and an
  end, the end not before the start, and a blacklisted one neither; a submitted lease has its closing time. So no
  operation meets a null it does not expect, and each fails on the inputs named here and on no other. Crediting a lease
  always succeeds. Adopting a checkpoint is refused, with the book as it was, exactly when the checkpoint is no unsigned
  64-bit integer, is older than the latest, or is new and does not fit the database (or its secret the commitment);
  otherwise it becomes the latest and its commitment is returned, except that a new one is adopted and the call still
  raises when a served environment's cooldown reads as an integer the database does not hold. A grant fails only when a
  request is malformed, when a prompt's index does not fit the database or an environment's name the nonce, or when a
  lease id is already in use.
\<close>

theorem book_tables_typed:
  assumes "reach lb_init (lb_any H cfg qc) s" "inputs_ok inp"
  shows "(\<forall>key r. dget (lb_prompts s) key = Some r \<longrightarrow>
      (case ps_status r of
         PCooldown \<Rightarrow> (\<exists>a u. ps_start r = Some a \<and> ps_until r = Some u \<and> 0 \<le> a \<and> a \<le> u)
       | PBlacklisted \<Rightarrow> ps_start r = None \<and> ps_until r = None))
    \<and> (\<forall>l \<in> set (lb_leases s). rl_state l = LSubmitted \<longrightarrow> rl_closed l \<noteq> None)
    \<and> (\<exists>s'. credit qc i now s = Inr s')
    \<and> (if adopt_refused k secret s
       then \<exists>e. adopt_checkpoint H cfg cd k secret now s = (s, Inl e) \<and> ((\<exists>m. e = ValueError m) \<or> e = OverflowError)
       else \<exists>s' row. row \<in> set (lb_secrets s') \<and> sr_k row = k \<and> lb_latest s' = Some k
         \<and> adopt_checkpoint H cfg cd k secret now s
             = (s', if lb_latest s \<noteq> Some k \<and> unstorable_cooldown cfg cd then Inl OverflowError else Inr (sr_commitment row)))
    \<and> (\<forall>e. snd (rl_grant H cfg qc inp requests now s) = Inl e \<longrightarrow> grant_fault cfg inp requests s e)"
proof -
  have inv: "leases_ok (lb_leases s)" "secrets_ok H cfg s" "prompts_ok s" using book.inv_reach [OF assms(1)] by (simp_all add: book_inv_def)
  have rows: "case ps_status r of PCooldown \<Rightarrow> (\<exists>a u. ps_start r = Some a \<and> ps_until r = Some u \<and> 0 \<le> a \<and> a \<le> u)
      | PBlacklisted \<Rightarrow> ps_start r = None \<and> ps_until r = None" if "dget (lb_prompts s) key = Some r" for key r
    using prompts_ok_row [OF inv(3) that] by (simp add: prompt_row_ok_def)
  have closed: "\<forall>l \<in> set (lb_leases s). rl_state l = LSubmitted \<longrightarrow> rl_closed l \<noteq> None" using inv(1) by (simp add: leases_ok_def)
  have "\<exists>s'. credit qc i now s = Inr s'"
  proof (cases "find (\<lambda>l. rl_id l = i \<and> rl_state l = LSubmitted) (lb_leases s)")
    case (Some l)
    then have "rl_closed l \<noteq> None" using find_some [OF Some] closed by blast
    then show ?thesis using Some by (auto simp: credit_def)
  qed (simp add: credit_def)
  with rows closed show ?thesis
    by (intro conjI adopt_exact [OF inv(2)]) (use grant_error [OF inv(3,2) assms(2)] in blast)+
qed

section \<open>Submissions\<close>

text \<open>Whatever happens to a lease whose submission is held, while it is: it is submitted, or stays open no shorter.\<close>

definition goes_on :: "rl_lease \<Rightarrow> rl_lease list \<Rightarrow> bool" where
  "goes_on m ls \<longleftrightarrow> (\<exists>m' \<in> set ls. core m' = core m \<and> (is_open_lease m' \<and> rl_expires m \<le> rl_expires m' \<or> rl_state m' = LSubmitted))"

lemma goes_on_refl: "m \<in> set ls \<Longrightarrow> is_open_lease m \<Longrightarrow> goes_on m ls"
  by (auto simp: goes_on_def)

lemma goes_on_map: "m \<in> set ls \<Longrightarrow> is_open_lease m \<Longrightarrow> core (f m) = core m \<Longrightarrow> is_open_lease (f m) \<Longrightarrow> rl_expires m \<le> rl_expires (f m) \<Longrightarrow> goes_on m (map f ls)"
  by (auto simp: goes_on_def)

lemma expire_keeps_held:
  assumes "inputs_ok inp" "leases_ok (lb_leases s)" "has_key (lb_submitting s) (rl_id m)" "m \<in> set (lb_leases s)"
  shows "m \<in> set (lb_leases (expire_leases cfg qc inp now s))"
proof -
  have "m \<in> set (lb_leases t) \<Longrightarrow> (\<And>l. l \<in> set ls \<Longrightarrow> rl_id m \<noteq> rl_id l) \<Longrightarrow> m \<in> set (lb_leases (fold (close_unsubmitted cfg qc inp now charged) ls t))"
    for ls charged t
  proof (induction ls arbitrary: t)
    case (Cons l ls)
    have "m \<in> set (lb_leases (close_unsubmitted cfg qc inp now charged l t))" using Cons.prems by (intro close_unsubmitted_keeps) auto
    then show ?case using Cons.IH Cons.prems(2) by simp
  qed simp
  moreover have "rl_id m \<noteq> rl_id l" if "l \<in> set (due_leases inp now s)" for l
    using due_leases_ok(2) [OF assms(1,2)] that assms(3) by auto
  ultimately show ?thesis using assms(4) unfolding expire_leases_def by blast
qed

lemma claimed_keeps:
  assumes "m \<in> set (lb_leases (expire_leases cfg qc inp now s))"
  shows "m \<in> set (lb_leases (gs_book (fst (claimed H cfg qc inp requests now s))))"
proof (rule claimed_invariant)
  show "m \<in> set (lb_leases (gs_book g'))" if "m \<in> set (lb_leases (gs_book g))" "grant_claim H cfg qc inp requests la now c g = Inr g'" for c g g' la
    using grant_claim_grown [OF that(2)] that(1) by (auto simp: grown_def)
qed (use assms in simp)

lemma note_downtime_goes_on:
  assumes "m \<in> set (lb_leases s)" "is_open_lease m"
  shows "\<exists>m' \<in> set (lb_leases (lb_note_downtime since now s)). core m' = core m \<and> is_open_lease m' \<and> rl_expires m \<le> rl_expires m'"
proof (cases "now - since \<le> DOWNTIME_MIN_S")
  case True
  then show ?thesis using assms by (auto simp: lb_note_downtime_def)
next
  case False
  let ?m = "extend_open (now - since) m"
  have "0 \<le> now - since" using False by (simp add: DOWNTIME_MIN_S_def)
  then have "rl_expires m \<le> rl_expires ?m" by (simp add: extend_open_def)
  moreover have "?m \<in> set (lb_leases (lb_note_downtime since now s))" using assms(1) False by (simp add: lb_note_downtime_def)
  ultimately show ?thesis using assms(2) by (intro bexI [of _ ?m]) simp_all
qed

lemma goes_onI: "m' \<in> set ls \<Longrightarrow> core m' = core m \<Longrightarrow> is_open_lease m' \<Longrightarrow> rl_expires m \<le> rl_expires m' \<Longrightarrow> goes_on m ls"
  by (auto simp: goes_on_def)

lemma boot_goes_on:
  assumes "m \<in> set (lb_leases s)" "is_open_lease m"
  shows "goes_on m (lb_leases (boot qc now s))"
proof -
  let ?s = "s\<lparr>lb_full := [], lb_lane_full := [], lb_submitting := [], lb_alive_at := None, lb_quota := lb_quota_table s\<rparr>"
  let ?s2 = "case lb_alive ?s of None \<Rightarrow> ?s | Some t \<Rightarrow> lb_note_downtime t now ?s"
  have "\<exists>m' \<in> set (lb_leases ?s2). core m' = core m \<and> is_open_lease m' \<and> rl_expires m \<le> rl_expires m'"
  proof (cases "lb_alive s")
    case (Some t)
    then show ?thesis using note_downtime_goes_on [of m ?s t now] assms by simp
  qed (use assms in auto)
  then obtain m' where m': "m' \<in> set (lb_leases ?s2)" "core m' = core m" "is_open_lease m'" "rl_expires m \<le> rl_expires m'" by blast
  have "rl_expires m' \<le> rl_expires (grace (now + RESTART_GRACE_S) m')" by (simp add: grace_def)
  moreover have "lb_leases (boot qc now s) = map (grace (now + RESTART_GRACE_S)) (lb_leases ?s2)" by (simp add: boot_def Let_def lb_mark_alive_def)
  ultimately show ?thesis using m' by (intro goes_onI [of "grace (now + RESTART_GRACE_S) m'"]) auto
qed

lemma mark_alive_goes_on:
  assumes "m \<in> set (lb_leases s)" "is_open_lease m"
  shows "goes_on m (lb_leases (mark_alive now s))"
proof (cases "lb_alive_at s")
  case (Some t)
  show ?thesis using note_downtime_goes_on [OF assms, of t now] goes_on_refl [OF assms] Some
    by (auto simp: mark_alive_def lb_mark_alive_def goes_on_def)
qed (use goes_on_refl [OF assms] in \<open>simp add: mark_alive_def lb_mark_alive_def\<close>)

lemma submit_goes_on:
  assumes "inputs_ok inp" "leases_ok (lb_leases s)" "has_key (lb_submitting s) (rl_id m)" "m \<in> set (lb_leases s)" "is_open_lease m"
  shows "goes_on m (lb_leases (fst (submit cfg qc inp i h z d now s)))"
proof (cases rule: submittable_cases [of cfg qc inp i h now s])
  case (fit l)
  let ?f = "\<lambda>l. if rl_id l = i then l\<lparr>rl_state := LSubmitted, rl_closed := Some now\<rparr> else l"
  have "?f m \<in> set (map ?f (lb_leases s))" unfolding set_map by (rule imageI [OF assms(4)])
  moreover have "core (?f m) = core m" "is_open_lease (?f m) \<and> rl_expires m \<le> rl_expires (?f m) \<or> rl_state (?f m) = LSubmitted"
    using assms(5) by simp_all
  ultimately have "goes_on m (map ?f (lb_leases s))" unfolding goes_on_def by blast
  then show ?thesis using fit(1) by (simp add: submit_def)
next
  case (expired e)
  then show ?thesis using goes_on_refl [OF expire_keeps_held [OF assms(1-4)] assms(5)] by (simp add: submit_def)
qed (use goes_on_refl [OF assms(4,5)] in \<open>simp add: submit_def\<close>)

lemma check_goes_on:
  assumes "inputs_ok inp" "leases_ok (lb_leases s)" "has_key (lb_submitting s) (rl_id m)" "m \<in> set (lb_leases s)" "is_open_lease m"
  shows "goes_on m (lb_leases (fst (check_submission cfg qc inp i h now s)))"
  using goes_on_refl [OF expire_keeps_held [OF assms(1-4)] assms(5)] goes_on_refl [OF assms(4,5)]
  by (cases rule: submittable_cases [of cfg qc inp i h now s]) (simp_all add: check_submission_def)

lemma forfeit_goes_on:
  assumes "has_key (lb_submitting s) (rl_id m)" "m \<in> set (lb_leases s)" "is_open_lease m"
  shows "goes_on m (lb_leases (fst (forfeit cfg qc inp i h now s)))"
proof (cases "book_lease s i")
  case (Some l)
  have "rl_id l = i" using book_lease_some [OF Some] by simp
  then have "m \<in> set (lb_leases (close_unsubmitted cfg qc inp now ''forfeited'' l s))" if "\<not> has_key (lb_submitting s) i"
    using that assms(1) by (intro close_unsubmitted_keeps [OF assms(2)]) auto
  then show ?thesis using Some goes_on_refl assms(2,3) by (auto simp: forfeit_def)
qed (use goes_on_refl [OF assms(2,3)] in \<open>simp add: forfeit_def\<close>)

lemma adopt_goes_on:
  assumes "s' = fst (adopt_checkpoint H cfg cd k secret now s)" "m \<in> set (lb_leases s)" "is_open_lease m"
  shows "goes_on m (lb_leases s')"
  using assms(1)
proof (cases rule: adopt_cases)
  case (new commit t)
  then have "m \<in> set (lb_leases t)" using assms(2,3) by simp
  then show ?thesis using new(7) revise_frame [of t cfg cd] goes_on_refl assms(3) by (simp add: revised_from_def)
qed (use goes_on_refl [OF assms(2,3)] in simp)

lemma held_step:
  assumes "lb_step H cfg qc f s s'" "leases_ok (lb_leases s)" "has_key (lb_submitting s) (rl_id m)" "m \<in> set (lb_leases s)" "is_open_lease m"
  shows "goes_on m (lb_leases s')"
  using assms(1)
proof cases
  case (step_adopt cooldown_of k secret now)
  show ?thesis by (rule adopt_goes_on [OF step_adopt(2) assms(4,5)])
next
  case (step_undone t)
  then show ?thesis using goes_on_refl [OF assms(4,5)] by (simp add: rolled_back_def)
next
  case (step_grant inp requests now answers)
  have "m \<in> set (lb_leases s')"
    using step_grant(3) claimed_keeps [OF expire_keeps_held [OF step_grant(2) assms(2-4)], of H cfg qc requests now] by (auto elim!: grant_Inr)
  then show ?thesis by (rule goes_on_refl [OF _ assms(5)])
next
  case (step_grant_failed inp requests now e)
  from step_grant_failed(3) show ?thesis by (rule grant_Inl) (use goes_on_refl [OF assms(4,5)] in \<open>simp_all add: rolled_back_def\<close>)
next
  case (step_hold inp lease_id hotkey now)
  then show ?thesis using check_goes_on [OF _ assms(2-5)] by (simp add: hold_leases)
next
  case (step_credit lease_id now)
  show ?thesis using credit_frame(1) [OF step_credit(2)] goes_on_refl [OF assms(4,5)] by simp
next
  case (step_outcome environment prompt_idx checkpoint rewards verdict cooldown now c)
  from step_outcome(2) show ?thesis by (rule record_outcome_Inr) (use goes_on_refl [OF assms(4,5)] in simp)
next
  case (step_expire inp now)
  then show ?thesis using goes_on_refl [OF expire_keeps_held [OF _ assms(2-4)] assms(5)] by (simp add: expire_due_def)
next
  case (step_revise cooldown_of)
  then show ?thesis using revise_frame [of s cfg cooldown_of] goes_on_refl [OF assms(4,5)] by (simp add: revised_from_def)
next
  case (step_submit inp lease_id hotkey in_zone delivered now)
  then show ?thesis using submit_goes_on [OF _ assms(2-5)] by simp
qed (use goes_on_refl [OF assms(4,5)] boot_goes_on [OF assms(4,5)] mark_alive_goes_on [OF assms(4,5)] check_goes_on [OF _ assms(2-5)]
    forfeit_goes_on [OF assms(3-5)] in \<open>simp_all add: release_submission_def Let_def ban_def drain_full_def drain_lane_full_def\<close>)

text \<open>Steps taken while the lease is open and a submission of it is held.\<close>

definition held_move :: "(bytes \<Rightarrow> bytes) \<Rightarrow> lease_book_config \<Rightarrow> quota_config \<Rightarrow> string \<Rightarrow> lease_book \<Rightarrow> lease_book \<Rightarrow> bool" where
  "held_move H cfg qc i x y \<longleftrightarrow> lb_any H cfg qc x y \<and> has_key (lb_submitting x) i \<and> (\<exists>m \<in> set (lb_leases x). rl_id m = i \<and> is_open_lease m)"

lemma goes_on_trans:
  assumes "core m' = core m" "rl_expires m \<le> rl_expires m'" "goes_on m' ls"
  shows "goes_on m ls"
  using assms unfolding goes_on_def by (metis order.trans)

lemma goes_on_open:
  assumes "leases_ok ls" "goes_on l ls" "m \<in> set ls" "rl_id m = rl_id l" "is_open_lease m"
  shows "core m = core l \<and> rl_expires l \<le> rl_expires m"
proof -
  obtain m' where m': "m' \<in> set ls" "core m' = core l" "is_open_lease m' \<and> rl_expires l \<le> rl_expires m' \<or> rl_state m' = LSubmitted"
    using assms(2) by (auto simp: goes_on_def)
  have "m' = m" using leases_ok_unique [OF assms(1) m'(1) assms(3)] m'(2) assms(4) by (simp add: core_def)
  then show ?thesis using m' assms(5) by auto
qed

lemma held_path:
  assumes "(held_move H cfg qc (rl_id l))\<^sup>*\<^sup>* x y" "book_inv H cfg qc x" "goes_on l (lb_leases x)"
  shows "book_inv H cfg qc y \<and> goes_on l (lb_leases y)"
  using assms
proof (induction rule: rtranclp_induct)
  case (step y z)
  then have y: "book_inv H cfg qc y" "goes_on l (lb_leases y)" by simp_all
  obtain m f where m: "m \<in> set (lb_leases y)" "rl_id m = rl_id l" "is_open_lease m" "lb_step H cfg qc f y z" "has_key (lb_submitting y) (rl_id l)"
    using step(2) unfolding held_move_def lb_any_def by blast
  have ok: "leases_ok (lb_leases y)" using y(1) by (simp add: book_inv_def)
  have "goes_on m (lb_leases z)" using held_step [OF m(4) ok _ m(1,3)] m(2,5) by simp
  then show ?case using goes_on_trans goes_on_open [OF ok y(2) m(1-3)] step_book_inv [OF y(1) m(4)] by blast
qed simp

lemma hold_Inr:
  assumes "hold_submission cfg qc inp i h t s = (s0, Inr l)"
  shows "book_lease s i = Some l \<and> rl_hotkey l = h \<and> is_open_lease l \<and> t < rl_expires l \<and> lb_leases s0 = lb_leases s"
  using assms
  by (cases rule: submittable_cases [of cfg qc inp i h t s]) (auto simp: hold_submission_def check_submission_def)

text \<open>
  C12. A submission that arrives in time is judged at its arrival. When a submission is held, its lease is open, the
  hotkey's own and not yet due. From then on, whatever operations run while the hold lasts, sweeps past the lease's
  end, grants, forfeits, downtimes, checkpoints and the restart that ends the hold among them, the lease is never expired, released
  or shortened: it is still open, or it was submitted; and as long as it is open, submitting it at the arrival time
  succeeds, unless the hotkey was banned meanwhile.
\<close>

theorem held_submission_survives:
  assumes "reach lb_init (lb_any H cfg qc) s" "inputs_ok inp" "hold_submission cfg qc inp i h t s = (s0, Inr l)"
    and "(held_move H cfg qc i)\<^sup>*\<^sup>* s0 s'"
  shows "rl_hotkey l = h \<and> t < rl_expires l
    \<and> (\<exists>m \<in> set (lb_leases s'). core m = core l \<and> (is_open_lease m \<and> rl_expires l \<le> rl_expires m \<or> rl_state m = LSubmitted))
    \<and> (\<forall>m. book_lease s' i = Some m \<longrightarrow> is_open_lease m \<longrightarrow>
        snd (submit cfg qc inp' i h in_zone delivered t s')
          = (if lb_banned s' h t then Inl (PermissionError ''hotkey banned'') else Inr (m\<lparr>rl_state := LSubmitted\<rparr>)))"
proof -
  have inv: "book_inv H cfg qc s" by (rule book.inv_reach [OF assms(1)])
  have l: "book_lease s i = Some l" "rl_hotkey l = h" "is_open_lease l" "t < rl_expires l" "lb_leases s0 = lb_leases s"
    using hold_Inr [OF assms(3)] by simp_all
  have in_s: "l \<in> set (lb_leases s)" "rl_id l = i" using book_lease_some [OF l(1)] by simp_all
  have "lb_step H cfg qc False s s0" using step_hold [OF assms(2), of H cfg qc s i h t] assms(3) by simp
  then have "book_inv H cfg qc s0" by (rule step_book_inv [OF inv])
  moreover have "goes_on l (lb_leases s0)" using goes_on_refl [OF in_s(1) l(3)] l(5) by simp
  ultimately have fin: "book_inv H cfg qc s'" "goes_on l (lb_leases s')" using held_path [of H cfg qc l s0 s'] assms(4) in_s(2) by simp_all
  have "snd (submit cfg qc inp' i h in_zone delivered t s')
      = (if lb_banned s' h t then Inl (PermissionError ''hotkey banned'') else Inr (m\<lparr>rl_state := LSubmitted\<rparr>))"
    if m: "book_lease s' i = Some m" "is_open_lease m" for m
  proof -
    have "core m = core l \<and> rl_expires l \<le> rl_expires m"
      using goes_on_open [OF _ fin(2)] book_lease_some [OF m(1)] m(2) in_s(2) fin(1) by (simp add: book_inv_def)
    then have "rl_hotkey m = h" "\<not> rl_expires m \<le> t" using l(2,4) by (simp_all add: core_def)
    then show ?thesis using m by (simp add: submit_def submittable_def)
  qed
  then show ?thesis using l(2,4) fin(2) by (simp add: goes_on_def)
qed

section \<open>The example run continued\<close>

text \<open>A later checkpoint reveals the first secret; a submission of the first lease is held while a sweep expires the second.\<close>

definition ex_book3 :: lease_book where
  "ex_book3 = ex_book2\<lparr>lb_latest := Some 20,
     lb_secrets := [\<lparr>sr_k = 0, sr_secret = [7], sr_commitment = [52], sr_adopted_at = 0, sr_revealed_at = Some 50\<rparr>,
       \<lparr>sr_k = 20, sr_secret = [9], sr_commitment = [52], sr_adopted_at = 50, sr_revealed_at = None\<rparr>]\<rparr>"

lemma ex_adopt3: "adopt_checkpoint ex_H ex_cfg ex_cooldown 20 [9] 50 ex_book2 = (ex_book3, Inr [52])"
  by code_simp

lemma ex_reach3: "reach lb_init (lb_any ex_H ex_cfg example_cfg) ex_book3"
  by (rule reach_any, rule reach_step [OF ex_reach2]) (use step_adopt [of ex_H ex_cfg example_cfg ex_book2 ex_cooldown 20 "[9]" 50] ex_adopt3 in simp)

theorem nonces_auditable_witness:
  "verify_reveal ex_H [52] 0 [7] = Inr True \<and> lease_nonce ex_H [7] ''math'' 5 0 = Inr (rl_nonce (ex_lease 5))
   \<and> (\<exists>latest. lb_latest ex_book3 = Some latest \<and> 0 < latest - lc_max_lag ex_cfg)"
proof -
  have listed: "(0, [52], [7]) \<in> set (cv_revealed (commitments ex_cfg ex_book3))" by code_simp
  have lease: "ex_lease 5 \<in> set (lb_leases ex_book3)" by (simp add: ex_book3_def ex_book2_def)
  have l: "rl_k (ex_lease 5) = 0" "rl_env (ex_lease 5) = ''math''" "rl_prompt (ex_lease 5) = 5" by (simp_all add: ex_lease_def)
  show ?thesis using nonces_auditable [OF ex_reach3, THEN conjunct1, THEN bspec, OF listed] lease l by auto
qed

theorem book_tables_typed_witness:
  "(\<exists>s'. credit example_cfg (rl_id (ex_lease 5)) 60 ex_book3 = Inr s')
   \<and> (\<exists>e. adopt_checkpoint ex_H ex_cfg ex_cooldown 19 [9] 60 ex_book3 = (ex_book3, Inl e))
   \<and> (\<exists>c. snd (adopt_checkpoint ex_H ex_cfg ex_cooldown 21 [9] 60 ex_book3) = Inr c)
   \<and> snd (adopt_checkpoint ex_H ex_cfg (\<lambda>_. Inr (2 ^ 63)) 21 [9] 60 ex_book3) = Inl OverflowError
   \<and> \<not> grant_fault ex_cfg ex_inp [] ex_book3 IntegrityError"
proof -
  have latest: "lb_latest ex_book3 = Some 20" by (simp add: ex_book3_def)
  then have refused: "adopt_refused 19 [9] ex_book3" "\<not> adopt_refused 21 [9] ex_book3" by (simp_all add: adopt_refused_def)
  have "has_key (lc_expiry_s ex_cfg) ''math''" by code_simp
  then have cooldowns: "\<not> unstorable_cooldown ex_cfg ex_cooldown" "unstorable_cooldown ex_cfg (\<lambda>_. Inr (2 ^ 63))"
    by (auto simp: unstorable_cooldown_def ex_cooldown_def)
  note typed = book_tables_typed [OF ex_reach3 ex_inputs]
  note adopt = typed [THEN conjunct2, THEN conjunct2, THEN conjunct2, THEN conjunct1]
  show ?thesis
    using typed [THEN conjunct2, THEN conjunct2, THEN conjunct1] adopt [of 19 "[9]" ex_cooldown 60] adopt [of 21 "[9]" ex_cooldown 60]
      adopt [of 21 "[9]" "\<lambda>_. Inr (2 ^ 63)" 60] refused cooldowns latest
    by (auto simp: grant_fault_def token_reused_def asked_keys_def)
qed

definition ex_held :: lease_book where
  "ex_held = fst (hold_submission ex_cfg example_cfg ex_inp (rl_id (ex_lease 5)) ''a'' 50 ex_book2)"

definition ex_swept :: lease_book where
  "ex_swept = fst (expire_due ex_cfg example_cfg ex_inp 500 ex_held)"

lemma ex_hold: "hold_submission ex_cfg example_cfg ex_inp (rl_id (ex_lease 5)) ''a'' 50 ex_book2 = (ex_held, Inr (ex_lease 5))"
proof -
  have "snd (hold_submission ex_cfg example_cfg ex_inp (rl_id (ex_lease 5)) ''a'' 50 ex_book2) = Inr (ex_lease 5)" by code_simp
  then show ?thesis by (simp add: ex_held_def prod_eq_iff)
qed

theorem held_submission_survives_witness:
  "snd (submit ex_cfg example_cfg ex_inp (rl_id (ex_lease 5)) ''a'' True True 50 ex_swept) = Inr ((ex_lease 5)\<lparr>rl_state := LSubmitted\<rparr>)
   \<and> book_lease ex_swept (rl_id (ex_lease 6)) = Some ((ex_lease 6)\<lparr>rl_state := LExpired, rl_closed := Some 500, rl_cause := Some ''expired''\<rparr>)"
proof -
  have held: "has_key (lb_submitting ex_held) (rl_id (ex_lease 5))" "lb_leases ex_held = [ex_lease 5, ex_lease 6]" by code_simp+
  have "lb_any ex_H ex_cfg example_cfg ex_held ex_swept" unfolding lb_any_def ex_swept_def using step_expire [OF ex_inputs] by blast
  then have "held_move ex_H ex_cfg example_cfg (rl_id (ex_lease 5)) ex_held ex_swept"
    using held by (simp add: held_move_def) (simp add: ex_lease_def)
  then have path: "(held_move ex_H ex_cfg example_cfg (rl_id (ex_lease 5)))\<^sup>*\<^sup>* ex_held ex_swept" by blast
  have lease: "book_lease ex_swept (rl_id (ex_lease 5)) = Some (ex_lease 5)" "is_open_lease (ex_lease 5)" "\<not> lb_banned ex_swept ''a'' 50"
    "book_lease ex_swept (rl_id (ex_lease 6)) = Some ((ex_lease 6)\<lparr>rl_state := LExpired, rl_closed := Some 500, rl_cause := Some ''expired''\<rparr>)" by code_simp+
  show ?thesis
    using held_submission_survives [OF reach_any [OF ex_reach2] ex_inputs ex_hold path] lease by simp
qed

end
