(* ===== verification/Rl_Prompt_Life.thy ===== *)
theory Rl_Prompt_Life
  imports Rl_Lease_Props
begin

text \<open>
  The lifecycle of a prompt in the lease book: free, cooling down after a scan outside the zone of learnable
  difficulty, blacklisted after two easy scans, and the revision of running cooldowns when the setting drops.
\<close>

section \<open>The lifecycle of a prompt\<close>

definition same_life :: "prompt_row \<Rightarrow> prompt_row \<Rightarrow> bool" where
  "same_life r r' \<longleftrightarrow> ps_status r' = ps_status r \<and> ps_start r' = ps_start r \<and> ps_until r' = ps_until r"

text \<open>A row brought in line with a cooldown: the earlier of its end and its start plus the cooldown.\<close>

definition revised_to :: "int \<Rightarrow> prompt_row \<Rightarrow> prompt_row \<Rightarrow> bool" where
  "revised_to n r r' \<longleftrightarrow> ps_status r' = ps_status r \<and> ps_start r' = ps_start r
     \<and> ps_until r' = (case (ps_status r, ps_start r, ps_until r) of (PCooldown, Some a, Some u) \<Rightarrow> Some (min u (a + n)) | _ \<Rightarrow> ps_until r)"

lemma revised_to_trans: "revised_to n r r' \<Longrightarrow> revised_to n r' r'' \<Longrightarrow> revised_to n r r''"
  by (auto simp: revised_to_def split: option.splits prompt_status.splits)

lemma revised_same: "revised_to n r r' \<Longrightarrow> same_life r' r'' \<Longrightarrow> revised_to n r r''" "same_life r r' \<Longrightarrow> revised_to n r' r'' \<Longrightarrow> revised_to n r r''"
  by (cases "ps_status r"; cases "ps_start r"; cases "ps_until r"; simp add: revised_to_def same_life_def)+

lemma same_life_trans: "same_life r r' \<Longrightarrow> same_life r' r'' \<Longrightarrow> same_life r r''"
  by (simp add: same_life_def)

lemma shorten_revises: "revised_to n r (restamp latest stamp (shorten n stamp r))"
  by (auto simp: revised_to_def restamp_def shorten_def shortenable_def split: option.splits prompt_status.splits)

lemma not_shortenable: "\<not> shortenable n r \<Longrightarrow> revised_to n r r"
  by (auto simp: revised_to_def shortenable_def split: option.splits prompt_status.splits)

lemma revised_rows_get:
  "dget (revised_rows latest ec stamp rows) key
     = map_option (\<lambda>r. if fst key = fst ec then restamp latest stamp (shorten (snd ec) stamp r) else r) (dget rows key)"
  by (induction rows) (auto simp: revised_rows_def)

lemma revise_env_row:
  assumes "dget (lb_prompts (fst a)) key = Some r"
  shows "\<exists>r'. dget (lb_prompts (fst (revise_env latest ec a))) key = Some r' \<and> (if fst key = fst ec then revised_to (snd ec) r r' else same_life r r')"
proof -
  obtain s stamp0 n where a: "a = (s, stamp0, n)" by (metis prod_cases3)
  let ?due = "list_ex (\<lambda>(key, r). fst key = fst ec \<and> (shortenable (snd ec) r \<or> ps_start r \<noteq> None \<and> running_revised latest r)) (lb_prompts s)"
  have row: "dget (lb_prompts s) key = Some r" using assms a by simp
  show ?thesis
  proof (cases ?due)
    case True
    have "\<exists>t. lb_prompts (fst (revise_env latest ec a)) = revised_rows latest ec t (lb_prompts s)"
      using True unfolding a by (cases stamp0) (simp_all add: revise_env_def reserve_seq_eq Let_def, blast+)
    then obtain t where t: "lb_prompts (fst (revise_env latest ec a)) = revised_rows latest ec t (lb_prompts s)" by blast
    then show ?thesis using row shorten_revises by (simp add: revised_rows_get same_life_def)
  next
    case False
    then have "revise_env latest ec a = a" unfolding a by (simp add: revise_env_def Let_def)
    moreover have "\<not> shortenable (snd ec) r" if "fst key = fst ec"
      using False map_of_SomeD [OF row] that by (auto simp: list_ex_iff)
    ultimately show ?thesis using assms not_shortenable by (auto simp: same_life_def)
  qed
qed

lemma revise_fold_row:
  assumes "\<And>ec. ec \<in> set ecs \<Longrightarrow> snd ec = n (fst ec)" "dget (lb_prompts (fst a)) key = Some r"
  shows "\<exists>r'. dget (lb_prompts (fst (fold (revise_env latest) ecs a))) key = Some r'
    \<and> (if fst key \<in> fst ` set ecs then revised_to (n (fst key)) r r' else same_life r r')"
  using assms
proof (induction ecs arbitrary: a r)
  case (Cons ec ecs)
  obtain r1 where r1: "dget (lb_prompts (fst (revise_env latest ec a))) key = Some r1"
    "if fst key = fst ec then revised_to (snd ec) r r1 else same_life r r1" using revise_env_row [OF Cons.prems(2)] by blast
  obtain r2 where r2: "dget (lb_prompts (fst (fold (revise_env latest) ecs (revise_env latest ec a)))) key = Some r2"
    "if fst key \<in> fst ` set ecs then revised_to (n (fst key)) r1 r2 else same_life r1 r2"
    using Cons.IH [OF _ r1(1)] Cons.prems(1) by auto
  have "snd ec = n (fst ec)" using Cons.prems(1) by simp
  then have "if fst key \<in> fst ` set (ec # ecs) then revised_to (n (fst key)) r r2 else same_life r r2"
    using r1(2) r2(2) revised_to_trans [of _ r r1 r2] revised_same(1) [of _ r r1 r2] revised_same(2) [of r r1 _ r2] same_life_trans [of r r1 r2]
    by (cases "fst key = fst ec"; cases "fst key \<in> fst ` set ecs"; simp)
  then show ?case using r2(1) by simp
qed (simp add: same_life_def)

text \<open>What a revision that reads the cooldown of the row's environment as \<open>c\<close> does to the row.\<close>

definition revised_by :: "lease_book_config \<Rightarrow> (string \<Rightarrow> int res) \<Rightarrow> string \<Rightarrow> prompt_row \<Rightarrow> prompt_row \<Rightarrow> bool" where
  "revised_by cfg cd env r r' \<longleftrightarrow>
     (case cd env of
        Inr n \<Rightarrow> if has_key (lc_expiry_s cfg) env \<and> 0 \<le> n \<and> n < 2 ^ 64 then revised_to n r r' else same_life r r'
      | Inl e \<Rightarrow> same_life r r')"

lemma revise_row:
  assumes "dget (lb_prompts s) key = Some r" "lb_latest s \<noteq> None" "revise_cooldowns cfg cd s = Inr (s', shortened)"
  shows "\<exists>r'. dget (lb_prompts s') key = Some r' \<and> revised_by cfg cd (fst key) r r'"
proof -
  let ?n = "\<lambda>env. case cd env of Inr n \<Rightarrow> n | Inl e \<Rightarrow> 0"
  obtain latest where latest: "lb_latest s = Some latest" using assms(2) by blast
  have s': "s' = fst (fold (revise_env latest) (readable_cooldowns cfg cd) (s, None, []))"
    using assms(3) latest by (auto simp: revise_cooldowns_def Let_def split: if_splits prod.splits)
  have "snd ec = ?n (fst ec)" if "ec \<in> set (readable_cooldowns cfg cd)" for ec
    using that readable_mem [of "fst ec" "snd ec" cfg cd] by simp
  from revise_fold_row [OF this, where a = "(s, None, [])" and key = key and r = r and latest = latest] assms(1)
  obtain r' where r': "dget (lb_prompts s') key = Some r'"
    "if fst key \<in> fst ` set (readable_cooldowns cfg cd) then revised_to (?n (fst key)) r r' else same_life r r'"
    unfolding s' by auto
  have "fst key \<in> fst ` set (readable_cooldowns cfg cd) \<longleftrightarrow> (\<exists>n. (fst key, n) \<in> set (readable_cooldowns cfg cd))"
    by (auto simp: Domain_fst [symmetric])
  then have "fst key \<in> fst ` set (readable_cooldowns cfg cd)
      \<longleftrightarrow> (\<exists>n. cd (fst key) = Inr n \<and> has_key (lc_expiry_s cfg) (fst key) \<and> 0 \<le> n \<and> n < 2 ^ 64)" unfolding readable_mem by blast
  then show ?thesis using r' by (auto simp: revised_by_def split: sum.splits if_splits)
qed

lemma revise_no_latest: "lb_latest s = None \<Longrightarrow> revise_cooldowns cfg cd s = Inr (s, [])"
  by (simp add: revise_cooldowns_def Let_def)

section \<open>Outcomes\<close>

text \<open>The checkpoint until which a prompt rests.\<close>

definition rest_until :: "lease_book \<Rightarrow> string \<times> int \<Rightarrow> int option" where
  "rest_until s key = (case dget (lb_prompts s) key of None \<Rightarrow> None | Some r \<Rightarrow> ps_until r)"

lemma key_ok_at: "prompts_ok s \<Longrightarrow> key_ok (seq_of s) (lb_scans s) key (dget (lb_prompts s) key)"
  unfolding prompts_ok_def by blast

lemma blacklisted_refusal:
  assumes "prompts_ok s"
  shows "prompt_refusal s env p = Inr (Some RBlacklisted) \<longleftrightarrow> 2 \<le> easy_scans (lb_scans s) (env, p)"
proof (cases "dget (lb_prompts s) (env, p)")
  case None
  then have "(env, p) \<notin> scan_key ` set (lb_scans s)" using key_ok_at [OF assms, of "(env, p)"] by (simp add: key_ok_def)
  then have "easy_scans (lb_scans s) (env, p) = 0" by (auto simp: easy_scans_def filter_empty_conv image_iff)
  then show ?thesis using None by (simp add: prompt_refusal_def)
next
  case (Some r)
  then have "ps_status r = PBlacklisted \<longleftrightarrow> 2 \<le> easy_scans (lb_scans s) (env, p)"
    using key_ok_at [OF assms, of "(env, p)"] by (simp add: key_ok_def)
  then show ?thesis using Some by (auto simp: prompt_refusal_def split: option.splits)
qed

lemma unscanned_refusal:
  assumes "prompts_ok s" "(env, p) \<notin> scan_key ` set (lb_scans s)"
  shows "prompt_refusal s env p = Inr None"
  using key_ok_at [OF assms(1), of "(env, p)"] assms(2) by (auto simp: key_ok_def prompt_refusal_def split: option.splits)

text \<open>
  What an outcome makes of a prompt: blacklisted once two of its scans came out too easy; else resting from the later of the
  scan's checkpoint and the latest, for the cooldown, or to the end it already had if that is later.
\<close>

definition row_after :: "lease_book \<Rightarrow> string \<times> int \<Rightarrow> int \<Rightarrow> string \<Rightarrow> int \<Rightarrow> prompt_row" where
  "row_after s key k verdict n =
     (if 2 \<le> easy_scans (lb_scans s) key + (if verdict = ''too_easy'' then 1 else 0)
      then \<lparr>ps_status = PBlacklisted, ps_until = None, ps_seq = next_seq s, ps_start = None, ps_revised = False\<rparr>
      else let a = (case lb_latest s of None \<Rightarrow> max k 0 | Some latest \<Rightarrow> max k latest)
           in \<lparr>ps_status = PCooldown, ps_until = Some (case rest_until s key of None \<Rightarrow> max (a + n) 0 | Some u \<Rightarrow> max (a + n) u),
               ps_seq = next_seq s, ps_start = Some a, ps_revised = False\<rparr>)"

lemma easy_before:
  "list_ex (\<lambda>c. sc_env c = env \<and> sc_prompt c = p \<and> sc_verdict c = ''too_easy'') cs \<longleftrightarrow> 1 \<le> easy_scans cs (env, p)"
proof -
  have "1 \<le> easy_scans cs (env, p) \<longleftrightarrow> (\<exists>c \<in> set cs. scan_key c = (env, p) \<and> sc_verdict c = ''too_easy'')"
    by (auto simp: easy_scans_def Suc_le_eq filter_empty_conv)
  then show ?thesis by (auto simp: list_ex_iff)
qed

lemma outcome_row_after:
  assumes "prompts_ok s" "outcome_row s env p k verdict n = (status, until, start)"
  shows "row_after s (env, p) k verdict n = \<lparr>ps_status = status, ps_until = until, ps_seq = next_seq s, ps_start = start, ps_revised = False\<rparr>"
proof -
  have black: "(case dget (lb_prompts s) (env, p) of None \<Rightarrow> False | Some r \<Rightarrow> ps_status r = PBlacklisted) \<longleftrightarrow> 2 \<le> easy_scans (lb_scans s) (env, p)"
    using key_ok_at [OF assms(1), of "(env, p)"] blacklisted_refusal [OF assms(1), of env p]
    by (auto simp: key_ok_def prompt_refusal_def split: option.splits)
  have iff: "verdict = ''too_easy'' \<and> 1 \<le> e \<or> 2 \<le> e \<longleftrightarrow> 2 \<le> e + (if verdict = ''too_easy'' then 1 else 0)" for e :: nat by auto
  show ?thesis
    using assms(2) unfolding outcome_row_def Let_def easy_before black iff row_after_def rest_until_def
    by (auto simp: max.commute split: if_splits option.splits)
qed

lemma outcome_life:
  assumes "prompts_ok s" "record_outcome cfg env p k rewards verdict cd now s = Inr (s', c)"
  shows "(\<forall>key. key \<noteq> (env, p) \<longrightarrow> dget (lb_prompts s') key = dget (lb_prompts s) key) \<and> scan_key c = (env, p) \<and> lb_scans s' = lb_scans s @ [c]
    \<and> (\<exists>n. cd = Inr n \<and> dget (lb_prompts s') (env, p) = Some (row_after s (env, p) k verdict n))"
proof (rule record_outcome_Inr [OF assms(2)])
  fix n status until start
  assume cd: "cd = Inr n" and o: "outcome_row s env p k verdict n = (status, until, start)"
    and c: "c = \<lparr>sc_seq = next_seq s, sc_env = env, sc_prompt = p, sc_k = k, sc_rewards = rewards, sc_verdict = verdict,
          sc_first = (dget (lb_prompts s) (env, p) = None), sc_at = now, sc_state = status, sc_until = until\<rparr>"
    and s': "s' = s\<lparr>lb_scans := lb_scans s @ [c], lb_seq := Some (next_seq s), lb_prompts := dset (env, p)
            \<lparr>ps_status = status, ps_until = until, ps_seq = next_seq s, ps_start = start, ps_revised = False\<rparr> (lb_prompts s)\<rparr>"
  have "dget (lb_prompts s') (env, p) = Some (row_after s (env, p) k verdict n)"
    unfolding outcome_row_after [OF assms(1) o] by (simp add: s' update_conv')
  moreover have "\<forall>key. key \<noteq> (env, p) \<longrightarrow> dget (lb_prompts s') key = dget (lb_prompts s) key" by (simp add: s' update_conv' del: split_paired_All)
  ultimately show ?thesis using cd by (simp add: c s' del: split_paired_All)
qed

text \<open>The outcomes that are recorded.\<close>

definition recordable :: "lease_book_config \<Rightarrow> lease_book \<Rightarrow> string \<Rightarrow> int \<Rightarrow> int \<Rightarrow> rat list \<Rightarrow> string \<Rightarrow> int res \<Rightarrow> bool" where
  "recordable cfg s env p k rewards verdict cd \<longleftrightarrow>
     has_key (lc_expiry_s cfg) env \<and> verdict \<in> set VERDICTS \<and> rewards \<noteq> [] \<and> 0 \<le> p \<and> p < 2 ^ 63 \<and> 0 \<le> k \<and> k < 2 ^ 63
     \<and> (\<exists>n. cd = Inr n \<and> 0 \<le> n \<and> n < 2 ^ 64
          \<and> (case ps_until (row_after s (env, p) k verdict n) of None \<Rightarrow> True | Some u \<Rightarrow> u < 2 ^ 63))"

lemma row_until_nonneg:
  assumes "0 \<le> k" "0 \<le> n" "ps_until (row_after s key k verdict n) = Some u"
  shows "0 \<le> u"
  using assms by (auto simp: row_after_def Let_def split: if_splits option.splits)

lemma outcome_recorded:
  assumes "prompts_ok s"
  shows "(\<exists>s' c. record_outcome cfg env p k rewards verdict cd now s = Inr (s', c)) \<longleftrightarrow> recordable cfg s env p k rewards verdict cd"
proof (cases "\<exists>n. cd = Inr n \<and> 0 \<le> n \<and> n < 2 ^ 64")
  case True
  then obtain n where n: "cd = Inr n" "0 \<le> n" "n < 2 ^ 64" by blast
  obtain status until start where o: "outcome_row s env p k verdict n = (status, until, start)" by (metis prod_cases3)
  have until: "ps_until (row_after s (env, p) k verdict n) = until" by (simp add: outcome_row_after [OF assms o])
  have "(case until of None \<Rightarrow> False | Some u \<Rightarrow> \<not> sql_int u) \<longleftrightarrow> \<not> (case until of None \<Rightarrow> True | Some u \<Rightarrow> u < 2 ^ 63)" if "0 \<le> k"
    using row_until_nonneg [OF that n(2), of s "(env, p)" verdict] until by (auto simp: sql_int_def split: option.split)
  then show ?thesis using n o until
    by (auto simp: record_outcome_def recordable_def u64_def sql_int_def Let_def)
next
  case False
  then have unread: "bind_res cd (\<lambda>n. bind_res (u64 n) (f n)) \<noteq> Inr x" for f :: "int \<Rightarrow> bytes \<Rightarrow> (lease_book \<times> scan_row) res" and x
    by (cases cd) (auto simp: u64_def)
  have "record_outcome cfg env p k rewards verdict cd now s \<noteq> Inr x" for x
    by (cases "u64 p"; cases "u64 k") (simp_all add: record_outcome_def unread)
  then show ?thesis using False by (auto simp: recordable_def)
qed

text \<open>
  C13. The lifecycle of a prompt. In every book reached, a prompt that was never scanned is not refused for its
  history, and one is refused as blacklisted exactly when at least two of its scans came out too easy. An outcome is
  recorded exactly when its environment is served, its verdict known, its rewards present, its numbers and the end of
  the rest it causes fit the database, and the cooldown reads as an unsigned 64-bit integer; it adds one scan and leaves
  every other prompt as it was. The prompt itself is blacklisted from its second easy scan on; else it rests from
  the later of the scan's checkpoint and the latest one, until exactly its cooldown later or the end it already had,
  whichever comes last. Revising the cooldowns fails, changing nothing, exactly when a served environment's cooldown
  reads as an integer past the database's; otherwise it changes no status, and brings the end of every cooldown of an
  environment whose setting can be read to the earlier of what it was and its start plus the setting, and no other.
\<close>

theorem prompt_lifecycle:
  assumes "reach lb_init (lb_any H cfg qc) s"
  shows "((env, p) \<notin> scan_key ` set (lb_scans s) \<longrightarrow> prompt_refusal s env p = Inr None)
    \<and> (prompt_refusal s env p = Inr (Some RBlacklisted) \<longleftrightarrow> 2 \<le> easy_scans (lb_scans s) (env, p))
    \<and> ((\<exists>s' c. record_outcome cfg env p k rewards verdict cd now s = Inr (s', c)) \<longleftrightarrow> recordable cfg s env p k rewards verdict cd)
    \<and> (\<forall>s' c. record_outcome cfg env p k rewards verdict cd now s = Inr (s', c) \<longrightarrow>
        (\<forall>key. key \<noteq> (env, p) \<longrightarrow> dget (lb_prompts s') key = dget (lb_prompts s) key)
        \<and> scan_key c = (env, p) \<and> lb_scans s' = lb_scans s @ [c]
        \<and> (\<exists>n. cd = Inr n \<and> dget (lb_prompts s') (env, p) = Some (row_after s (env, p) k verdict n)))
    \<and> (case revise_cooldowns cfg cooldown_of s of
         Inl e \<Rightarrow> e = OverflowError \<and> lb_latest s \<noteq> None \<and> unstorable_cooldown cfg cooldown_of
       | Inr (s', shortened) \<Rightarrow> (lb_latest s = None \<or> \<not> unstorable_cooldown cfg cooldown_of)
           \<and> (lb_latest s = None \<longrightarrow> s' = s)
           \<and> (\<forall>r. dget (lb_prompts s) (env, p) = Some r \<longrightarrow> lb_latest s \<noteq> None \<longrightarrow>
                (\<exists>r'. dget (lb_prompts s') (env, p) = Some r' \<and> revised_by cfg cooldown_of env r r')))"
proof -
  have inv: "prompts_ok s" using book.inv_reach [OF assms] by (simp add: book_inv_def)
  have "case revise_cooldowns cfg cooldown_of s of
         Inl e \<Rightarrow> e = OverflowError \<and> lb_latest s \<noteq> None \<and> unstorable_cooldown cfg cooldown_of
       | Inr (s', shortened) \<Rightarrow> (lb_latest s = None \<or> \<not> unstorable_cooldown cfg cooldown_of)
           \<and> (lb_latest s = None \<longrightarrow> s' = s)
           \<and> (\<forall>r. dget (lb_prompts s) (env, p) = Some r \<longrightarrow> lb_latest s \<noteq> None \<longrightarrow>
                (\<exists>r'. dget (lb_prompts s') (env, p) = Some r' \<and> revised_by cfg cooldown_of env r r'))"
  proof (cases "revise_cooldowns cfg cooldown_of s")
    case (Inr w)
    then have "lb_latest s = None \<or> \<not> unstorable_cooldown cfg cooldown_of" using revise_Inl [of cfg cooldown_of s OverflowError] by auto
    then show ?thesis
      using revise_row [of s "(env, p)" _ cfg cooldown_of] revise_no_latest [of s cfg cooldown_of] Inr by (cases w) auto
  next
    case (Inl e)
    then have "e = OverflowError \<and> lb_latest s \<noteq> None \<and> unstorable_cooldown cfg cooldown_of" by (rule revise_Inl [THEN iffD1])
    then show ?thesis unfolding Inl sum.case .
  qed
  moreover note unscanned_refusal [OF inv, of env p] blacklisted_refusal [OF inv, of env p] outcome_recorded [OF inv, of cfg env p k rewards verdict cd now]
    outcome_life [OF inv, of cfg env p k rewards verdict cd now]
  ultimately show ?thesis by (intro conjI allI impI) blast+
qed

text \<open>A prompt of the example book that is scanned too easy twice.\<close>

definition ex_row :: prompt_row where
  "ex_row = \<lparr>ps_status = PCooldown, ps_until = Some 3, ps_seq = 1, ps_start = Some 0, ps_revised = False\<rparr>"

definition ex_scan :: "int \<Rightarrow> prompt_status \<Rightarrow> int option \<Rightarrow> scan_row" where
  "ex_scan seq status until = \<lparr>sc_seq = seq, sc_env = ''math'', sc_prompt = 5, sc_k = 0, sc_rewards = [1], sc_verdict = ''too_easy'',
     sc_first = (seq = 1), sc_at = 20, sc_state = status, sc_until = until\<rparr>"

definition ex_scanned :: lease_book where
  "ex_scanned = ex_book2\<lparr>lb_scans := [ex_scan 1 PCooldown (Some 3)], lb_seq := Some 1, lb_prompts := [((''math'', 5), ex_row)]\<rparr>"

definition ex_scanned_twice :: lease_book where
  "ex_scanned_twice = ex_scanned\<lparr>lb_scans := [ex_scan 1 PCooldown (Some 3), ex_scan 2 PBlacklisted None], lb_seq := Some 2,
     lb_prompts := [((''math'', 5), \<lparr>ps_status = PBlacklisted, ps_until = None, ps_seq = 2, ps_start = None, ps_revised = False\<rparr>)]\<rparr>"

lemma ex_outcomes:
  "record_outcome ex_cfg ''math'' 5 0 [1] ''too_easy'' (Inr 3) 20 ex_book2 = Inr (ex_scanned, ex_scan 1 PCooldown (Some 3))"
  "record_outcome ex_cfg ''math'' 5 0 [1] ''too_easy'' (Inr 3) 20 ex_scanned = Inr (ex_scanned_twice, ex_scan 2 PBlacklisted None)"
  by code_simp+

lemma ex_scanned_reach:
  "reach lb_init (lb_any ex_H ex_cfg example_cfg) ex_scanned" "reach lb_init (lb_any ex_H ex_cfg example_cfg) ex_scanned_twice"
proof -
  have one: "reach lb_init (lb_step ex_H ex_cfg example_cfg False) ex_scanned"
    by (rule reach_step [OF ex_reach2]) (rule step_outcome [OF ex_outcomes(1)])
  have "reach lb_init (lb_step ex_H ex_cfg example_cfg False) ex_scanned_twice"
    by (rule reach_step [OF one]) (rule step_outcome [OF ex_outcomes(2)])
  then show "reach lb_init (lb_any ex_H ex_cfg example_cfg) ex_scanned_twice" by (rule reach_any)
  show "reach lb_init (lb_any ex_H ex_cfg example_cfg) ex_scanned" by (rule reach_any [OF one])
qed

theorem prompt_lifecycle_witness:
  "prompt_refusal ex_book2 ''math'' 5 = Inr None \<and> rest_until ex_scanned (''math'', 5) = Some 3
   \<and> recordable ex_cfg ex_book2 ''math'' 5 0 [1] ''too_easy'' (Inr 3)
   \<and> prompt_refusal ex_scanned_twice ''math'' 5 = Inr (Some RBlacklisted)
   \<and> (\<exists>s' shortened r. revise_cooldowns ex_cfg (\<lambda>_. Inr 1) ex_scanned = Inr (s', shortened)
        \<and> dget (lb_prompts s') (''math'', 5) = Some r \<and> ps_until r = Some 1)"
proof -
  have scans: "lb_scans ex_book2 = []" "easy_scans (lb_scans ex_scanned_twice) (''math'', 5) = 2" by code_simp+
  note first = prompt_lifecycle [OF reach_any [OF ex_reach2], where env = "''math''" and p = 5 and k = 0 and rewards = "[1]"
      and cd = "Inr 3" and verdict = "''too_easy''" and now = 20]
  have new: "prompt_refusal ex_book2 ''math'' 5 = Inr None" using first scans(1) by simp
  have "recordable ex_cfg ex_book2 ''math'' 5 0 [1] ''too_easy'' (Inr 3)"
    using first [THEN conjunct2, THEN conjunct2, THEN conjunct1] ex_outcomes(1) by blast
  moreover have "dget (lb_prompts ex_scanned) (''math'', 5) = Some (row_after ex_book2 (''math'', 5) 0 ''too_easy'' 3)"
    using first [THEN conjunct2, THEN conjunct2, THEN conjunct2, THEN conjunct1, rule_format, OF ex_outcomes(1)] by auto
  then have "rest_until ex_scanned (''math'', 5) = ps_until (row_after ex_book2 (''math'', 5) 0 ''too_easy'' 3)" by (simp add: rest_until_def)
  moreover have "ps_until (row_after ex_book2 (''math'', 5) 0 ''too_easy'' 3) = Some 3" by code_simp
  moreover have row: "dget (lb_prompts ex_scanned) (''math'', 5) = Some ex_row" "lb_latest ex_scanned \<noteq> None" "has_key (lc_expiry_s ex_cfg) ''math''" by code_simp+
  note revised = prompt_lifecycle [OF ex_scanned_reach(1), where env = "''math''" and p = 5 and cooldown_of = "\<lambda>_. Inr 1",
      THEN conjunct2, THEN conjunct2, THEN conjunct2, THEN conjunct2]
  have "\<exists>s' shortened r. revise_cooldowns ex_cfg (\<lambda>_. Inr 1) ex_scanned = Inr (s', shortened)
      \<and> dget (lb_prompts s') (''math'', 5) = Some r \<and> revised_to 1 ex_row r"
    using revised row by (auto simp: unstorable_cooldown_def revised_by_def split: sum.splits)
  then have "\<exists>s' shortened r. revise_cooldowns ex_cfg (\<lambda>_. Inr 1) ex_scanned = Inr (s', shortened)
      \<and> dget (lb_prompts s') (''math'', 5) = Some r \<and> ps_until r = Some 1"
    by (fastforce simp: revised_to_def ex_row_def)
  ultimately show ?thesis
    using new prompt_lifecycle [OF ex_scanned_reach(2), where env = "''math''" and p = 5] scans(2) by simp
qed

end
