(* ===== verification/Rl_Cooldown.thy ===== *)
theory Rl_Cooldown
  imports Rl_Prompt_Life
begin

text \<open>
  The adaptive prompt cooldown (\<^verbatim>\<open>reliquary/validator/rl_cooldown.py\<close>), which the lease book asks for the cooldown of
  an environment. It is measured from the book's own tables, within configured bounds; an operator's value wins, and a
  measured one is kept for a while. The clock reading is an argument.
\<close>

section \<open>Parameters\<close>

record cooldown_params =
  cp_margin :: rat
  cp_floor :: int
  cp_ceiling :: int
  cp_initial :: int
  cp_min_first_scans :: int
  cp_first_scan_window :: int
  cp_checkpoint_window :: int
  cp_refresh_s :: rat

definition default_cooldown_params :: cooldown_params where
  "default_cooldown_params = \<lparr>cp_margin = 1 / 2, cp_floor = 4, cp_ceiling = 1000, cp_initial = 20, cp_min_first_scans = 200,
     cp_first_scan_window = 2000, cp_checkpoint_window = 50, cp_refresh_s = 60\<rparr>"

definition CooldownParams :: "cooldown_params \<Rightarrow> cooldown_params res" where
  "CooldownParams p =
     (if \<not> (0 < cp_margin p \<and> cp_margin p \<le> 1) then Inl (ValueError ''margin must be in (0, 1]'')
      else if \<not> (0 \<le> cp_floor p \<and> cp_floor p \<le> cp_initial p \<and> cp_initial p \<le> cp_ceiling p)
      then Inl (ValueError ''cooldown bounds must satisfy 0 <= floor <= initial <= ceiling'')
      else if min (cp_min_first_scans p) (min (cp_first_scan_window p) (cp_checkpoint_window p)) < 1 \<or> cp_refresh_s p < 0
      then Inl (ValueError ''cooldown windows must be positive'') else Inr p)"

text \<open>\<^verbatim>\<open>params.rl_cooldown_k\<close>. The keys of the document are strings.\<close>

definition override_entry :: "pyval \<times> pyval \<Rightarrow> (string, int) dict \<Rightarrow> (string, int) dict res" where
  "override_entry e out =
     (case e of (PStr name, PInt k) \<Rightarrow> if k < 0 then Inl (ValueError ''non-negative integer of checkpoints'') else Inr (dset name k out)
      | _ \<Rightarrow> Inl (ValueError ''non-negative integer of checkpoints''))"

definition cooldown_overrides :: "(pyval \<times> pyval) list \<Rightarrow> (string, int) dict res" where
  "cooldown_overrides params =
     (let raw = pget params ''rl_cooldown_k''
      in if \<not> truthy raw then Inr []
         else case raw of PDict d \<Rightarrow> fold_res override_entry d [] | _ \<Rightarrow> Inl (ValueError ''rl_cooldown_k must map env names to checkpoints''))"

section \<open>The measure\<close>

datatype cooldown_source = SrcOverride | SrcInitial | SrcMeasured

record cooldown_state =
  cs_cooldown :: int
  cs_source :: cooldown_source
  cs_n :: "int option"
  cs_first_scans :: "int option"
  cs_p :: "rat option"
  cs_q :: "rat option"

text \<open>\<^verbatim>\<open>round(x)\<close>: to the nearest integer, and to the even one from the middle.\<close>

definition py_round :: "rat \<Rightarrow> int" where
  "py_round x = (let f = \<lfloor>x\<rfloor>; d = x - of_int f
                 in if d < 1 / 2 then f else if 1 / 2 < d then f + 1 else if even f then f else f + 1)"

definition blacklisted_count :: "lease_book \<Rightarrow> string \<Rightarrow> int" where
  "blacklisted_count s env = int (length (filter (\<lambda>(key, r). fst key = env \<and> ps_status r = PBlacklisted) (lb_prompts s)))"

text \<open>The verdicts of the latest first scans (\<^verbatim>\<open>ORDER BY seq DESC LIMIT n\<close>).\<close>

definition recent_firsts :: "lease_book \<Rightarrow> string \<Rightarrow> int \<Rightarrow> string list" where
  "recent_firsts s env window =
     map sc_verdict (take (nat window) (rev (sort_key sc_seq (filter (\<lambda>c. sc_env c = env \<and> sc_first c) (lb_scans s)))))"

definition in_zone_since :: "lease_book \<Rightarrow> string \<Rightarrow> int \<Rightarrow> int" where
  "in_zone_since s env since = int (length (filter (\<lambda>c. sc_env c = env \<and> sc_verdict c = ''in_zone'' \<and> since < sc_k c) (lb_scans s)))"

definition measured_cooldown :: "cooldown_params \<Rightarrow> int \<Rightarrow> rat \<Rightarrow> rat \<Rightarrow> int" where
  "measured_cooldown p n share q = min (cp_ceiling p) (max (cp_floor p) (py_round (of_int n * share / q * cp_margin p)))"

definition measure_firsts :: "cooldown_params \<Rightarrow> lease_book \<Rightarrow> string \<Rightarrow> int \<Rightarrow> cooldown_state" where
  "measure_firsts p s env n =
     (let initial = \<lparr>cs_cooldown = cp_initial p, cs_source = SrcInitial, cs_n = Some n, cs_first_scans = None, cs_p = None, cs_q = None\<rparr>;
          firsts = recent_firsts s env (cp_first_scan_window p); m = int (length firsts)
      in case lb_latest s of
           None \<Rightarrow> initial\<lparr>cs_first_scans := Some m\<rparr>
         | Some latest \<Rightarrow>
             if m < cp_min_first_scans p then initial\<lparr>cs_first_scans := Some m\<rparr>
             else let share = of_nat (length (filter (\<lambda>v. v = ''in_zone'') firsts)) / of_int m;
                      since = max 0 (latest - cp_checkpoint_window p);
                      q = of_int (in_zone_since s env since) / of_int (max 1 (latest - since))
                  in if share \<le> 0 \<or> q \<le> 0 then initial\<lparr>cs_p := Some share, cs_q := Some q\<rparr>
                     else \<lparr>cs_cooldown = measured_cooldown p n share q, cs_source = SrcMeasured, cs_n = Some n, cs_first_scans = None,
                            cs_p = Some share, cs_q = Some q\<rparr>)"

definition span_rows :: "(string, rows_value) dict \<Rightarrow> string \<Rightarrow> int option res" where
  "span_rows prompt_range env =
     (case dget prompt_range env of
        None \<Rightarrow> Inr None
      | Some bounds \<Rightarrow> bind_res (rows_of bounds) (\<lambda>rows. bind_res (py_len (rows_len rows)) (\<lambda>n. Inr (Some n))))"

definition measure_cooldown :: "cooldown_params \<Rightarrow> (string, rows_value) dict \<Rightarrow> lease_book option \<Rightarrow> string \<Rightarrow> cooldown_state res" where
  "measure_cooldown p prompt_range book env =
     bind_res (span_rows prompt_range env) (\<lambda>n.
       let initial = \<lparr>cs_cooldown = cp_initial p, cs_source = SrcInitial, cs_n = n, cs_first_scans = None, cs_p = None, cs_q = None\<rparr>
       in Inr (case (book, n) of
                 (Some s, Some rows) \<Rightarrow> if rows = 0 then initial else measure_firsts p s env (max 1 (rows - blacklisted_count s env))
               | _ \<Rightarrow> initial))"

section \<open>The controller\<close>

record adaptive_cooldown =
  ac_prompt_range :: "(string, rows_value) dict"
  ac_overrides :: "(string, int) dict"
  ac_params :: cooldown_params
  ac_cache :: "(string, rat \<times> cooldown_state) dict"

definition AdaptiveCooldown :: "(string, rows_value) dict option \<Rightarrow> (string, int) dict option \<Rightarrow> cooldown_params option \<Rightarrow> adaptive_cooldown" where
  "AdaptiveCooldown prompt_range overrides params =
     \<lparr>ac_prompt_range = or_empty prompt_range, ac_overrides = or_empty overrides,
      ac_params = (case params of None \<Rightarrow> default_cooldown_params | Some p \<Rightarrow> p), ac_cache = []\<rparr>"

definition cached_state :: "adaptive_cooldown \<Rightarrow> rat \<Rightarrow> string \<Rightarrow> cooldown_state option" where
  "cached_state a now env =
     (case dget (ac_cache a) env of
        None \<Rightarrow> None
      | Some (t, v) \<Rightarrow> if now - t < cp_refresh_s (ac_params a) then Some v else None)"

definition ac_state :: "lease_book option \<Rightarrow> rat \<Rightarrow> string \<Rightarrow> adaptive_cooldown \<Rightarrow> (adaptive_cooldown \<times> cooldown_state) res" where
  "ac_state book now env a =
     (case dget (ac_overrides a) env of
        Some k \<Rightarrow> Inr (a, \<lparr>cs_cooldown = k, cs_source = SrcOverride, cs_n = None, cs_first_scans = None, cs_p = None, cs_q = None\<rparr>)
      | None \<Rightarrow>
          (case cached_state a now env of
             Some v \<Rightarrow> Inr (a, v)
           | None \<Rightarrow> bind_res (measure_cooldown (ac_params a) (ac_prompt_range a) book env) (\<lambda>v.
               Inr (a\<lparr>ac_cache := dset env (now, v) (ac_cache a)\<rparr>, v))))"

definition ac_call :: "lease_book option \<Rightarrow> rat \<Rightarrow> string \<Rightarrow> adaptive_cooldown \<Rightarrow> (adaptive_cooldown \<times> int) res" where
  "ac_call book now env a = bind_res (ac_state book now env a) (\<lambda>(a', v). Inr (a', cs_cooldown v))"

text \<open>The metrics of one environment: what is not null of the cooldown, p, q and n.\<close>

definition env_metrics :: "string \<Rightarrow> cooldown_state \<Rightarrow> (string, rat) dict" where
  "env_metrics env v =
     (''rl/cooldown/cooldown/'' @ env, of_int (cs_cooldown v)) # List.map_filter (\<lambda>(key, x). map_option (\<lambda>y. (''rl/cooldown/'' @ key @ ''/'' @ env, y)) x)
       [(''p'', cs_p v), (''q'', cs_q v), (''n'', map_option of_int (cs_n v))]"

definition ac_snapshot :: "lease_book option \<Rightarrow> (rat \<times> string) list \<Rightarrow> adaptive_cooldown \<Rightarrow> (adaptive_cooldown \<times> (string, rat) dict) res" where
  "ac_snapshot book envs a =
     fold_res (\<lambda>(now, env) (a, out). bind_res (ac_state book now env a) (\<lambda>(a', v). Inr (a', fold (\<lambda>(k, x). dset k x) (env_metrics env v) out)))
       envs (a, [])"

section \<open>The cooldowns it gives\<close>

text \<open>Rounding is to a nearest integer, so it keeps integer bounds.\<close>

lemma py_round_near: "\<bar>of_int (py_round x) - x\<bar> \<le> 1 / 2"
  unfolding py_round_def Let_def using of_int_floor_le [of x] by (auto simp: abs_if) linarith+

lemma py_round_ge: "of_int a \<le> x \<Longrightarrow> a \<le> py_round x"
proof -
  assume "of_int a \<le> x"
  then have "a \<le> \<lfloor>x\<rfloor>" by (simp add: le_floor_iff)
  then show ?thesis unfolding py_round_def Let_def by auto
qed

lemma py_round_le:
  assumes "x \<le> of_int b"
  shows "py_round x \<le> b"
proof (cases "x = of_int b")
  case False
  then have "\<lfloor>x\<rfloor> < b" using assms by (simp add: floor_less_iff)
  then show ?thesis unfolding py_round_def Let_def by auto
qed (simp add: py_round_def)

definition within_bounds :: "cooldown_params \<Rightarrow> cooldown_state \<Rightarrow> bool" where
  "within_bounds p v \<longleftrightarrow> cp_floor p \<le> cs_cooldown v \<and> cs_cooldown v \<le> cp_ceiling p"

lemma params_ok: "CooldownParams p = Inr p' \<Longrightarrow> p' = p \<and> 0 \<le> cp_floor p \<and> cp_floor p \<le> cp_initial p \<and> cp_initial p \<le> cp_ceiling p
    \<and> 1 \<le> cp_first_scan_window p \<and> 1 \<le> cp_min_first_scans p \<and> 0 < cp_margin p"
  by (auto simp: CooldownParams_def split: if_splits)

lemma measure_firsts_within:
  assumes "cp_floor p \<le> cp_initial p" "cp_initial p \<le> cp_ceiling p"
  shows "within_bounds p (measure_firsts p s env n)"
  using assms by (auto simp: measure_firsts_def Let_def within_bounds_def measured_cooldown_def split: option.split)

lemma measure_cases:
  assumes "measure_cooldown p rng book env = Inr v"
  obtains (initial) n where "v = \<lparr>cs_cooldown = cp_initial p, cs_source = SrcInitial, cs_n = n, cs_first_scans = None, cs_p = None, cs_q = None\<rparr>"
  | (firsts) s n where "1 \<le> n" "v = measure_firsts p s env n"
proof -
  obtain n where v: "v = (case (book, n) of
      (Some s, Some rows) \<Rightarrow> if rows = 0 then \<lparr>cs_cooldown = cp_initial p, cs_source = SrcInitial, cs_n = n, cs_first_scans = None, cs_p = None, cs_q = None\<rparr>
        else measure_firsts p s env (max 1 (rows - blacklisted_count s env))
    | _ \<Rightarrow> \<lparr>cs_cooldown = cp_initial p, cs_source = SrcInitial, cs_n = n, cs_first_scans = None, cs_p = None, cs_q = None\<rparr>)"
    using assms by (auto simp: measure_cooldown_def bind_res_Inr_iff Let_def)
  show thesis
  proof (cases "\<exists>s rows. book = Some s \<and> n = Some rows \<and> rows \<noteq> 0")
    case True
    then obtain s rows where "book = Some s" "n = Some rows" "rows \<noteq> 0" by blast
    then show thesis using v firsts [of "max 1 (rows - blacklisted_count s env)" s] by simp
  next
    case False
    then show thesis using v initial by (cases book; cases n) simp_all
  qed
qed

lemma measure_within:
  assumes "cp_floor p \<le> cp_initial p" "cp_initial p \<le> cp_ceiling p" "measure_cooldown p rng book env = Inr v"
  shows "within_bounds p v"
  using assms(3) by (cases rule: measure_cases) (use assms(1,2) measure_firsts_within in \<open>simp_all add: within_bounds_def\<close>)

inductive ac_step :: "adaptive_cooldown \<Rightarrow> adaptive_cooldown \<Rightarrow> bool" where
  "ac_state book now env a = Inr (a', v) \<Longrightarrow> ac_step a a'"

definition ac_init :: "(string, rows_value) dict \<Rightarrow> (string, int) dict \<Rightarrow> cooldown_params \<Rightarrow> adaptive_cooldown \<Rightarrow> bool" where
  "ac_init rng ov p a \<longleftrightarrow> a = AdaptiveCooldown (Some rng) (Some ov) (Some p) \<and> CooldownParams p = Inr p"

definition ac_ok :: "(string, rows_value) dict \<Rightarrow> (string, int) dict \<Rightarrow> cooldown_params \<Rightarrow> adaptive_cooldown \<Rightarrow> bool" where
  "ac_ok rng ov p a \<longleftrightarrow> ac_prompt_range a = rng \<and> ac_overrides a = ov \<and> ac_params a = p \<and> CooldownParams p = Inr p
     \<and> (\<forall>env t v. dget (ac_cache a) env = Some (t, v) \<longrightarrow> within_bounds p v)"

lemma ac_state_ok:
  assumes "ac_ok rng ov p a" "ac_state book now env a = Inr (a', v)"
  shows "ac_ok rng ov p a' \<and> (dget ov env = None \<longrightarrow> within_bounds p v)"
proof (cases "dget ov env")
  case None
  have b: "cp_floor p \<le> cp_initial p" "cp_initial p \<le> cp_ceiling p" using assms(1) params_ok by (auto simp: ac_ok_def)
  show ?thesis
  proof (cases "cached_state a now env")
    case None
    then have m: "measure_cooldown p rng book env = Inr v" "a' = a\<lparr>ac_cache := dset env (now, v) (ac_cache a)\<rparr>"
      using assms \<open>dget ov env = None\<close> by (auto simp: ac_state_def ac_ok_def bind_res_Inr_iff)
    have "within_bounds p v" by (rule measure_within [OF b m(1)])
    then show ?thesis using assms(1) m(2) by (auto simp: ac_ok_def update_conv')
  next
    case (Some w)
    then show ?thesis using assms \<open>dget ov env = None\<close> by (auto simp: ac_state_def ac_ok_def cached_state_def split: option.splits if_splits)
  qed
next
  case (Some k)
  then show ?thesis using assms by (auto simp: ac_state_def ac_ok_def)
qed

interpretation adaptive: step_invariant "ac_init rng ov p" ac_step "ac_ok rng ov p" for rng ov p
proof unfold_locales
  show "ac_ok rng ov p a" if "ac_init rng ov p a" for a using that by (simp add: ac_init_def ac_ok_def AdaptiveCooldown_def or_empty_def)
  show "ac_ok rng ov p a'" if "ac_ok rng ov p a" "ac_step a a'" for a a' using that(2,1) ac_state_ok by cases blast
qed

section \<open>What is measured\<close>

text \<open>The recent first scans of an environment: those that fewer than the window's came after.\<close>

definition recent_scans :: "lease_book \<Rightarrow> string \<Rightarrow> int \<Rightarrow> scan_row set" where
  "recent_scans s env window =
     {c \<in> set (lb_scans s). sc_env c = env \<and> sc_first c
        \<and> int (card {d \<in> set (lb_scans s). sc_env d = env \<and> sc_first d \<and> sc_seq c < sc_seq d}) < window}"

text \<open>
  How many checkpoints the margin's part of an environment's prompts in zone last: the rows that are not blacklisted, times
  the share of recent first scans in zone, over the groups in zone per recent checkpoint, times the margin. None before
  enough is known.
\<close>

definition lasting :: "cooldown_params \<Rightarrow> lease_book \<Rightarrow> string \<Rightarrow> int \<Rightarrow> rat option" where
  "lasting p s env rows =
     (case lb_latest s of
        None \<Rightarrow> None
      | Some latest \<Rightarrow>
          let n = max 1 (rows - int (card {prompt. 2 \<le> easy_scans (lb_scans s) (env, prompt)}));
              firsts = recent_scans s env (cp_first_scan_window p);
              hits = {c \<in> firsts. sc_verdict c = ''in_zone''};
              span = min (cp_checkpoint_window p) latest;
              groups = {c \<in> set (lb_scans s). sc_env c = env \<and> sc_verdict c = ''in_zone'' \<and> latest - span < sc_k c}
          in if int (card firsts) < cp_min_first_scans p \<or> hits = {} \<or> groups = {} then None
             else Some (of_int n * (of_nat (card hits) / of_nat (card firsts)) / (of_nat (card groups) / of_int (max 1 span)) * cp_margin p))"

text \<open>A cooldown that is a value to within half a checkpoint, or the bound the value is past.\<close>

definition fits :: "cooldown_params \<Rightarrow> rat option \<Rightarrow> int \<Rightarrow> bool" where
  "fits p x c \<longleftrightarrow>
     (case x of
        None \<Rightarrow> c = cp_initial p
      | Some x \<Rightarrow> if x < of_int (cp_floor p) then c = cp_floor p
                  else if of_int (cp_ceiling p) < x then c = cp_ceiling p else \<bar>of_int c - x\<bar> \<le> 1 / 2)"

lemma take_top:
  assumes "sorted_wrt (\<lambda>x y. f y < (f x :: int)) ys"
  shows "set (take n ys) = {y \<in> set ys. card {z \<in> set ys. f y < f z} < n}"
proof -
  have less: "f (ys ! j) < f (ys ! i)" if "i < j" "j < length ys" for i j using assms that by (simp add: sorted_wrt_iff_nth_less)
  have d: "distinct ys" unfolding distinct_conv_nth
  proof (intro allI impI)
    fix i j assume "i < length ys" "j < length ys" "i \<noteq> j"
    then show "ys ! i \<noteq> ys ! j" using less [of i j] less [of j i] by (metis less_irrefl linorder_neqE_nat)
  qed
  have "{z \<in> set ys. f (ys ! i) < f z} = set (take i ys)" if i: "i < length ys" for i
  proof -
    have "f (ys ! i) < f (ys ! j) \<longleftrightarrow> j < i" if "j < length ys" for j
      using less [of j i] less [of i j] that i by (metis less_asym less_irrefl linorder_neqE_nat)
    then have "{z \<in> set ys. f (ys ! i) < f z} = nth ys ` {0..<i}" using i by (auto simp: set_conv_nth)
    then show ?thesis using i by (simp add: nth_image)
  qed
  then have "card {z \<in> set ys. f (ys ! i) < f z} = i" if "i < length ys" for i using d that by (simp add: distinct_card)
  moreover have "set (take n ys) = nth ys ` {0..<min n (length ys)}" by (subst nth_image) (simp_all add: min_def)
  ultimately show ?thesis by (auto simp: set_conv_nth)
qed

lemma length_filter_card: "distinct xs \<Longrightarrow> length (filter P xs) = card {x \<in> set xs. P x}"
  by (metis distinct_card distinct_filter set_filter)

lemma scans_distinct: "scans_ok s \<Longrightarrow> distinct (lb_scans s)"
  using distinct_map strict_sorted_iff by (auto simp: scans_ok_def)

lemma recent_firsts_scans:
  assumes "scans_ok s" "1 \<le> window"
  shows "\<exists>cs. recent_firsts s env window = map sc_verdict cs \<and> distinct cs \<and> set cs = recent_scans s env window"
proof -
  let ?xs = "filter (\<lambda>c. sc_env c = env \<and> sc_first c) (lb_scans s)"
  have up: "sorted_wrt (\<lambda>x y. sc_seq x < sc_seq y) ?xs" using assms(1) by (simp add: scans_ok_def sorted_wrt_map sorted_wrt_filter)
  then have "sorted (map sc_seq ?xs)" unfolding sorted_wrt_map by (rule sorted_wrt_mono_rel [rotated]) simp
  then have "recent_firsts s env window = map sc_verdict (take (nat window) (rev ?xs))"
    by (simp add: recent_firsts_def sort_key_id_if_sorted)
  moreover have "sorted_wrt (\<lambda>x y. sc_seq y < sc_seq x) (rev ?xs)" using up by (simp add: sorted_wrt_rev)
  note take_top [OF this, of "nat window"]
  then have "set (take (nat window) (rev ?xs)) = recent_scans s env window" using assms(2) by (auto simp: recent_scans_def conj_assoc zless_nat_eq_int_zless)
  moreover have "distinct (take (nat window) (rev ?xs))" using scans_distinct [OF assms(1)] by simp
  ultimately show ?thesis by blast
qed

lemma blacklisted_card:
  assumes "prompts_ok s"
  shows "blacklisted_count s env = int (card {p. 2 \<le> easy_scans (lb_scans s) (env, p)})"
proof -
  let ?xs = "filter (\<lambda>(key, r). fst key = env \<and> ps_status r = PBlacklisted) (lb_prompts s)"
  have d: "distinct (map fst (lb_prompts s))" using assms by (simp add: prompts_ok_def)
  then have "distinct (map fst ?xs)" by (rule distinct_map_filter)
  moreover have "map fst ?xs = map (Pair env) (map (snd \<circ> fst) ?xs)" by (auto simp: prod_eq_iff)
  ultimately have dist: "distinct (map (snd \<circ> fst) ?xs)" by (metis distinct_map)
  have "p \<in> set (map (snd \<circ> fst) ?xs) \<longleftrightarrow> 2 \<le> easy_scans (lb_scans s) (env, p)" for p
  proof -
    have "p \<in> set (map (snd \<circ> fst) ?xs) \<longleftrightarrow> (\<exists>r. ((env, p), r) \<in> set (lb_prompts s) \<and> ps_status r = PBlacklisted)" by force
    also have "\<dots> \<longleftrightarrow> (\<exists>r. dget (lb_prompts s) (env, p) = Some r \<and> ps_status r = PBlacklisted)" using d by simp
    also have "\<dots> \<longleftrightarrow> prompt_refusal s env p = Inr (Some RBlacklisted)" by (auto simp: prompt_refusal_def split: option.splits)
    finally show ?thesis by (simp add: blacklisted_refusal [OF assms])
  qed
  then have "set (map (snd \<circ> fst) ?xs) = {p. 2 \<le> easy_scans (lb_scans s) (env, p)}" by blast
  then have "length ?xs = card {p. 2 \<le> easy_scans (lb_scans s) (env, p)}" using distinct_card [OF dist] by simp
  then show ?thesis by (simp add: blacklisted_count_def)
qed

lemma measured_fits: "cp_floor p \<le> cp_ceiling p \<Longrightarrow> fits p (Some (of_int n * share / q * cp_margin p)) (measured_cooldown p n share q)"
proof -
  assume b: "cp_floor p \<le> cp_ceiling p"
  define x where "x = of_int n * share / q * cp_margin p"
  consider "x < of_int (cp_floor p)" | "of_int (cp_ceiling p) < x" | "of_int (cp_floor p) \<le> x" "x \<le> of_int (cp_ceiling p)" by linarith
  then show ?thesis
  proof cases
    case 1
    then show ?thesis using py_round_le [of x "cp_floor p"] b unfolding fits_def measured_cooldown_def x_def [symmetric] by simp
  next
    case 2
    have "of_int (cp_floor p) \<le> (of_int (cp_ceiling p) :: rat)" using b by simp
    then show ?thesis using 2 py_round_ge [of "cp_ceiling p" x] b unfolding fits_def measured_cooldown_def x_def [symmetric] by simp
  next
    case 3
    then show ?thesis using py_round_ge [OF 3(1)] py_round_le [OF 3(2)] py_round_near [of x]
      unfolding fits_def measured_cooldown_def x_def [symmetric] by simp
  qed
qed

lemma measure_firsts_fits:
  assumes "CooldownParams p = Inr p" "prompts_ok s" "scans_ok s"
  shows "fits p (lasting p s env rows) (cs_cooldown (measure_firsts p s env (max 1 (rows - blacklisted_count s env))))"
proof -
  have pok: "1 \<le> cp_first_scan_window p" "1 \<le> cp_min_first_scans p" "cp_floor p \<le> cp_ceiling p" "1 \<le> cp_checkpoint_window p"
    using assms(1) by (auto simp: CooldownParams_def split: if_splits)
  obtain cs where cs: "recent_firsts s env (cp_first_scan_window p) = map sc_verdict cs" "distinct cs"
    "set cs = recent_scans s env (cp_first_scan_window p)" using recent_firsts_scans [OF assms(3) pok(1)] by blast
  have m: "length cs = card (recent_scans s env (cp_first_scan_window p))" using distinct_card [OF cs(2)] cs(3) by simp
  let ?hits = "{c \<in> recent_scans s env (cp_first_scan_window p). sc_verdict c = ''in_zone''}"
  have hits: "length (filter (\<lambda>v. v = ''in_zone'') (map sc_verdict cs)) = card ?hits"
    using length_filter_card [OF cs(2), of "\<lambda>c. sc_verdict c = ''in_zone''"] cs(3) by (simp add: filter_map o_def)
  have fin: "finite (recent_scans s env (cp_first_scan_window p))" using cs(3) by (metis List.finite_set)
  show ?thesis
  proof (cases "lb_latest s")
    case (Some latest)
    let ?since = "max 0 (latest - cp_checkpoint_window p)" and ?span = "min (cp_checkpoint_window p) latest"
    let ?groups = "{c \<in> set (lb_scans s). sc_env c = env \<and> sc_verdict c = ''in_zone'' \<and> latest - ?span < sc_k c}"
    have since: "?since = latest - ?span" by simp
    have groups: "in_zone_since s env (latest - ?span) = int (card ?groups)"
      unfolding in_zone_since_def by (subst length_filter_card [OF scans_distinct [OF assms(3)]]) simp
    define n where "n = max 1 (rows - int (card {prompt. 2 \<le> easy_scans (lb_scans s) (env, prompt)}))"
    define f h g where "f = card (recent_scans s env (cp_first_scan_window p))" and "h = card ?hits" and "g = card ?groups"
    define share q :: rat where "share = of_nat h / of_nat f" and "q = of_nat g / of_int (max 1 ?span)"
    have "?hits = {} \<longleftrightarrow> h = 0" "?groups = {} \<longleftrightarrow> g = 0" using fin by (simp_all add: h_def g_def)
    then have l: "lasting p s env rows = (if int f < cp_min_first_scans p \<or> h = 0 \<or> g = 0 then None else Some (of_int n * share / q * cp_margin p))"
      unfolding lasting_def Some Let_def option.case share_def q_def n_def f_def h_def g_def by (simp only:)
    have c: "cs_cooldown (measure_firsts p s env n) = (if int f < cp_min_first_scans p \<or> share \<le> 0 \<or> q \<le> 0 then cp_initial p else measured_cooldown p n share q)"
      unfolding measure_firsts_def Let_def cs(1) hits length_map m since groups Some option.case share_def q_def f_def h_def g_def by simp
    have "share \<le> 0 \<longleftrightarrow> h = 0" if "\<not> int f < cp_min_first_scans p" using that pok(2) by (simp add: share_def divide_le_0_iff)
    moreover have "q \<le> 0 \<longleftrightarrow> g = 0" by (auto simp: q_def divide_le_0_iff)
    moreover have "fits p None (cp_initial p)" by (simp add: fits_def)
    moreover note measured_fits [OF pok(3), of n share q]
    ultimately show ?thesis unfolding l blacklisted_card [OF assms(2)] n_def [symmetric] c by (cases "int f < cp_min_first_scans p"; cases "h = 0"; cases "g = 0"; simp)
  qed (simp add: measure_firsts_def lasting_def fits_def Let_def)
qed

lemma measure_cooldown_fits:
  assumes "CooldownParams p = Inr p" "measure_cooldown p rng book env = Inr v"
  shows "case (book, span_rows rng env) of
      (Some s, Inr (Some rows)) \<Rightarrow> (rows = 0 \<longrightarrow> cs_cooldown v = cp_initial p)
        \<and> (rows \<noteq> 0 \<and> prompts_ok s \<and> scans_ok s \<longrightarrow> fits p (lasting p s env rows) (cs_cooldown v))
    | _ \<Rightarrow> cs_cooldown v = cp_initial p"
proof -
  obtain n where n: "span_rows rng env = Inr n" using assms(2) by (auto simp: measure_cooldown_def bind_res_Inr_iff)
  show ?thesis
    using assms(2) n measure_firsts_fits [OF assms(1)] by (cases book; cases n) (auto simp: measure_cooldown_def Let_def split: if_splits)
qed

text \<open>
  C21. The cooldown an environment gets. A call fails only when the rows of the environment cannot be counted. An
  operator's value is given as it is; any other lies within the floor and the ceiling, whatever the book holds, and is
  given again, whatever happens to the book, until the refresh interval has passed. A value that is measured now,
  from any book reached, is the environment's rows that are not blacklisted, times the share in zone of its first
  scans within the window, over its groups in zone per checkpoint of the window, times the margin, to within half a
  checkpoint, or the bound that this is past; and the configured initial value when too few first scans, none in zone,
  or no group in zone are on record, or when there is no book or no rows. With the override and the ceiling below two to
  the 64 the lease book can read the value. The quotients are of rationals, where the code's are floats.
\<close>

theorem cooldown_measured:
  assumes "reach (ac_init rng ov p) ac_step a"
  shows "(\<forall>e. ac_call book now env a = Inl e \<longleftrightarrow> dget ov env = None \<and> cached_state a now env = None \<and> span_rows rng env = Inl e)
    \<and> (\<forall>a' c. ac_call book now env a = Inr (a', c) \<longrightarrow>
      (case dget ov env of Some k \<Rightarrow> c = k | None \<Rightarrow> cp_floor p \<le> c \<and> c \<le> cp_ceiling p)
      \<and> (dget ov env = None \<and> cached_state a now env = None \<longrightarrow>
          (now' - now < cp_refresh_s p \<longrightarrow> ac_call book' now' env a' = Inr (a', c))
          \<and> (case (book, span_rows rng env) of
               (Some s, Inr (Some rows)) \<Rightarrow> (rows = 0 \<longrightarrow> c = cp_initial p)
                 \<and> (rows \<noteq> 0 \<and> reach lb_init (lb_any H bcfg qc) s \<longrightarrow> fits p (lasting p s env rows) c)
             | _ \<Rightarrow> c = cp_initial p))
      \<and> ((\<forall>k. dget ov env = Some k \<longrightarrow> 0 \<le> k \<and> k < 2 ^ 64) \<and> cp_ceiling p < 2 ^ 64 \<and> has_key (lc_expiry_s cfg) env \<longrightarrow>
          (env, c) \<in> set (readable_cooldowns cfg (\<lambda>e. bind_res (ac_call book now e a) (\<lambda>(a', c). Inr c)))))"
    (is "_ \<and> (\<forall>a' c. _ \<longrightarrow> ?given a' c)")
proof -
  have ok: "ac_ok rng ov p a" by (rule adaptive.inv_reach [OF assms])
  have pok: "0 \<le> cp_floor p" "CooldownParams p = Inr p" "ac_params a = p" "ac_overrides a = ov" "ac_prompt_range a = rng"
    using ok params_ok by (auto simp: ac_ok_def)
  have fails: "ac_call book now env a = Inl e \<longleftrightarrow> dget ov env = None \<and> cached_state a now env = None \<and> span_rows rng env = Inl e" for e
    using pok by (auto simp: ac_call_def ac_state_def measure_cooldown_def bind_res_Inl_iff Let_def split: option.splits)
  have bounds: "case dget ov env of Some k \<Rightarrow> c = k | None \<Rightarrow> cp_floor p \<le> c \<and> c \<le> cp_ceiling p"
    if v: "ac_state book now env a = Inr (a', v)" "c = cs_cooldown v" for a' c v
    using ac_state_ok [OF ok v(1)] v pok(4) by (auto simp: within_bounds_def ac_state_def split: option.splits)
  have fresh: "(now' - now < cp_refresh_s p \<longrightarrow> ac_call book' now' env a' = Inr (a', cs_cooldown v)) \<and> measure_cooldown p rng book env = Inr v"
    if "ac_state book now env a = Inr (a', v)" "dget ov env = None" "cached_state a now env = None" for a' v
  proof -
    have a': "a' = a\<lparr>ac_cache := dset env (now, v) (ac_cache a)\<rparr>" "measure_cooldown p rng book env = Inr v"
      using that pok(3-5) by (auto simp: ac_state_def bind_res_Inr_iff)
    then have "cached_state a' now' env = Some v" if "now' - now < cp_refresh_s p" using that pok(3) by (simp add: cached_state_def update_conv')
    moreover have "ac_overrides a' = ov" using a'(1) pok(4) by simp
    ultimately show ?thesis using that(2) a'(2) by (simp add: ac_call_def ac_state_def)
  qed
  have books: "prompts_ok s" "scans_ok s" if "reach lb_init (lb_any H bcfg qc) s" for s
    using book.inv_reach [OF that] by (simp_all add: book_inv_def)
  have measured: "case (book, span_rows rng env) of
       (Some s, Inr (Some rows)) \<Rightarrow> (rows = 0 \<longrightarrow> cs_cooldown v = cp_initial p)
         \<and> (rows \<noteq> 0 \<and> reach lb_init (lb_any H bcfg qc) s \<longrightarrow> fits p (lasting p s env rows) (cs_cooldown v))
     | _ \<Rightarrow> cs_cooldown v = cp_initial p" if "measure_cooldown p rng book env = Inr v" for v
    using measure_cooldown_fits [OF pok(2) that] books by (auto split: option.splits sum.splits)
  have readable: "(env, c) \<in> set (readable_cooldowns cfg (\<lambda>e. bind_res (ac_call book now e a) (\<lambda>(a', c). Inr c)))"
    if "ac_call book now env a = Inr (a', c)" "case dget ov env of Some k \<Rightarrow> c = k | None \<Rightarrow> cp_floor p \<le> c \<and> c \<le> cp_ceiling p"
      "\<forall>k. dget ov env = Some k \<longrightarrow> 0 \<le> k \<and> k < 2 ^ 64" "cp_ceiling p < 2 ^ 64" "has_key (lc_expiry_s cfg) env" for a' c
    using that pok(1) unfolding readable_mem by (auto split: option.splits)
  have "?given a' c" if c: "ac_call book now env a = Inr (a', c)" for a' c
  proof -
    obtain v where v: "ac_state book now env a = Inr (a', v)" "c = cs_cooldown v" using c by (auto simp: ac_call_def bind_res_Inr_iff)
    show ?thesis
      using bounds [OF v] fresh [OF v(1), folded v(2)] measured [of v, folded v(2)] readable [OF c bounds [OF v]] by simp
  qed
  then show ?thesis using fails by blast
qed

text \<open>A first call on the example book, after one scan in zone: a hundred rows, all in zone, one group per checkpoint, half of it.\<close>

definition ex_params :: cooldown_params where
  "ex_params = default_cooldown_params\<lparr>cp_min_first_scans := 1\<rparr>"

definition ex_zone :: lease_book where
  "ex_zone = (case record_outcome ex_cfg ''math'' 7 1 [1, 0] ''in_zone'' (Inr 3) 20 ex_book2 of Inr (s, c) \<Rightarrow> s | Inl e \<Rightarrow> ex_book2)"

lemma ex_zone_reach: "reach lb_init (lb_any ex_H ex_cfg example_cfg) ex_zone"
proof -
  have "\<not> isl (record_outcome ex_cfg ''math'' 7 1 [1, 0] ''in_zone'' (Inr 3) 20 ex_book2)" by code_simp
  then obtain s c where "record_outcome ex_cfg ''math'' 7 1 [1, 0] ''in_zone'' (Inr 3) 20 ex_book2 = Inr (s, c)"
    by (cases "record_outcome ex_cfg ''math'' 7 1 [1, 0] ''in_zone'' (Inr 3) 20 ex_book2") auto
  then have "lb_step ex_H ex_cfg example_cfg False ex_book2 ex_zone" unfolding ex_zone_def by (auto intro: step_outcome)
  then show ?thesis by (intro reach_any reach_step [OF ex_reach2])
qed

lemma ex_lasting: "lasting ex_params ex_zone ''math'' 100 = Some 50"
proof -
  have scans: "lb_scans ex_zone = [\<lparr>sc_seq = 1, sc_env = ''math'', sc_prompt = 7, sc_k = 1, sc_rewards = [1, 0], sc_verdict = ''in_zone'',
      sc_first = True, sc_at = 20, sc_state = PCooldown, sc_until = Some 4\<rparr>]" (is "_ = [?c]") and latest: "lb_latest ex_zone = Some 0" by code_simp+
  have "recent_scans ex_zone ''math'' 2000 = {?c}" unfolding recent_scans_def scans by (simp add: Collect_conv_if)
  moreover have "{c \<in> {?c}. sc_verdict c = ''in_zone''} = {?c}" "{c \<in> set [?c]. sc_env c = ''math'' \<and> sc_verdict c = ''in_zone'' \<and> 0 < sc_k c} = {?c}" by auto
  moreover have "{prompt. 2 \<le> easy_scans [?c] (''math'', prompt)} = {}" by (simp add: easy_scans_def)
  ultimately show ?thesis unfolding lasting_def latest scans by (simp add: Let_def ex_params_def default_cooldown_params_def)
qed

theorem cooldown_measured_witness:
  "\<exists>a'. ac_call (Some ex_zone) 5 ''math'' (AdaptiveCooldown (Some [(''math'', Slice 0 100)]) (Some []) (Some ex_params)) = Inr (a', 50)
    \<and> ac_call None 64 ''math'' a' = Inr (a', 50)"
proof -
  let ?a = "AdaptiveCooldown (Some [(''math'', Slice 0 100)]) (Some []) (Some ex_params)"
  have "CooldownParams ex_params = Inr ex_params" by (simp add: CooldownParams_def ex_params_def default_cooldown_params_def)
  then have r: "reach (ac_init [(''math'', Slice 0 100)] [] ex_params) ac_step ?a" by (intro reach_init) (simp add: ac_init_def)
  have b: "cp_floor ex_params = 4" "cp_ceiling ex_params = 1000" "cp_refresh_s ex_params = 60" by (simp_all add: ex_params_def default_cooldown_params_def)
  have rows: "span_rows [(''math'', Slice 0 100)] ''math'' = Inr (Some 100)" by code_simp
  have none: "cached_state ?a 5 ''math'' = None" by (simp add: cached_state_def AdaptiveCooldown_def)
  note m = cooldown_measured [OF r, where book = "Some ex_zone" and now = 5 and env = "''math''" and now' = 64 and book' = None
      and H = ex_H and bcfg = ex_cfg and qc = example_cfg]
  have "\<not> (\<exists>e. ac_call (Some ex_zone) 5 ''math'' ?a = Inl e)" using m [THEN conjunct1] rows by simp
  then obtain a' c where c: "ac_call (Some ex_zone) 5 ''math'' ?a = Inr (a', c)" by (cases "ac_call (Some ex_zone) 5 ''math'' ?a") auto
  have given: "fits ex_params (Some 50) c \<and> ac_call None 64 ''math'' a' = Inr (a', c)"
    using m [THEN conjunct2, rule_format, OF c, THEN conjunct2, THEN conjunct1] none rows b(3) ex_zone_reach ex_lasting by simp
  then have "\<bar>of_int c - (50 :: rat)\<bar> \<le> 1 / 2" unfolding fits_def option.case b(1,2) by (simp split: if_splits)
  then have "c = 50" by linarith
  then show ?thesis using c given by (intro exI [of _ a'] conjI) (simp_all only:)
qed

end
