(* ===== verification/Rl_Buffer.thy ===== *)
theory Rl_Buffer
  imports Rl_Leases
begin

text \<open>
  The training buffer (\<^verbatim>\<open>reliquary/validator/rl_buffer.py\<close>): graded groups wait in a table of the lease book's
  file for the trainer, which takes a batch, and reports each group back or returns it.

  The table is a list of rows; the counters the class keeps in memory are the other fields of the state. The clock
  reading, the caps of the environments and the order in which SQLite returns rows of an unordered query are arguments.
  A row's body is the JSON document of its group; its text and the compression of it are left out, as they are
  inverse to their readers.
\<close>

section \<open>Groups\<close>

record submitted_group =
  sg_lease_id :: string
  sg_hotkey :: string
  sg_environment :: string
  sg_prompt_idx :: int
  sg_checkpoint :: int
  sg_nonce :: string
  sg_arrived_at :: rat
  sg_rewards :: "rat list"
  sg_truncated :: "bool list"
  sg_prompt_tokens :: "int list"
  sg_completions :: "int list list"
  sg_force_spans :: "(int \<times> int) option list"
  sg_spans :: "(int \<times> int) list list option"

text \<open>\<^verbatim>\<open>rl_draw.model_positions\<close>: the positions the policy sampled, in draw order.\<close>

definition model_positions :: "int \<Rightarrow> (int \<times> int) list option \<Rightarrow> int list" where
  "model_positions completion_length spans =
     (case spans of None \<Rightarrow> [0..completion_length - 1] | Some sps \<Rightarrow> concat (map (\<lambda>(a, b). [a..b - 1]) sps))"

definition group_model_positions :: "submitted_group \<Rightarrow> nat \<Rightarrow> int list res" where
  "group_model_positions g i =
     (if length (sg_completions g) \<le> i then Inl (IndexError ''tuple index out of range'')
      else let n = int (length (sg_completions g ! i))
           in case sg_spans g of
                None \<Rightarrow> Inr (model_positions n None)
              | Some sps \<Rightarrow> if length sps \<le> i then Inl (IndexError ''tuple index out of range'')
                            else Inr (model_positions n (Some (sps ! i))))"

definition model_tokens :: "submitted_group \<Rightarrow> nat \<Rightarrow> int res" where
  "model_tokens g i = bind_res (group_model_positions g i) (\<lambda>ps. Inr (int (length ps)))"

text \<open>\<^verbatim>\<open>json.dumps(asdict(group))\<close>: tuples become arrays, \<^verbatim>\<open>None\<close> is null.\<close>

definition jpair :: "int \<times> int \<Rightarrow> pyval" where
  "jpair p = PList [PInt (fst p), PInt (snd p)]"

definition jopt :: "('a \<Rightarrow> pyval) \<Rightarrow> 'a option \<Rightarrow> pyval" where
  "jopt f x = (case x of None \<Rightarrow> PNone | Some y \<Rightarrow> f y)"

definition jlist :: "('a \<Rightarrow> pyval) \<Rightarrow> 'a list \<Rightarrow> pyval" where
  "jlist f xs = PList (map f xs)"

definition group_pack :: "submitted_group \<Rightarrow> pyval" where
  "group_pack g = PDict
     [(PStr ''lease_id'', PStr (sg_lease_id g)), (PStr ''hotkey'', PStr (sg_hotkey g)),
      (PStr ''environment'', PStr (sg_environment g)), (PStr ''prompt_idx'', PInt (sg_prompt_idx g)),
      (PStr ''checkpoint'', PInt (sg_checkpoint g)), (PStr ''nonce'', PStr (sg_nonce g)),
      (PStr ''arrived_at'', PFloat (sg_arrived_at g)), (PStr ''rewards'', jlist PFloat (sg_rewards g)),
      (PStr ''truncated'', jlist PBool (sg_truncated g)), (PStr ''prompt_tokens'', jlist PInt (sg_prompt_tokens g)),
      (PStr ''completions'', jlist (jlist PInt) (sg_completions g)),
      (PStr ''force_spans'', jlist (jopt jpair) (sg_force_spans g)),
      (PStr ''spans'', jopt (jlist (jlist jpair)) (sg_spans g))]"

text \<open>
  Reading a document back. The fields of the Python object are what the document holds; those of the model have
  types, so a document that is not a group's is an error here where Python may build an object with other values.
\<close>

fun un_int :: "pyval \<Rightarrow> int res" where "un_int (PInt i) = Inr i" | "un_int v = Inl (TypeError ''int'')"
fun un_float :: "pyval \<Rightarrow> rat res" where "un_float (PFloat r) = Inr r" | "un_float v = Inl (TypeError ''float'')"
fun un_bool :: "pyval \<Rightarrow> bool res" where "un_bool (PBool b) = Inr b" | "un_bool v = Inl (TypeError ''bool'')"
fun un_str :: "pyval \<Rightarrow> string res" where "un_str (PStr s) = Inr s" | "un_str v = Inl (TypeError ''str'')"
fun un_pair :: "pyval \<Rightarrow> (int \<times> int) res" where
  "un_pair (PList [PInt a, PInt b]) = Inr (a, b)" | "un_pair v = Inl (TypeError ''pair'')"

fun un_items :: "(pyval \<Rightarrow> 'a res) \<Rightarrow> pyval list \<Rightarrow> 'a list res" where
  "un_items f [] = Inr []"
| "un_items f (v # vs) = bind_res (f v) (\<lambda>x. bind_res (un_items f vs) (\<lambda>xs. Inr (x # xs)))"

definition un_list :: "(pyval \<Rightarrow> 'a res) \<Rightarrow> pyval \<Rightarrow> 'a list res" where
  "un_list f v = (case v of PList vs \<Rightarrow> un_items f vs | _ \<Rightarrow> Inl (TypeError ''list''))"

definition un_opt :: "(pyval \<Rightarrow> 'a res) \<Rightarrow> pyval \<Rightarrow> 'a option res" where
  "un_opt f v = (if v = PNone then Inr None else bind_res (f v) (\<lambda>x. Inr (Some x)))"

definition body_field :: "pyval \<Rightarrow> string \<Rightarrow> pyval res" where
  "body_field body name =
     (case body of
        PDict d \<Rightarrow> (case dget d (PStr name) of None \<Rightarrow> Inl KeyError | Some v \<Rightarrow> Inr v)
      | _ \<Rightarrow> Inl (TypeError ''dict''))"

definition group_unpack :: "pyval \<Rightarrow> submitted_group res" where
  "group_unpack body =
     bind_res (bind_res (body_field body ''lease_id'') un_str) (\<lambda>lease_id.
     bind_res (bind_res (body_field body ''hotkey'') un_str) (\<lambda>hotkey.
     bind_res (bind_res (body_field body ''environment'') un_str) (\<lambda>environment.
     bind_res (bind_res (body_field body ''prompt_idx'') un_int) (\<lambda>prompt_idx.
     bind_res (bind_res (body_field body ''checkpoint'') un_int) (\<lambda>checkpoint.
     bind_res (bind_res (body_field body ''nonce'') un_str) (\<lambda>nonce.
     bind_res (bind_res (body_field body ''arrived_at'') un_float) (\<lambda>arrived_at.
     bind_res (bind_res (body_field body ''rewards'') (un_list un_float)) (\<lambda>rewards.
     bind_res (bind_res (body_field body ''truncated'') (un_list un_bool)) (\<lambda>truncated.
     bind_res (bind_res (body_field body ''prompt_tokens'') (un_list un_int)) (\<lambda>prompt_tokens.
     bind_res (bind_res (body_field body ''completions'') (un_list (un_list un_int))) (\<lambda>completions.
     bind_res (bind_res (body_field body ''force_spans'') (un_list (un_opt un_pair))) (\<lambda>force_spans.
     bind_res (case body_field body ''spans'' of Inl e \<Rightarrow> Inr None | Inr v \<Rightarrow> un_opt (un_list (un_list un_pair)) v) (\<lambda>spans.
     Inr \<lparr>sg_lease_id = lease_id, sg_hotkey = hotkey, sg_environment = environment, sg_prompt_idx = prompt_idx,
          sg_checkpoint = checkpoint, sg_nonce = nonce, sg_arrived_at = arrived_at, sg_rewards = rewards,
          sg_truncated = truncated, sg_prompt_tokens = prompt_tokens, sg_completions = completions,
          sg_force_spans = force_spans, sg_spans = spans\<rparr>)))))))))))))"

lemma un_items_map: "(\<And>x. f (g x) = Inr x) \<Longrightarrow> un_items f (map g xs) = Inr xs"
  by (induction xs) simp_all

lemma un_list_jlist: "(\<And>x. f (g x) = Inr x) \<Longrightarrow> un_list f (jlist g xs) = Inr xs"
  by (simp add: un_list_def jlist_def un_items_map)

lemma un_opt_jopt: "(\<And>x. f (g x) = Inr x) \<Longrightarrow> (\<And>x. g x \<noteq> PNone) \<Longrightarrow> un_opt f (jopt g x) = Inr x"
  by (cases x) (simp_all add: un_opt_def jopt_def)

lemma un_pair_jpair: "un_pair (jpair p) = Inr p"
  by (simp add: jpair_def)

lemma json_not_null: "jpair p \<noteq> PNone" "jlist f xs \<noteq> PNone"
  by (simp_all add: jpair_def jlist_def)

text \<open>What a packed group holds is what it was.\<close>

lemma unpack_pack: "group_unpack (group_pack g) = Inr g"
  by (simp add: group_unpack_def group_pack_def body_field_def un_list_jlist un_opt_jopt un_pair_jpair json_not_null)

section \<open>The choice of a batch\<close>

definition SUSPECT_ATTEMPTS :: int where "SUSPECT_ATTEMPTS = 2"
definition URGENT_LAG_MARGIN :: int where "URGENT_LAG_MARGIN = 2"
definition MAX_POLL_GAP_S :: rat where "MAX_POLL_GAP_S = 30"

text \<open>A slice \<^verbatim>\<open>xs[:n]\<close>, which counts a negative \<^verbatim>\<open>n\<close> from the end, and SQL's \<^verbatim>\<open>LIMIT n\<close>, which ignores it.\<close>

definition py_prefix :: "int \<Rightarrow> 'a list \<Rightarrow> 'a list" where
  "py_prefix n xs = take (nat (if n < 0 then int (length xs) + n else n)) xs"

definition sql_limit :: "int \<Rightarrow> 'a list \<Rightarrow> 'a list" where
  "sql_limit n xs = (if n < 0 then xs else take (nat n) xs)"

type_synonym take_row = "string \<times> string \<times> int"

abbreviation tr_lease :: "take_row \<Rightarrow> string" where "tr_lease r \<equiv> fst r"
abbreviation tr_env :: "take_row \<Rightarrow> string" where "tr_env r \<equiv> fst (snd r)"
abbreviation tr_k :: "take_row \<Rightarrow> int" where "tr_k r \<equiv> snd (snd r)"

record mix_state =
  mx_chosen :: "string list"
  mx_counts :: "(string, int) dict"
  mx_extra :: "string list"

definition mix_choose :: "take_row \<Rightarrow> mix_state \<Rightarrow> mix_state" where
  "mix_choose r m = m\<lparr>mx_chosen := mx_chosen m @ [tr_lease r],
     mx_counts := dset (tr_env r) (dget_or (mx_counts m) (tr_env r) 0 + 1) (mx_counts m)\<rparr>"

definition capped :: "(string, int) dict \<Rightarrow> take_row \<Rightarrow> mix_state \<Rightarrow> bool" where
  "capped caps r m \<longleftrightarrow> (case dget caps (tr_env r) of None \<Rightarrow> False | Some c \<Rightarrow> c \<le> dget_or (mx_counts m) (tr_env r) 0)"

fun mix_rows :: "(string, int) dict \<Rightarrow> int \<Rightarrow> string list \<Rightarrow> take_row list \<Rightarrow> mix_state \<Rightarrow> mix_state" where
  "mix_rows caps limit picked [] m = m"
| "mix_rows caps limit picked (r # rs) m =
     (if limit \<le> int (length (mx_chosen m)) then m
      else if tr_lease r \<in> set picked then mix_rows caps limit picked rs m
      else if capped caps r m then mix_rows caps limit picked rs (m\<lparr>mx_extra := mx_extra m @ [tr_lease r]\<rparr>)
      else mix_rows caps limit picked rs (mix_choose r m))"

definition urgent_rows :: "take_row list \<Rightarrow> int option \<Rightarrow> take_row list" where
  "urgent_rows rows urgent_below =
     (case urgent_below of None \<Rightarrow> [] | Some b \<Rightarrow> sort_key (\<lambda>r. tr_k r) (filter (\<lambda>r. tr_k r < b) rows))"

definition mixed_take :: "take_row list \<Rightarrow> (string, int) dict \<Rightarrow> int \<Rightarrow> int option \<Rightarrow> string list" where
  "mixed_take rows caps limit urgent_below =
     (let first = py_prefix limit (urgent_rows rows urgent_below);
          m = mix_rows caps limit (map fst first) rows (fold mix_choose first \<lparr>mx_chosen = [], mx_counts = [], mx_extra = []\<rparr>)
      in mx_chosen m @ py_prefix (max 0 (limit - int (length (mx_chosen m)))) (mx_extra m))"

section \<open>The buffer\<close>

datatype buffer_state = Queued | Taken

record buffer_row =
  br_lease :: string
  br_env :: string
  br_k :: int
  br_arrived :: rat
  br_hotkey :: string
  br_state :: buffer_state
  br_body :: pyval
  br_attempts :: int

record training_buffer =
  tb_rows :: "buffer_row list"
  tb_arrived :: "(string, int) dict"
  tb_taken :: int
  tb_starved :: rat
  tb_waiting :: "rat option"

definition TrainingBuffer :: "buffer_row list \<Rightarrow> training_buffer" where
  "TrainingBuffer rows = \<lparr>tb_rows = rows, tb_arrived = [], tb_taken = 0, tb_starved = 0, tb_waiting = None\<rparr>"

definition completion_tokens :: "submitted_group \<Rightarrow> int" where
  "completion_tokens g = int (sum_list (map length (sg_completions g)))"

definition requeue :: "training_buffer \<Rightarrow> training_buffer \<times> int" where
  "requeue s = (s\<lparr>tb_rows := map (\<lambda>r. if br_state r = Taken then r\<lparr>br_state := Queued\<rparr> else r) (tb_rows s)\<rparr>,
     int (length (filter (\<lambda>r. br_state r = Taken) (tb_rows s))))"

definition push :: "submitted_group \<Rightarrow> training_buffer \<Rightarrow> training_buffer res" where
  "push g s =
     (if \<not> sql_int (sg_checkpoint g) then Inl OverflowError
      else if list_ex (\<lambda>r. br_lease r = sg_lease_id g) (tb_rows s) then Inl IntegrityError
      else Inr (s\<lparr>tb_rows := tb_rows s @
               [\<lparr>br_lease = sg_lease_id g, br_env = sg_environment g, br_k = sg_checkpoint g, br_arrived = sg_arrived_at g,
                 br_hotkey = sg_hotkey g, br_state = Queued, br_body = group_pack g, br_attempts = 0\<rparr>],
             tb_arrived := dset (sg_environment g) (dget_or (tb_arrived s) (sg_environment g) 0 + completion_tokens g) (tb_arrived s)\<rparr>))"

record queue_tick =
  qt_arrivals :: "(string, int) dict"
  qt_taken :: int
  qt_starved_s :: rat

definition drain_tick :: "training_buffer \<Rightarrow> training_buffer \<times> queue_tick" where
  "drain_tick s = (s\<lparr>tb_arrived := [], tb_taken := 0, tb_starved := 0\<rparr>,
     \<lparr>qt_arrivals = tb_arrived s, qt_taken = tb_taken s, qt_starved_s = tb_starved s\<rparr>)"

definition urgent_below :: "int option \<Rightarrow> int option \<Rightarrow> int option" where
  "urgent_below latest max_lag =
     (case (latest, max_lag) of (Some k, Some lag) \<Rightarrow> Some (k - lag + URGENT_LAG_MARGIN) | _ \<Rightarrow> None)"

text \<open>The queries of \<^verbatim>\<open>take\<close>.\<close>

definition queued_fresh :: "training_buffer \<Rightarrow> buffer_row list" where
  "queued_fresh s = sort_key (\<lambda>r. (br_arrived r, br_lease r))
     (filter (\<lambda>r. br_state r = Queued \<and> br_attempts r < SUSPECT_ATTEMPTS) (tb_rows s))"

definition queued_suspects :: "training_buffer \<Rightarrow> buffer_row list" where
  "queued_suspects s = sort_key (\<lambda>r. (br_attempts r, br_arrived r, br_lease r))
     (filter (\<lambda>r. br_state r = Queued \<and> SUSPECT_ATTEMPTS \<le> br_attempts r) (tb_rows s))"

definition suspect_held :: "training_buffer \<Rightarrow> bool" where
  "suspect_held s \<longleftrightarrow> list_ex (\<lambda>r. br_state r = Taken \<and> SUSPECT_ATTEMPTS < br_attempts r) (tb_rows s)"

definition take_fresh :: "(string, int) dict \<Rightarrow> int option \<Rightarrow> int \<Rightarrow> training_buffer \<Rightarrow> buffer_row list" where
  "take_fresh caps urgent limit s =
     (if caps = [] then sql_limit limit (queued_fresh s)
      else List.map_filter (\<lambda>i. find (\<lambda>r. br_lease r = i) (tb_rows s))
             (mixed_take (map (\<lambda>r. (br_lease r, br_env r, br_k r)) (queued_fresh s)) caps limit urgent))"

definition take_retried :: "int \<Rightarrow> int \<Rightarrow> training_buffer \<Rightarrow> buffer_row list" where
  "take_retried fresh limit s = (if limit \<le> fresh \<or> suspect_held s then [] else sql_limit 1 (queued_suspects s))"

definition hand_out :: "bool \<Rightarrow> buffer_row list \<Rightarrow> training_buffer \<Rightarrow> training_buffer" where
  "hand_out counted rows s = s\<lparr>tb_rows := map (\<lambda>r. if br_lease r \<in> br_lease ` set rows
     then r\<lparr>br_state := Taken, br_attempts := br_attempts r + (if counted then 1 else 0)\<rparr> else r) (tb_rows s)\<rparr>"

definition note_wait :: "rat \<Rightarrow> bool \<Rightarrow> training_buffer \<Rightarrow> training_buffer" where
  "note_wait now short s =
     s\<lparr>tb_starved := (case tb_waiting s of None \<Rightarrow> tb_starved s | Some t \<Rightarrow> tb_starved s + min (now - t) MAX_POLL_GAP_S),
       tb_waiting := (if short then Some now else None)\<rparr>"

definition unpack_rows :: "buffer_row list \<Rightarrow> submitted_group list res" where
  "unpack_rows rows = un_items group_unpack (map br_body rows)"

definition buffer_take ::
  "(int \<Rightarrow> (string, int) dict) option \<Rightarrow> int option \<Rightarrow> int option \<Rightarrow> rat \<Rightarrow> int \<Rightarrow> training_buffer \<Rightarrow> training_buffer \<times> submitted_group list res" where
  "buffer_take batch_caps latest max_lag now limit s =
     (let caps = (case batch_caps of None \<Rightarrow> [] | Some f \<Rightarrow> f limit);
          fresh = take_fresh caps (urgent_below latest max_lag) limit s;
          rows = fresh @ take_retried (int (length fresh)) limit s;
          s' = note_wait now (int (length rows) < limit) (hand_out True rows s)
      in case unpack_rows rows of
           Inl e \<Rightarrow> (s', Inl e)
         | Inr groups \<Rightarrow> (s'\<lparr>tb_taken := tb_taken s' + sum_list (map completion_tokens groups)\<rparr>, Inr groups))"

definition take_older ::
  "(buffer_row list \<Rightarrow> buffer_row list) \<Rightarrow> int \<Rightarrow> int \<Rightarrow> training_buffer \<Rightarrow> training_buffer \<times> submitted_group list res" where
  "take_older order below_k limit s =
     (let rows = sql_limit limit (order (filter (\<lambda>r. br_state r = Queued \<and> br_k r < below_k) (tb_rows s)))
      in (hand_out False rows s, unpack_rows rows))"

definition take_exhausted ::
  "(buffer_row list \<Rightarrow> buffer_row list) \<Rightarrow> int \<Rightarrow> int \<Rightarrow> training_buffer \<Rightarrow> training_buffer \<times> submitted_group list res" where
  "take_exhausted order max_attempts limit s =
     (let rows = sql_limit limit (order (filter (\<lambda>r. br_state r = Queued \<and> max_attempts \<le> br_attempts r) (tb_rows s)))
      in (hand_out False rows s, unpack_rows rows))"

definition buffer_release :: "string list \<Rightarrow> training_buffer \<Rightarrow> training_buffer" where
  "buffer_release lease_ids s = s\<lparr>tb_rows := map (\<lambda>r. if br_lease r \<in> set lease_ids \<and> br_state r = Taken then r\<lparr>br_state := Queued\<rparr> else r) (tb_rows s)\<rparr>"

definition buffer_get :: "string \<Rightarrow> training_buffer \<Rightarrow> submitted_group option res" where
  "buffer_get lease_id s =
     (case find (\<lambda>r. br_lease r = lease_id) (tb_rows s) of
        None \<Rightarrow> Inr None
      | Some r \<Rightarrow> bind_res (group_unpack (br_body r)) (\<lambda>g. Inr (Some g)))"

definition buffer_remove :: "string \<Rightarrow> training_buffer \<Rightarrow> training_buffer \<times> bool" where
  "buffer_remove lease_id s = (s\<lparr>tb_rows := filter (\<lambda>r. br_lease r \<noteq> lease_id) (tb_rows s)\<rparr>,
     length (filter (\<lambda>r. br_lease r = lease_id) (tb_rows s)) = 1)"

definition depth :: "training_buffer \<Rightarrow> (string, int) dict" where
  "depth s = (let queued = map br_env (filter (\<lambda>r. br_state r = Queued) (tb_rows s))
              in map (\<lambda>env. (env, int (length (filter (\<lambda>e. e = env) queued)))) (sort (remdups queued)))"

section \<open>What a mixed take chooses\<close>

text \<open>How many of the rows of an environment are among the ids.\<close>

definition env_count :: "take_row list \<Rightarrow> string \<Rightarrow> string set \<Rightarrow> int" where
  "env_count rows env ids = int (length (filter (\<lambda>r. tr_env r = env \<and> tr_lease r \<in> ids) rows))"

lemma env_count_insert:
  assumes "distinct (map fst rows)" "r \<in> set rows" "tr_lease r \<notin> ids"
  shows "env_count rows env (insert (tr_lease r) ids) = env_count rows env ids + (if tr_env r = env then 1 else 0)"
  using assms
proof (induction rows)
  case (Cons q rows)
  show ?case
  proof (cases "q = r")
    case True
    then have "filter (\<lambda>x. tr_env x = env \<and> tr_lease x \<in> insert (tr_lease r) ids) rows = filter (\<lambda>x. tr_env x = env \<and> tr_lease x \<in> ids) rows"
      using Cons.prems(1) by (intro filter_cong) (auto simp: image_iff)
    then show ?thesis using True Cons.prems(3) by (simp add: env_count_def)
  next
    case False
    then have "tr_lease q \<noteq> tr_lease r" "r \<in> set rows" using Cons.prems(1,2) by (auto simp: image_iff)
    then show ?thesis using Cons.IH Cons.prems by (auto simp: env_count_def)
  qed
qed simp


lemma env_count_empty [simp]: "env_count rows env {} = 0"
  by (simp add: env_count_def)

text \<open>The state of the choice when the rows \<open>pre\<close> have been read, the urgent ones being picked already.\<close>

definition mix_ok :: "take_row list \<Rightarrow> (string, int) dict \<Rightarrow> string list \<Rightarrow> take_row list \<Rightarrow> mix_state \<Rightarrow> bool" where
  "mix_ok rows caps picked pre m \<longleftrightarrow>
     distinct (mx_chosen m @ mx_extra m) \<and> set (mx_chosen m @ mx_extra m) = set picked \<union> fst ` set pre
     \<and> (\<exists>ys. mx_chosen m = picked @ ys)
     \<and> (\<forall>env. dget_or (mx_counts m) env 0 = env_count rows env (set (mx_chosen m)))
     \<and> (\<forall>r \<in> set pre. tr_lease r \<in> set (mx_extra m) \<longrightarrow> capped caps r m)
     \<and> (\<forall>env c. dget caps env = Some c \<longrightarrow> env_count rows env (set (mx_chosen m)) \<le> max c (env_count rows env (set picked)))"

lemma mix_choose_chosen [simp]:
  "mx_chosen (mix_choose r m) = mx_chosen m @ [tr_lease r]" "mx_extra (mix_choose r m) = mx_extra m"
  "dget_or (mx_counts (mix_choose r m)) env 0 = dget_or (mx_counts m) env 0 + (if tr_env r = env then 1 else 0)"
  by (simp_all add: mix_choose_def)

lemma mix_first:
  assumes "distinct (map fst rows)" "set first \<subseteq> set rows" "distinct (map fst first)"
  shows "mix_ok rows caps (map fst first) [] (fold mix_choose first \<lparr>mx_chosen = [], mx_counts = [], mx_extra = []\<rparr>)"
proof -
  have "mx_chosen (fold mix_choose xs m) = mx_chosen m @ map fst xs \<and> mx_extra (fold mix_choose xs m) = mx_extra m
      \<and> (\<forall>env. dget_or (mx_counts (fold mix_choose xs m)) env 0 = env_count rows env (set (mx_chosen m @ map fst xs)))"
    if "set xs \<subseteq> set rows" "distinct (mx_chosen m @ map fst xs)" "\<forall>env. dget_or (mx_counts m) env 0 = env_count rows env (set (mx_chosen m))" for xs m
    using that
  proof (induction xs arbitrary: m)
    case (Cons x xs)
    have "\<forall>env. dget_or (mx_counts (mix_choose x m)) env 0 = env_count rows env (set (mx_chosen (mix_choose x m)))"
      using env_count_insert [OF assms(1), of x "set (mx_chosen m)"] Cons.prems by (simp add: image_iff)
    then show ?case using Cons.IH [of "mix_choose x m"] Cons.prems(1,2) by (simp add: insert_commute)
  qed simp
  from this [of first "\<lparr>mx_chosen = [], mx_counts = [], mx_extra = []\<rparr>"] show ?thesis
    using assms(2,3) by (simp add: mix_ok_def)
qed

lemma capped_extra [simp]: "capped caps r (m\<lparr>mx_extra := e\<rparr>) = capped caps r m"
  by (cases "dget caps (tr_env r)") (simp_all add: capped_def)

lemma capped_mono: "capped caps r m \<Longrightarrow> dget_or (mx_counts m) (tr_env r) 0 \<le> dget_or (mx_counts m') (tr_env r) 0 \<Longrightarrow> capped caps r m'"
  by (auto simp: capped_def split: option.splits)

lemma mix_ok_skip: "mix_ok rows caps picked pre m \<Longrightarrow> tr_lease r \<in> set picked \<Longrightarrow> mix_ok rows caps picked (pre @ [r]) m"
  unfolding mix_ok_def by auto

lemma mix_ok_extra:
  assumes "mix_ok rows caps picked pre m" "tr_lease r \<notin> set picked" "tr_lease r \<notin> fst ` set pre" "capped caps r m"
  shows "mix_ok rows caps picked (pre @ [r]) (m\<lparr>mx_extra := mx_extra m @ [tr_lease r]\<rparr>)"
proof -
  have "tr_lease r \<notin> set (mx_chosen m @ mx_extra m)" using assms(1-3) by (simp add: mix_ok_def)
  moreover have "capped caps q m" if "q \<in> set pre" "tr_lease q \<in> set (mx_extra m) \<or> tr_lease q = tr_lease r" for q
    using that assms(1,3) by (auto simp: mix_ok_def image_iff)
  ultimately show ?thesis using assms(1,4) unfolding mix_ok_def by simp
qed

lemma mix_ok_choose:
  assumes "distinct (map fst rows)" "r \<in> set rows" "mix_ok rows caps picked pre m" "tr_lease r \<notin> set picked" "tr_lease r \<notin> fst ` set pre" "\<not> capped caps r m"
  shows "mix_ok rows caps picked (pre @ [r]) (mix_choose r m)"
proof -
  let ?c = "set (mx_chosen m)"
  have new: "tr_lease r \<notin> ?c" "tr_lease r \<notin> set (mx_extra m)" using assms(3-5) by (auto simp: mix_ok_def)
  have inc: "env_count rows env (insert (tr_lease r) ?c) = env_count rows env ?c + (if tr_env r = env then 1 else 0)" for env
    using env_count_insert [OF assms(1,2) new(1)] by simp
  have counts: "dget_or (mx_counts m) env 0 = env_count rows env ?c" for env using assms(3) by (simp add: mix_ok_def)
  have room: "env_count rows env ?c < c" if "dget caps env = Some c" "tr_env r = env" for env c
    using assms(6) that counts by (auto simp: capped_def)
  have "capped caps q (mix_choose r m)" if "q \<in> set pre" "tr_lease q \<in> set (mx_extra m)" for q
  proof -
    have "capped caps q m" using assms(3) that unfolding mix_ok_def by blast
    then show ?thesis by (rule capped_mono) simp
  qed
  moreover have "env_count rows env (insert (tr_lease r) ?c) \<le> max c (env_count rows env (set picked))" if "dget caps env = Some c" for env c
    using assms(3) that room [OF that] inc by (fastforce simp: mix_ok_def)
  ultimately show ?thesis using assms(3) new counts inc unfolding mix_ok_def by auto
qed

lemma mix_rows_ok:
  assumes "distinct (map fst rows)" "rows = pre @ rs" "mix_ok rows caps picked pre m"
  shows "\<exists>pre'. set pre' \<subseteq> set rows \<and> mix_ok rows caps picked pre' (mix_rows caps limit picked rs m)
    \<and> (set pre' = set rows \<or> limit \<le> int (length (mx_chosen (mix_rows caps limit picked rs m))))"
  using assms(2,3)
proof (induction rs arbitrary: pre m)
  case (Cons r rs)
  show ?case
  proof (cases "limit \<le> int (length (mx_chosen m))")
    case True
    then show ?thesis using Cons.prems by auto
  next
    case False
    have r: "r \<in> set rows" "tr_lease r \<notin> fst ` set pre" "rows = (pre @ [r]) @ rs" using Cons.prems(1) assms(1) by (auto simp: image_iff)
    consider "tr_lease r \<in> set picked" | "tr_lease r \<notin> set picked" "capped caps r m" | "tr_lease r \<notin> set picked" "\<not> capped caps r m" by blast
    then show ?thesis
    proof cases
      case 1
      then show ?thesis using Cons.IH [OF r(3) mix_ok_skip [OF Cons.prems(2) 1]] False by simp
    next
      case 2
      then show ?thesis using Cons.IH [OF r(3) mix_ok_extra [OF Cons.prems(2) 2(1) r(2) 2(2)]] False by simp
    next
      case 3
      then show ?thesis using Cons.IH [OF r(3) mix_ok_choose [OF assms(1) r(1) Cons.prems(2) 3(1) r(2) 3(2)]] False by simp
    qed
  qed
qed auto

lemma mix_rows_length: "int (length (mx_chosen m)) \<le> limit \<Longrightarrow> int (length (mx_chosen (mix_rows caps limit picked rs m))) \<le> limit"
  by (induction caps limit picked rs m rule: mix_rows.induct) auto

lemma urgent_rows_sub: "set (urgent_rows rows b) \<subseteq> set rows" "distinct (map fst rows) \<Longrightarrow> distinct (map fst (urgent_rows rows b))"
proof -
  show "set (urgent_rows rows b) \<subseteq> set rows" by (auto simp: urgent_rows_def split: option.splits)
  assume d: "distinct (map fst rows)"
  then have "distinct (map fst (filter (\<lambda>r. tr_k r < k) rows))" for k by (rule distinct_map_filter)
  then have "distinct (map fst (sort_key (\<lambda>r. tr_k r) (filter (\<lambda>r. tr_k r < k) rows)))" for k by (simp add: distinct_map)
  then show "distinct (map fst (urgent_rows rows b))" by (simp add: urgent_rows_def split: option.splits)
qed

text \<open>The choice before its last line: what is chosen, and what is left over the caps.\<close>

lemma mixed_parts:
  assumes "distinct (map fst rows)" "0 \<le> limit"
  obtains m pre where "mixed_take rows caps limit b = mx_chosen m @ take (nat (limit - int (length (mx_chosen m)))) (mx_extra m)"
    "mix_ok rows caps (map fst (take (nat limit) (urgent_rows rows b))) pre m" "set pre \<subseteq> set rows"
    "set pre = set rows \<or> limit \<le> int (length (mx_chosen m))" "int (length (mx_chosen m)) \<le> limit"
proof -
  let ?first = "take (nat limit) (urgent_rows rows b)"
  let ?m0 = "fold mix_choose ?first \<lparr>mx_chosen = [], mx_counts = [], mx_extra = []\<rparr>"
  define m where "m = mix_rows caps limit (map fst ?first) rows ?m0"
  have sub: "set ?first \<subseteq> set rows" using urgent_rows_sub(1) [of rows b] set_take_subset [of "nat limit" "urgent_rows rows b"] by blast
  have "distinct (map fst ?first)" using urgent_rows_sub(2) [OF assms(1)] unfolding take_map [symmetric] by (rule distinct_take)
  note ok0 = mix_first [OF assms(1) sub this, of caps]
  from mix_rows_ok [OF assms(1) _ ok0, of rows limit] obtain pre where pre: "set pre \<subseteq> set rows" "mix_ok rows caps (map fst ?first) pre m"
    "set pre = set rows \<or> limit \<le> int (length (mx_chosen m))" by (auto simp: m_def)
  have "mx_chosen (fold mix_choose xs q) = mx_chosen q @ map fst xs" for xs q by (induction xs arbitrary: q) simp_all
  then have "mx_chosen ?m0 = map fst ?first" by simp
  then have "int (length (mx_chosen ?m0)) \<le> limit" using assms(2) by simp
  then have len: "int (length (mx_chosen m)) \<le> limit" unfolding m_def by (rule mix_rows_length)
  have "mixed_take rows caps limit b = mx_chosen m @ take (nat (limit - int (length (mx_chosen m)))) (mx_extra m)"
    using assms(2) len by (simp add: mixed_take_def Let_def py_prefix_def m_def)
  from that [OF this pre(2,1,3) len] show thesis .
qed

lemma mixed_take_sound:
  assumes "distinct (map fst rows)" "0 \<le> limit"
  shows "distinct (mixed_take rows caps limit b)" "set (mixed_take rows caps limit b) \<subseteq> fst ` set rows"
    "int (length (mixed_take rows caps limit b)) = min limit (int (length rows))"
    "take (length (take (nat limit) (urgent_rows rows b))) (mixed_take rows caps limit b) = map fst (take (nat limit) (urgent_rows rows b))"
proof -
  let ?first = "take (nat limit) (urgent_rows rows b)"
  obtain m pre where out: "mixed_take rows caps limit b = mx_chosen m @ take (nat (limit - int (length (mx_chosen m)))) (mx_extra m)"
    and ok: "mix_ok rows caps (map fst ?first) pre m" and pre: "set pre \<subseteq> set rows" "set pre = set rows \<or> limit \<le> int (length (mx_chosen m))"
    and len: "int (length (mx_chosen m)) \<le> limit" by (rule mixed_parts [OF assms])
  let ?ids = "mx_chosen m @ mx_extra m"
  have sub: "set ?first \<subseteq> set rows" using urgent_rows_sub(1) [of rows b] set_take_subset [of "nat limit" "urgent_rows rows b"] by blast
  have d: "distinct ?ids" "set ?ids = fst ` set ?first \<union> fst ` set pre" using ok by (simp_all add: mix_ok_def)
  then have ids: "set ?ids \<subseteq> fst ` set rows" using sub pre(1) by blast
  show "distinct (mixed_take rows caps limit b)" using d(1) set_take_subset [of _ "mx_extra m"] unfolding out by (auto simp: disjoint_iff)
  show "set (mixed_take rows caps limit b) \<subseteq> fst ` set rows" using ids unfolding out by (auto dest: in_set_takeD)
  have n: "length ?ids = card (set ?ids)" "length rows = card (fst ` set rows)"
    using distinct_card [OF d(1)] distinct_card [OF assms(1)] by simp_all
  have "length ?ids \<le> length rows" unfolding n by (rule card_mono [OF _ ids]) simp
  moreover have "length ?ids = length rows" if "set pre = set rows"
  proof -
    have "set ?ids = fst ` set rows" using d(2) that sub by blast
    then show ?thesis unfolding n by simp
  qed
  ultimately show "int (length (mixed_take rows caps limit b)) = min limit (int (length rows))"
    using pre(2) len unfolding out by (auto simp: min_def)
  obtain ys where "mx_chosen m = map fst ?first @ ys" using ok by (auto simp: mix_ok_def)
  then show "take (length ?first) (mixed_take rows caps limit b) = map fst ?first" unfolding out by simp
qed


section \<open>Steps of the buffer\<close>

text \<open>
  Every operation that changes the buffer, labelled with the group it removes if any. A restart keeps the table and
  forgets the counters. \<open>order\<close> is the order in which SQLite returns the rows of a query without one.
\<close>

inductive tb_step :: "string option \<Rightarrow> training_buffer \<Rightarrow> training_buffer \<Rightarrow> bool" where
  tb_push: "push g s = Inr s' \<Longrightarrow> tb_step None s s'"
| tb_requeue: "tb_step None s (fst (requeue s))"
| tb_drain: "tb_step None s (fst (drain_tick s))"
| tb_take: "tb_step None s (fst (buffer_take batch_caps latest max_lag now limit s))"
| tb_older: "(\<And>rows. mset (order rows) = mset rows) \<Longrightarrow> tb_step None s (fst (take_older order below_k limit s))"
| tb_exhausted: "(\<And>rows. mset (order rows) = mset rows) \<Longrightarrow> tb_step None s (fst (take_exhausted order max_attempts limit s))"
| tb_release: "tb_step None s (buffer_release lease_ids s)"
| tb_remove: "tb_step (Some lease_id) s (fst (buffer_remove lease_id s))"
| tb_restart: "tb_step None s (TrainingBuffer (tb_rows s))"

definition tb_init :: "training_buffer \<Rightarrow> bool" where
  "tb_init s \<longleftrightarrow> s = TrainingBuffer []"

definition tb_any :: "training_buffer \<Rightarrow> training_buffer \<Rightarrow> bool" where
  "tb_any s s' \<longleftrightarrow> (\<exists>l. tb_step l s s')"

text \<open>A row is that of a group: its columns are the group's, its body the group's document.\<close>

definition row_group :: "buffer_row \<Rightarrow> submitted_group \<Rightarrow> bool" where
  "row_group r g \<longleftrightarrow> br_body r = group_pack g \<and> br_lease r = sg_lease_id g \<and> br_env r = sg_environment g
     \<and> br_k r = sg_checkpoint g \<and> br_arrived r = sg_arrived_at g \<and> br_hotkey r = sg_hotkey g"

definition tb_ok :: "training_buffer \<Rightarrow> bool" where
  "tb_ok s \<longleftrightarrow> distinct (map br_lease (tb_rows s)) \<and> (\<forall>r \<in> set (tb_rows s). 0 \<le> br_attempts r \<and> (\<exists>g. row_group r g))"

text \<open>The operations other than push and remove change the state and the attempts of rows, and nothing else of them.\<close>

definition restates :: "(buffer_row \<Rightarrow> buffer_row) \<Rightarrow> bool" where
  "restates f \<longleftrightarrow> (\<forall>r. br_lease (f r) = br_lease r \<and> br_attempts r \<le> br_attempts (f r) \<and> (\<forall>g. row_group (f r) g = row_group r g))"

definition same_groups :: "training_buffer \<Rightarrow> training_buffer \<Rightarrow> bool" where
  "same_groups s s' \<longleftrightarrow> (\<exists>f. restates f \<and> tb_rows s' = map f (tb_rows s))"

lemma same_groupsI: "restates f \<Longrightarrow> tb_rows s' = map f (tb_rows s) \<Longrightarrow> same_groups s s'"
  unfolding same_groups_def by blast

lemma same_groups_map: "restates f \<Longrightarrow> same_groups s (s\<lparr>tb_rows := map f (tb_rows s)\<rparr>)"
  by (rule same_groupsI [of f]) simp_all

lemma hand_out_same: "same_groups s (hand_out counted rows s)"
  unfolding hand_out_def by (rule same_groups_map) (auto simp: restates_def row_group_def)

lemma same_groups_rows: "same_groups s t \<Longrightarrow> tb_rows t = tb_rows u \<Longrightarrow> same_groups s u"
  by (simp add: same_groups_def)

lemma same_groups_refl: "tb_rows s' = tb_rows s \<Longrightarrow> same_groups s s'"
  by (rule same_groupsI [where f = id]) (simp_all add: restates_def)

lemma take_rows:
  "tb_rows (fst (buffer_take batch_caps latest max_lag now limit s))
     = (let fresh = take_fresh (case batch_caps of None \<Rightarrow> [] | Some f \<Rightarrow> f limit) (urgent_below latest max_lag) limit s
        in tb_rows (hand_out True (fresh @ take_retried (int (length fresh)) limit s) s))"
  by (simp add: buffer_take_def Let_def note_wait_def split: sum.split)

lemma step_same_groups:
  assumes "tb_step l s s'"
  obtains (same) "same_groups s s'"
  | (pushed) g where "l = None" "push g s = Inr s'"
  | (removed) lease_id where "l = Some lease_id" "s' = fst (buffer_remove lease_id s)"
  using assms
proof cases
  case (tb_take batch_caps latest max_lag now limit)
  then have "tb_rows s' = tb_rows (hand_out True (let fresh = take_fresh (case batch_caps of None \<Rightarrow> [] | Some f \<Rightarrow> f limit) (urgent_below latest max_lag) limit s
      in fresh @ take_retried (int (length fresh)) limit s) s)" by (simp add: take_rows Let_def)
  then show thesis using same_groups_rows [OF hand_out_same] same by metis
next
  case tb_requeue
  have "same_groups s s'" unfolding tb_requeue requeue_def fst_conv by (rule same_groups_map) (auto simp: restates_def row_group_def)
  then show thesis by (rule same)
next
  case (tb_release lease_ids)
  have "same_groups s s'" unfolding tb_release buffer_release_def by (rule same_groups_map) (auto simp: restates_def row_group_def)
  then show thesis by (rule same)
next
  case tb_drain
  then show thesis using same same_groups_refl [of s' s] by (simp add: drain_tick_def)
next
  case tb_restart
  then show thesis using same same_groups_refl [of s' s] by (simp add: TrainingBuffer_def)
qed (use that in \<open>auto simp: take_older_def take_exhausted_def Let_def intro: hand_out_same\<close>)

lemma push_Inr:
  assumes "push g s = Inr s'"
  shows "sg_lease_id g \<notin> br_lease ` set (tb_rows s) \<and> (\<exists>r. row_group r g \<and> br_state r = Queued \<and> br_attempts r = 0 \<and> tb_rows s' = tb_rows s @ [r])"
  using assms by (auto simp: push_def row_group_def list_ex_iff split: if_splits)

lemma same_groups_ok:
  assumes "same_groups s s'" "tb_ok s"
  shows "tb_ok s'"
proof -
  obtain f where f: "restates f" "tb_rows s' = map f (tb_rows s)" using assms(1) by (auto simp: same_groups_def)
  have "map br_lease (tb_rows s') = map br_lease (tb_rows s)" using f by (simp add: restates_def)
  moreover have "0 \<le> br_attempts (f r) \<and> (\<exists>g. row_group (f r) g)" if "r \<in> set (tb_rows s)" for r
  proof -
    have "0 \<le> br_attempts r" "\<exists>g. row_group r g" using that assms(2) by (simp_all add: tb_ok_def)
    moreover have "br_attempts r \<le> br_attempts (f r)" "\<forall>g. row_group (f r) g = row_group r g" using f(1) by (simp_all add: restates_def)
    ultimately show ?thesis by force
  qed
  ultimately show ?thesis using assms(2) unfolding tb_ok_def f(2) by (simp only: set_map ball_simps) simp
qed

lemma step_tb_ok:
  assumes "tb_step l s s'" "tb_ok s"
  shows "tb_ok s'"
  using assms(1)
proof (cases rule: step_same_groups)
  case same
  then show ?thesis using assms(2) by (rule same_groups_ok)
next
  case (pushed g)
  then obtain r where r: "sg_lease_id g \<notin> br_lease ` set (tb_rows s)" "row_group r g" "br_attempts r = 0" "tb_rows s' = tb_rows s @ [r]"
    using push_Inr by blast
  then have "br_lease r \<notin> br_lease ` set (tb_rows s)" by (simp add: row_group_def)
  then show ?thesis using assms(2) r(2-4) by (auto simp: tb_ok_def)
next
  case (removed lease_id)
  then show ?thesis using assms(2) by (auto simp: tb_ok_def buffer_remove_def distinct_map_filter)
qed

interpretation buffer: step_invariant tb_init tb_any tb_ok
proof unfold_locales
  show "tb_ok s" if "tb_init s" for s using that by (simp add: tb_init_def TrainingBuffer_def tb_ok_def)
  show "tb_ok t" if "tb_ok s" "tb_any s t" for s t using that step_tb_ok unfolding tb_any_def by blast
qed

section \<open>What a take hands out\<close>

lemma find_lease: "distinct (map br_lease rows) \<Longrightarrow> r \<in> set rows \<Longrightarrow> find (\<lambda>q. br_lease q = br_lease r) rows = Some r"
  by (induction rows) (auto simp: image_iff)

lemma map_filter_find:
  assumes "\<And>i. i \<in> set ids \<Longrightarrow> \<exists>r \<in> Q. f i = Some r \<and> br_lease r = i"
  shows "map br_lease (List.map_filter f ids) = ids \<and> set (List.map_filter f ids) \<subseteq> Q"
  using assms
proof (induction ids)
  case (Cons i ids)
  obtain r where "r \<in> Q" "f i = Some r" "br_lease r = i" using Cons.prems [of i] by auto
  then show ?case using Cons.IH Cons.prems by simp
qed simp

lemma queued_rows:
  assumes "tb_ok s"
  shows "set (queued_fresh s) = {r \<in> set (tb_rows s). br_state r = Queued \<and> br_attempts r < SUSPECT_ATTEMPTS}"
    "set (queued_suspects s) = {r \<in> set (tb_rows s). br_state r = Queued \<and> SUSPECT_ATTEMPTS \<le> br_attempts r}"
    "distinct (map br_lease (queued_fresh s))"
proof -
  show "set (queued_fresh s) = {r \<in> set (tb_rows s). br_state r = Queued \<and> br_attempts r < SUSPECT_ATTEMPTS}"
    "set (queued_suspects s) = {r \<in> set (tb_rows s). br_state r = Queued \<and> SUSPECT_ATTEMPTS \<le> br_attempts r}"
    by (simp_all add: queued_fresh_def queued_suspects_def)
  have "distinct (map br_lease (filter P (tb_rows s)))" for P using assms by (simp add: tb_ok_def distinct_map_filter)
  then show "distinct (map br_lease (queued_fresh s))" by (simp add: queued_fresh_def distinct_map)
qed

lemma take_fresh_sound:
  assumes "tb_ok s" "0 \<le> limit"
  shows "set (take_fresh caps b limit s) \<subseteq> set (queued_fresh s) \<and> distinct (map br_lease (take_fresh caps b limit s))
    \<and> int (length (take_fresh caps b limit s)) = min limit (int (length (queued_fresh s)))"
proof (cases "caps = []")
  case True
  have "distinct (map br_lease (take n (queued_fresh s)))" for n
    using queued_rows(3) [OF assms(1)] unfolding take_map [symmetric] by (rule distinct_take)
  then show ?thesis using True assms(2) by (auto simp: take_fresh_def sql_limit_def min_def dest: in_set_takeD)
next
  case False
  let ?rows = "map (\<lambda>r. (br_lease r, br_env r, br_k r)) (queued_fresh s)"
  let ?ids = "mixed_take ?rows caps limit b"
  have d: "distinct (map fst ?rows)" unfolding map_map comp_def fst_conv by (rule queued_rows(3) [OF assms(1)])
  note ids = mixed_take_sound [OF d assms(2), where caps = caps and b = b]
  have "\<exists>r \<in> set (queued_fresh s). find (\<lambda>r. br_lease r = i) (tb_rows s) = Some r \<and> br_lease r = i" if i: "i \<in> set ?ids" for i
  proof -
    obtain r where r: "r \<in> set (queued_fresh s)" "br_lease r = i" using ids(2) i by fastforce
    then have "r \<in> set (tb_rows s)" using queued_rows(1) [OF assms(1)] by simp
    then show ?thesis using r find_lease [of "tb_rows s" r] assms(1) by (auto simp: tb_ok_def)
  qed
  note found = map_filter_find [OF this]
  have F: "take_fresh caps b limit s = List.map_filter (\<lambda>i. find (\<lambda>r. br_lease r = i) (tb_rows s)) ?ids" using False by (simp add: take_fresh_def)
  have "length (take_fresh caps b limit s) = length (map br_lease (take_fresh caps b limit s))" by simp
  also have "\<dots> = length ?ids" using found unfolding F by (rule conjunct1 [THEN arg_cong])
  finally show ?thesis using found F ids(1,3) by simp
qed

lemma unpack_rows_ok:
  assumes "\<And>r. r \<in> set rows \<Longrightarrow> \<exists>g. row_group r g"
  shows "\<exists>groups. unpack_rows rows = Inr groups \<and> list_all2 row_group rows groups"
  using assms
proof (induction rows)
  case (Cons r rows)
  obtain g where g: "row_group r g" using Cons.prems by auto
  obtain groups where "unpack_rows rows = Inr groups" "list_all2 row_group rows groups" using Cons by auto
  moreover have "br_body r = group_pack g" using g by (simp add: row_group_def)
  ultimately show ?case using g by (auto simp: unpack_rows_def unpack_pack)
qed (simp add: unpack_rows_def)

lemma row_groups_ids: "list_all2 row_group rows groups \<Longrightarrow> map sg_lease_id groups = map br_lease rows"
  by (induction rule: list_all2_induct) (simp_all add: row_group_def)

lemma row_groups_mem: "list_all2 row_group rows groups \<Longrightarrow> g \<in> set groups \<Longrightarrow> \<exists>r \<in> set rows. row_group r g"
  by (induction rule: list_all2_induct) auto

lemma take_retried_sound:
  assumes "tb_ok s" "0 \<le> limit"
  shows "set (take_retried n limit s) \<subseteq> set (queued_suspects s) \<and> distinct (map br_lease (take_retried n limit s))
    \<and> int (length (take_retried n limit s)) = (if limit \<le> n \<or> suspect_held s \<or> queued_suspects s = [] then 0 else 1)"
  by (cases "queued_suspects s") (auto simp: take_retried_def sql_limit_def)

text \<open>
  C3. What a take hands out. From every buffer reached, a take of a non-negative limit succeeds. It hands out as many fresh groups as
  the limit or the queue allows, whatever the caps of the environments, and a suspect group, one handed out twice already,
  only when the fresh ones do not fill the batch and the trainer holds no suspect, and then exactly one. Nothing is
  handed out twice; the rows handed out are marked taken with one more attempt and no other row changes.
\<close>

theorem take_hands_out:
  assumes "reach tb_init tb_any s" "0 \<le> limit"
  shows "\<exists>fresh suspect. snd (buffer_take batch_caps latest max_lag now limit s) = Inr (fresh @ suspect)
    \<and> distinct (map sg_lease_id (fresh @ suspect))
    \<and> (\<forall>g \<in> set fresh. \<exists>r \<in> set (queued_fresh s). row_group r g) \<and> (\<forall>g \<in> set suspect. \<exists>r \<in> set (queued_suspects s). row_group r g)
    \<and> int (length fresh) = min limit (int (length (queued_fresh s)))
    \<and> int (length suspect) = (if limit \<le> int (length (queued_fresh s)) \<or> suspect_held s \<or> queued_suspects s = [] then 0 else 1)
    \<and> tb_rows (fst (buffer_take batch_caps latest max_lag now limit s))
        = map (\<lambda>r. if br_lease r \<in> sg_lease_id ` set (fresh @ suspect) then r\<lparr>br_state := Taken, br_attempts := br_attempts r + 1\<rparr> else r) (tb_rows s)"
proof -
  have ok: "tb_ok s" by (rule buffer.inv_reach [OF assms(1)])
  define F where "F = take_fresh (case batch_caps of None \<Rightarrow> [] | Some f \<Rightarrow> f limit) (urgent_below latest max_lag) limit s"
  define S where "S = take_retried (int (length F)) limit s"
  have F: "set F \<subseteq> set (queued_fresh s)" "distinct (map br_lease F)" "int (length F) = min limit (int (length (queued_fresh s)))"
    using take_fresh_sound [OF ok assms(2)] unfolding F_def by blast+
  have S: "set S \<subseteq> set (queued_suspects s)" "distinct (map br_lease S)"
    "int (length S) = (if limit \<le> int (length F) \<or> suspect_held s \<or> queued_suspects s = [] then 0 else 1)"
    using take_retried_sound [OF ok assms(2)] unfolding S_def by blast+
  have rows: "r \<in> set (tb_rows s)" if "r \<in> set F \<union> set S" for r using that F(1) S(1) queued_rows [OF ok] by auto
  have "br_lease q \<noteq> br_lease r" if "q \<in> set F" "r \<in> set S" for q r
  proof -
    have "q \<noteq> r" using that F(1) S(1) queued_rows [OF ok] by force
    then show ?thesis using rows that ok by (auto simp: tb_ok_def distinct_map inj_on_def)
  qed
  then have d: "distinct (map br_lease (F @ S))" using F(2) S(2) by (auto simp: disjoint_iff)
  have groups: "\<exists>g. row_group r g" if "r \<in> set F \<union> set S" for r using rows [OF that] ok by (simp add: tb_ok_def)
  obtain gs where gs: "unpack_rows (F @ S) = Inr gs" "list_all2 row_group (F @ S) gs" using unpack_rows_ok [of "F @ S"] groups by auto
  obtain fresh suspect where fs: "gs = fresh @ suspect" "list_all2 row_group F fresh" "list_all2 row_group S suspect"
    using gs(2) unfolding list_all2_append1 by blast
  have ids: "map sg_lease_id (fresh @ suspect) = map br_lease (F @ S)" using row_groups_ids [OF gs(2)] fs(1) by simp
  then have set_ids: "br_lease ` set (F @ S) = sg_lease_id ` set (fresh @ suspect)" by (metis set_map)
  have snd_take: "snd (buffer_take batch_caps latest max_lag now limit s) = Inr (fresh @ suspect)"
    using gs(1) fs(1) by (simp add: buffer_take_def Let_def F_def S_def)
  have "tb_rows (fst (buffer_take batch_caps latest max_lag now limit s)) = tb_rows (hand_out True (F @ S) s)"
    by (simp add: take_rows Let_def F_def S_def)
  also have "\<dots> = map (\<lambda>r. if br_lease r \<in> sg_lease_id ` set (fresh @ suspect) then r\<lparr>br_state := Taken, br_attempts := br_attempts r + 1\<rparr> else r) (tb_rows s)"
    unfolding hand_out_def set_ids by simp
  finally have rows': "tb_rows (fst (buffer_take batch_caps latest max_lag now limit s)) = \<dots>" .
  have len: "int (length fresh) = min limit (int (length (queued_fresh s)))"
    "int (length suspect) = (if limit \<le> int (length (queued_fresh s)) \<or> suspect_held s \<or> queued_suspects s = [] then 0 else 1)"
    using F(3) S(3) list_all2_lengthD [OF fs(2)] list_all2_lengthD [OF fs(3)] by (simp_all add: min_def split: if_splits)
  have mem: "\<forall>g \<in> set fresh. \<exists>r \<in> set (queued_fresh s). row_group r g" "\<forall>g \<in> set suspect. \<exists>r \<in> set (queued_suspects s). row_group r g"
    using row_groups_mem [OF fs(2)] row_groups_mem [OF fs(3)] F(1) S(1) by blast+
  have "distinct (map sg_lease_id (fresh @ suspect))" unfolding ids by (rule d)
  then show ?thesis using snd_take mem len rows' by blast
qed


section \<open>Groups are kept\<close>

lemma get_group:
  assumes "tb_ok s"
  shows "buffer_get i s = Inr (Some g) \<longleftrightarrow> (\<exists>r \<in> set (tb_rows s). br_lease r = i \<and> row_group r g)"
proof
  assume "buffer_get i s = Inr (Some g)"
  then obtain r where r: "find (\<lambda>r. br_lease r = i) (tb_rows s) = Some r" "group_unpack (br_body r) = Inr g"
    by (auto simp: buffer_get_def bind_res_Inr_iff split: option.splits)
  then have row: "r \<in> set (tb_rows s)" "br_lease r = i" by (auto simp: find_Some_iff)
  then obtain g' where "row_group r g'" using assms by (auto simp: tb_ok_def)
  then show "\<exists>r \<in> set (tb_rows s). br_lease r = i \<and> row_group r g" using r(2) row by (auto simp: row_group_def unpack_pack)
next
  assume "\<exists>r \<in> set (tb_rows s). br_lease r = i \<and> row_group r g"
  then obtain r where r: "r \<in> set (tb_rows s)" "br_lease r = i" "row_group r g" by blast
  then have "find (\<lambda>r. br_lease r = i) (tb_rows s) = Some r" using find_lease [of "tb_rows s" r] assms by (simp add: tb_ok_def)
  then show "buffer_get i s = Inr (Some g)" using r(3) by (simp add: buffer_get_def row_group_def unpack_pack)
qed

lemma lease_once: "distinct (map br_lease rows) \<Longrightarrow> r \<in> set rows \<Longrightarrow> filter (\<lambda>q. br_lease q = br_lease r) rows = [r]"
  by (induction rows) (auto simp: image_iff filter_empty_conv)

lemma step_keeps:
  assumes "tb_step l s s'" "l \<noteq> Some i" "tb_ok s" "buffer_get i s = Inr (Some g)"
  shows "buffer_get i s' = Inr (Some g)"
proof -
  obtain r where r: "r \<in> set (tb_rows s)" "br_lease r = i" "row_group r g" using assms(4) get_group [OF assms(3)] by blast
  have "\<exists>r \<in> set (tb_rows s'). br_lease r = i \<and> row_group r g"
    using assms(1)
  proof (cases rule: step_same_groups)
    case same
    then obtain f where "restates f" "tb_rows s' = map f (tb_rows s)" by (auto simp: same_groups_def)
    then show ?thesis using r by (intro bexI [of _ "f r"]) (simp_all add: restates_def)
  next
    case (pushed g')
    then show ?thesis using push_Inr [OF pushed(2)] r by auto
  next
    case (removed j)
    then have "j \<noteq> i" using assms(2) by simp
    then show ?thesis using removed r by (auto simp: buffer_remove_def)
  qed
  then show ?thesis using get_group [OF step_tb_ok [OF assms(1,3)]] by blast
qed

text \<open>
  C18. No group is lost. A pushed group can be read back unchanged, its document parsed, after any operations of the
  buffer, the trainer's takes and returns and restarts of the controller among them, until it is removed; a removal reports whether it was there and
  leaves nothing. When the trainer starts over, every group of the buffer is queued again.
\<close>

theorem buffer_keeps_groups:
  assumes "reach tb_init tb_any s"
  shows "(\<forall>g s'. push g s = Inr s' \<longrightarrow> buffer_get (sg_lease_id g) s' = Inr (Some g))
    \<and> (\<forall>g s'. buffer_get i s = Inr (Some g) \<longrightarrow> (\<lambda>x y. \<exists>l. l \<noteq> Some i \<and> tb_step l x y)\<^sup>*\<^sup>* s s' \<longrightarrow> buffer_get i s' = Inr (Some g))
    \<and> buffer_get i (fst (buffer_remove i s)) = Inr None \<and> (snd (buffer_remove i s) \<longleftrightarrow> buffer_get i s \<noteq> Inr None)
    \<and> (\<forall>r \<in> set (tb_rows (fst (requeue s))). br_state r = Queued)"
proof -
  have ok: "tb_ok s" by (rule buffer.inv_reach [OF assms])
  have pushed: "buffer_get (sg_lease_id g) s' = Inr (Some g)" if p: "push g s = Inr s'" for g s'
  proof -
    have "tb_ok s'" using step_tb_ok [OF tb_push [OF p] ok] .
    then show ?thesis using push_Inr [OF p] get_group by (fastforce simp: row_group_def)
  qed
  have kept: "tb_ok s' \<and> buffer_get i s' = Inr (Some g)"
    if "(\<lambda>x y. \<exists>l. l \<noteq> Some i \<and> tb_step l x y)\<^sup>*\<^sup>* s s'" "buffer_get i s = Inr (Some g)" for g s'
    using that(1)
  proof (induction rule: rtranclp_induct)
    case (step y z)
    then show ?case using step_tb_ok step_keeps by blast
  qed (use ok that(2) in simp)
  have gone: "buffer_get i (fst (buffer_remove i s)) = Inr None"
  proof -
    have "find (\<lambda>r. br_lease r = i) (filter (\<lambda>r. br_lease r \<noteq> i) (tb_rows s)) = None" by (simp add: find_None_iff)
    then show ?thesis by (simp add: buffer_get_def buffer_remove_def)
  qed
  have there: "snd (buffer_remove i s) \<longleftrightarrow> buffer_get i s \<noteq> Inr None"
  proof (cases "find (\<lambda>r. br_lease r = i) (tb_rows s)")
    case None
    then have "filter (\<lambda>r. br_lease r = i) (tb_rows s) = []" by (auto simp: find_None_iff filter_empty_conv)
    then show ?thesis using None by (simp add: buffer_remove_def buffer_get_def)
  next
    case (Some r)
    then have r: "r \<in> set (tb_rows s)" "br_lease r = i" by (auto simp: find_Some_iff)
    then have "filter (\<lambda>q. br_lease q = i) (tb_rows s) = [r]" using lease_once ok by (auto simp: tb_ok_def)
    then show ?thesis using Some by (simp add: buffer_remove_def buffer_get_def bind_res_Inr_iff)
  qed
  have "br_state r = Queued" if "br_state r \<noteq> Taken" for r :: buffer_row using that by (cases "br_state r") simp_all
  then have "\<forall>r \<in> set (tb_rows (fst (requeue s))). br_state r = Queued" by (auto simp: requeue_def)
  then show ?thesis using pushed kept gone there by blast
qed

section \<open>An example buffer\<close>

definition ex_group :: "string \<Rightarrow> string \<Rightarrow> int \<Rightarrow> rat \<Rightarrow> submitted_group" where
  "ex_group i env k arrived = \<lparr>sg_lease_id = i, sg_hotkey = ''h'', sg_environment = env, sg_prompt_idx = 5, sg_checkpoint = k,
     sg_nonce = ''ab'', sg_arrived_at = arrived, sg_rewards = [1, 0], sg_truncated = [False, True], sg_prompt_tokens = [3, 4],
     sg_completions = [[1, 2, 3], [4]], sg_force_spans = [None, Some (0, 1)], sg_spans = Some [[(0, 2)], [(0, 1)]]\<rparr>"

definition ex_push :: "submitted_group \<Rightarrow> training_buffer \<Rightarrow> training_buffer" where
  "ex_push g s = (case push g s of Inl e \<Rightarrow> s | Inr s' \<Rightarrow> s')"

definition ex_buffer :: training_buffer where
  "ex_buffer = ex_push (ex_group ''l3'' ''code'' 2 1) (ex_push (ex_group ''l2'' ''math'' 1 3) (ex_push (ex_group ''l1'' ''math'' 0 2) (TrainingBuffer [])))"

lemma reach_push: "reach tb_init tb_any s \<Longrightarrow> reach tb_init tb_any (ex_push g s)"
proof (cases "push g s")
  case (Inr s')
  assume "reach tb_init tb_any s"
  moreover have "tb_any s s'" unfolding tb_any_def using tb_push [OF Inr] by blast
  ultimately show ?thesis using Inr reach_step by (simp add: ex_push_def)
qed (simp add: ex_push_def)

lemma ex_buffer_reach: "reach tb_init tb_any ex_buffer"
  unfolding ex_buffer_def by (intro reach_push reach_init) (simp add: tb_init_def)

theorem take_hands_out_witness:
  "\<exists>groups. snd (buffer_take None None None 10 2 ex_buffer) = Inr groups \<and> length groups = 2 \<and> distinct (map sg_lease_id groups)"
proof -
  have n: "length (queued_fresh ex_buffer) = 3" by code_simp
  show ?thesis using take_hands_out [OF ex_buffer_reach, where limit = 2 and batch_caps = None and latest = None and max_lag = None and now = 10] n
    by fastforce
qed


theorem buffer_keeps_groups_witness:
  "buffer_get ''l1'' (fst (buffer_take None None None 10 2 ex_buffer)) = Inr (Some (ex_group ''l1'' ''math'' 0 2))
   \<and> buffer_get ''l1'' (fst (buffer_remove ''l1'' ex_buffer)) = Inr None"
proof -
  have g: "buffer_get ''l1'' ex_buffer = Inr (Some (ex_group ''l1'' ''math'' 0 2))" by code_simp
  have "(\<lambda>x y. \<exists>l. l \<noteq> Some ''l1'' \<and> tb_step l x y)\<^sup>*\<^sup>* ex_buffer (fst (buffer_take None None None 10 2 ex_buffer))"
    by (rule r_into_rtranclp) (use tb_take in blast)
  then show ?thesis using buffer_keeps_groups [OF ex_buffer_reach, of "''l1''"] g by blast
qed

end
