(* ===== verification/Rl_Env_Shares.thy ===== *)
theory Rl_Env_Shares
  imports Rl_Buffer
begin

text \<open>
  The environments' shares of a batch (\<^verbatim>\<open>reliquary/validator/rl_env_shares.py\<close>): from the targets, which are shares of the
  trained tokens, and the mean tokens of an environment's recent groups, how many groups of an environment a batch and
  the queue may hold. The clock reading and the table of graded groups, \<open>None\<close> while the file has none, are arguments.
\<close>

section \<open>Shares\<close>

text \<open>A row of \<^verbatim>\<open>rl_groups\<close>, the columns the readers of the table use.\<close>

record group_row =
  gr_seq :: int
  gr_lease :: string
  gr_env :: string
  gr_verdict :: string
  gr_tokens :: int
  gr_first_scan :: bool
  gr_training :: "string option"

definition DEFAULT_GROUP_TOKENS :: rat where "DEFAULT_GROUP_TOKENS = 100000"
definition RECENT_GROUPS :: int where "RECENT_GROUPS = 200"

definition recent_groups :: "group_row list option \<Rightarrow> string \<Rightarrow> int \<Rightarrow> group_row list" where
  "recent_groups groups env recent =
     (case groups of
        None \<Rightarrow> []
      | Some rows \<Rightarrow> sql_limit recent (rev (sort_key gr_seq (filter (\<lambda>r. gr_env r = env \<and> gr_verdict r = ''in_zone'' \<and> 0 < gr_tokens r) rows))))"

definition mean_tokens :: "group_row list option \<Rightarrow> int \<Rightarrow> rat \<Rightarrow> string \<Rightarrow> rat" where
  "mean_tokens groups recent default_tokens env =
     (let rows = recent_groups groups env recent
      in if rows = [] then default_tokens else of_int (sum_list (map gr_tokens rows)) / of_nat (length rows))"

definition group_weights :: "(string, rat) dict \<Rightarrow> (string, rat) dict \<Rightarrow> (string, rat) dict" where
  "group_weights targets tokens = map (\<lambda>(env, share). (env, share / dget_or tokens env 0)) (filter (\<lambda>(env, share). 0 < share) targets)"

definition group_shares ::
  "group_row list option \<Rightarrow> (string, rat) dict \<Rightarrow> int \<Rightarrow> rat \<Rightarrow> (string, rat) dict \<times> (string, rat) dict" where
  "group_shares groups targets recent default_tokens =
     (let tokens = map (\<lambda>env. (env, mean_tokens groups recent default_tokens env)) (sort (dkeys targets));
          weights = group_weights targets tokens; total = dsum weights
      in (if 0 < total then map (\<lambda>(env, w). (env, w / total)) weights else [], tokens))"

section \<open>Limits drawn from them\<close>

record env_group_caps =
  eg_targets :: "(string, rat) dict"
  eg_batch_groups :: int
  eg_lane_batches :: "rat option"
  eg_batch_factor :: "rat option"
  eg_refresh_s :: rat
  eg_cached :: "(rat \<times> (string, rat) dict \<times> (string, rat) dict) option"


definition eg_read :: "group_row list option \<Rightarrow> rat \<Rightarrow> env_group_caps \<Rightarrow> env_group_caps \<times> (string, rat) dict \<times> (string, rat) dict" where
  "eg_read groups now c =
     (case eg_cached c of
        Some (t, shares, tokens) \<Rightarrow>
          if eg_refresh_s c \<le> now - t
          then let read = group_shares groups (eg_targets c) RECENT_GROUPS DEFAULT_GROUP_TOKENS in (c\<lparr>eg_cached := Some (now, read)\<rparr>, read)
          else (c, shares, tokens)
      | None \<Rightarrow> let read = group_shares groups (eg_targets c) RECENT_GROUPS DEFAULT_GROUP_TOKENS in (c\<lparr>eg_cached := Some (now, read)\<rparr>, read))"

definition eg_shares :: "group_row list option \<Rightarrow> rat \<Rightarrow> env_group_caps \<Rightarrow> env_group_caps \<times> (string, rat) dict" where
  "eg_shares groups now c = (case eg_read groups now c of (c', shares, tokens) \<Rightarrow> (c', shares))"

definition eg_group_tokens :: "group_row list option \<Rightarrow> rat \<Rightarrow> env_group_caps \<Rightarrow> env_group_caps \<times> (string, rat) dict" where
  "eg_group_tokens groups now c = (case eg_read groups now c of (c', shares, tokens) \<Rightarrow> (c', tokens))"

text \<open>\<^verbatim>\<open>max(1, math.ceil(factor * groups * share))\<close> per environment.\<close>

definition share_caps :: "rat \<Rightarrow> int \<Rightarrow> (string, rat) dict \<Rightarrow> (string, int) dict" where
  "share_caps factor groups shares = map (\<lambda>(env, share). (env, max 1 \<lceil>factor * of_int groups * share\<rceil>)) shares"

definition lane_max :: "group_row list option \<Rightarrow> rat \<Rightarrow> env_group_caps \<Rightarrow> env_group_caps \<times> (string, int) dict" where
  "lane_max groups now c =
     (case eg_lane_batches c of
        None \<Rightarrow> (c, [])
      | Some factor \<Rightarrow> (case eg_shares groups now c of (c', shares) \<Rightarrow> (c', share_caps factor (eg_batch_groups c) shares)))"


section \<open>The shares reach the targets\<close>






section \<open>Steps\<close>











end
