(* ===== verification/Spec2Isabelle.thy ===== *)
theory Spec2Isabelle
  imports Cooldown Fill_Window Training_Accumulator Batch_Selection Slot_Ledger Corpus_Walk Draw_Leases Lease_Market Lease_Quota Rl_Lease_Life Rl_Cooldown Rl_Env_Shares
begin

text \<open>
  Reliquary is a subnet in which miners generate completions for a model and validators check, select and pay them.
  This library models the accounting of a validator: the state it keeps about prompts, leases, slots, quotas and
  prices, and the decisions it takes from them. All paths below are under \<^verbatim>\<open>src/reliquary/\<close>.

  \<^bold>\<open>The program's parts and how they interact.\<close>
  \<^item> The window validator collects submissions per window, closes the window when it is full, selects a batch, shares the
    emission, cools the rewarded prompts down and accumulates groups until every environment has a training batch.
  \<^item> The asynchronous RL validator leases prompts to miners through a lease book, which asks a quota controller how many
    leases a hotkey may hold and an adaptive cooldown how long a scanned prompt rests. Graded groups go to a training
    buffer in the same database; the trainer takes batches from it, mixed by the environments' shares.
  \<^item> The corpus validator hands out the slots of a job's prompts. A draw job leases its slots, at a price an auction moves,
    and a period clock decides when the work is paid.

  \<^bold>\<open>Theories, sources and what is shown.\<close>
  \<^item> \<^verbatim>\<open>Reliquary_Prelude\<close>: errors as values, dictionaries in insertion order, runs of a step relation (\<open>reach\<close>), and the
    locales \<open>store\<close> (a keyed store, interpreted on association lists) and \<open>step_invariant\<close> (an invariant of a state
    machine, interpreted once for each state machine below). \<^verbatim>\<open>Python_Values\<close> and \<^verbatim>\<open>Base64\<close>: what the sources use of
    Python's strings, bytes and \<^verbatim>\<open>base64\<close>.
  \<^item> \<^verbatim>\<open>Cooldown\<close> (\<^verbatim>\<open>validator/cooldown.py\<close>): prompt and content cooldowns, both an interpretation of the locale
    \<open>cooldown_clock\<close>. The invariant, the snapshot round trip, and that a rebuild from archives answers as the live map.
  \<^item> \<^verbatim>\<open>Batch_Selection\<close> (\<^verbatim>\<open>validator/batch_selection.py\<close>): the selection by drand rounds and the emission. What is paid
    plus what is burned is the pool; the result does not depend on arrival order; earlier rounds win; the explanation
    agrees with the selection.
  \<^item> \<^verbatim>\<open>Fill_Window\<close> (\<^verbatim>\<open>validator/fill_window.py\<close>): budgets, slots and picks of a fill-closed window, that they never exceed
    their bounds, and when the window closes.
  \<^item> \<^verbatim>\<open>Training_Accumulator\<close> (\<^verbatim>\<open>validator/training_accumulator.py\<close>): what a window adds, and that a batch never mixes
    checkpoints.
  \<^item> \<^verbatim>\<open>Slot_Ledger\<close> (\<^verbatim>\<open>corpus/slots.py\<close>): capacities, failures and completions of a prompt's slots; the ledger's
    completion, its snapshot and the open map the miners parse. \<^verbatim>\<open>Corpus_Walk\<close> (\<^verbatim>\<open>corpus/walk.py\<close>): the hash walk and its
    cursors.
  \<^item> \<^verbatim>\<open>Draw_Leases\<close> (\<^verbatim>\<open>corpus/draw_leases.py\<close>): the lease book of draw slots: its index, its caps, what a grant gives and
    exactly when a submission is refused.
  \<^item> \<^verbatim>\<open>Corpus_Periods\<close> (\<^verbatim>\<open>validator/corpus_periods.py\<close>): the period clock, the entry of a job into it, and a replay that
    pays what the archives recorded. \<^verbatim>\<open>Token_Auction\<close> (\<^verbatim>\<open>corpus/token_auction.py\<close>): asks, rounds, admissions and debts; the
    price and the leases of a round stay in their bounds, and how the price moves.
  \<^item> \<^verbatim>\<open>Lease_Market\<close> (\<^verbatim>\<open>validator/corpus_service.py\<close>: \<^verbatim>\<open>lease_corpus\<close>, \<^verbatim>\<open>release_corpus_lease\<close>, the pricing of
    \<^verbatim>\<open>submit_corpus\<close>): draw leases and the auction together. A route is cut where it waits; \<open>market_run\<close> is any interleaving
    of the pieces. Debts are conserved and no round grants more than it has, in every run.
  \<^item> \<^verbatim>\<open>Lease_Quota\<close> (\<^verbatim>\<open>validator/rl_lease_quota.py\<close>): the quota of a hotkey and its rule. \<^verbatim>\<open>Prompt_Rows\<close>
    (\<^verbatim>\<open>protocol/rl_prompt_ranges.py\<close>): the rows that may be leased, their parser, and the sets they denote.
  \<^item> \<^verbatim>\<open>Rl_Leases\<close> (\<^verbatim>\<open>validator/rl_leases.py\<close>): the lease book's tables as a record and every operation of it.
    \<^verbatim>\<open>Rl_Lease_Laws\<close> has its steps and its invariant; \<^verbatim>\<open>Rl_Lease_Props\<close> shows that leases are exclusive, that quotas count
    them and that every prompt asked for is answered; \<^verbatim>\<open>Rl_Lease_Life\<close> shows that nonces can be audited, that the tables are
    as the code reads them and that a held submission survives expiry; \<^verbatim>\<open>Rl_Prompt_Life\<close> shows the lifecycle of a prompt.
  \<^item> \<^verbatim>\<open>Rl_Cooldown\<close> (\<^verbatim>\<open>validator/rl_cooldown.py\<close>): the cooldown from measured pass rates. \<^verbatim>\<open>Rl_Buffer\<close>
    (\<^verbatim>\<open>validator/rl_buffer.py\<close>): the queue of graded groups, what a take hands out, how a mixed take shares it and that no
    group is lost. \<^verbatim>\<open>Rl_Env_Shares\<close> (\<^verbatim>\<open>validator/rl_env_shares.py\<close>): the limits the shares give, as the buffer takes them.

  \<^bold>\<open>How state and operations correspond.\<close> A class is a record with the fields of its instances, or the tables of its
  database; a method is a function of the same name from the record to the record, with what it returns; names that
  clash with Isabelle's carry a prefix. A method that raises returns an \<open>Inl\<close>. A database transaction is one step, and
  an exception in it gives the state before it, except for what the code keeps in memory. Clock readings, random draws
  and ids, the order in which SQLite returns rows it was not asked to sort, and the answers of code outside the
  repository are arguments, so that the theorems hold for all of them. SHA-256 is the parameter \<open>H\<close>; no theorem relies on
  more of it than its hypotheses say.

  \<^bold>\<open>Bounds and fuel.\<close> No definition uses fuel. Every loop of the modelled code is a structural recursion, or has a
  termination proof (\<open>bisect_right\<close>), but for the search of \<open>entry_for\<close>, a \<open>partial_function\<close> whose theorem proves that it
  returns. Integers are unbounded as in Python; where the code packs one into bytes or SQLite stores it in 64 bits, the
  overflow is an error of the model. Floats are rationals: the theorems say nothing of rounding.

  \<^bold>\<open>What is not modelled.\<close> The HTTP servers and the service loops around these components, the chain, buckets and disks
  are I/O. Proof verification, training and generation are numerical code on tensors. Signatures are third-party
  cryptography. Environments, graders and sandboxes run code of other packages. The payment ledger, the price
  controller and the submission path of the RL validator, which use the lease book and the buffer, are not modelled
  either.
\<close>

end
